(* ===== verification/Rhino_Prelude.thy ===== *)
theory Rhino_Prelude
  imports Main "HOL-Library.Word" "HOL-Library.Sublist"
begin

unbundle bit_operations_syntax

text \<open>
  The prelude of the development: the collections of simplification rules the components
  fill, the names of the types every component shares, Go's \<open>int64\<close> arithmetic, the parts of
  Go's \<open>strings\<close> and \<open>encoding/hex\<close> packages the program calls, and the lemmas on lists and
  partial maps that more than one component needs.
\<close>

named_theorems go_simps \<open>rules of the modelled Go library\<close>
named_theorems io_simps \<open>closed forms of the reader and writer operations\<close>
named_theorems db_simps \<open>effects of the SQL statements on the tables\<close>

type_synonym byte = "8 word"
type_synonym bytes = "byte list"

text \<open>
  A Go \<open>(T, error)\<close> pair whose value is meaningful only when the error is nil is a sum:
  \<open>Inl\<close> carries the error, \<open>Inr\<close> the value.
\<close>
type_synonym ('e, 'a) result = "'e + 'a"

text \<open>The bytes drawn from \<open>crypto/rand.Reader\<close> by one call, as an infinite supply.\<close>
type_synonym entropy = "nat \<Rightarrow> byte"

subsection \<open>int64\<close>

text \<open>
  Go's \<open>int64\<close> is modelled as \<open>int\<close>, with the two's-complement wrap-around written out as
  \<open>i64\<close> wherever an operation of the source can leave the range; division truncates.
\<close>

definition i64 :: "int \<Rightarrow> int" where
  "i64 x = (x + 2 ^ 63) mod 2 ^ 64 - 2 ^ 63"

definition max_i64 :: int where
  "max_i64 = 2 ^ 63 - 1"

definition in_i64 :: "int \<Rightarrow> bool" where
  "in_i64 x \<longleftrightarrow> - (2 ^ 63) \<le> x \<and> x \<le> max_i64"

definition go_quot :: "int \<Rightarrow> int \<Rightarrow> int" where
  "go_quot a b = sgn a * sgn b * (\<bar>a\<bar> div \<bar>b\<bar>)"

lemma i64_id [go_simps]: "in_i64 x \<Longrightarrow> i64 x = x"
  by (simp add: i64_def in_i64_def max_i64_def)

lemma i64_range: "in_i64 (i64 x)"
proof -
  have "0 \<le> (x + 2 ^ 63) mod 2 ^ 64" "(x + 2 ^ 63) mod 2 ^ 64 < 2 ^ 64" by simp_all
  then show ?thesis by (simp add: i64_def in_i64_def max_i64_def)
qed

lemma go_quot_nonneg: "0 \<le> a \<Longrightarrow> 0 < b \<Longrightarrow> go_quot a b = a div b"
  by (cases "a = 0") (simp_all add: go_quot_def)

subsection \<open>encoding/hex\<close>

definition hex_table :: string where
  "hex_table = ''0123456789abcdef''"

definition hex_digit :: "nat \<Rightarrow> char" where
  "hex_digit n = hex_table ! n"

definition hex_byte :: "byte \<Rightarrow> string" where
  "hex_byte b = [hex_digit (unat b div 16), hex_digit (unat b mod 16)]"

definition hex_encode :: "bytes \<Rightarrow> string" where
  "hex_encode bs = concat (map hex_byte bs)"

definition hex_chars :: "char set" where
  "hex_chars = set hex_table"

lemma hex_encode_simps [simp]:
  "hex_encode [] = []"
  "hex_encode (b # bs) = hex_byte b @ hex_encode bs"
  by (simp_all add: hex_encode_def)

lemma length_hex_encode [simp]: "length (hex_encode bs) = 2 * length bs"
  by (induction bs) (simp_all add: hex_byte_def)

lemma length_hex_table: "length hex_table = 16"
  by (simp add: hex_table_def)

lemma distinct_hex_table: "distinct hex_table"
  by (simp add: hex_table_def)

lemma hex_digit_in: "n < 16 \<Longrightarrow> hex_digit n \<in> hex_chars"
  by (simp add: hex_digit_def hex_chars_def length_hex_table)

lemma hex_digit_inj: "m < 16 \<Longrightarrow> n < 16 \<Longrightarrow> hex_digit m = hex_digit n \<Longrightarrow> m = n"
  using nth_eq_iff_index_eq [OF distinct_hex_table] by (simp add: hex_digit_def length_hex_table)

lemma unat_byte_lt [simp]: "unat (b :: byte) < 256"
  using unsigned_less [of b] by simp

lemma hex_byte_inj: "hex_byte a = hex_byte b \<Longrightarrow> a = b"
proof -
  assume "hex_byte a = hex_byte b"
  moreover have "unat a div 16 < 16" "unat b div 16 < 16"
    using unat_byte_lt [of a] unat_byte_lt [of b] by linarith+
  ultimately have "unat a div 16 = unat b div 16" "unat a mod 16 = unat b mod 16"
    by (auto simp: hex_byte_def intro: hex_digit_inj)
  then have "unat a = unat b" by (metis div_mult_mod_eq)
  then show "a = b" by (rule unsigned_word_eqI)
qed

lemma hex_encode_inj: "hex_encode as = hex_encode bs \<Longrightarrow> as = bs"
proof (induction as arbitrary: bs)
  case Nil
  then show ?case by (cases bs) (simp_all add: hex_byte_def)
next
  case (Cons a as)
  then obtain b bs' where "bs = b # bs'" by (cases bs) (auto simp: hex_byte_def)
  with Cons show ?case by (auto simp: hex_byte_def intro: hex_byte_inj)
qed

lemma set_hex_encode: "set (hex_encode bs) \<subseteq> hex_chars"
proof (induction bs)
  case (Cons b bs)
  have "unat b div 16 < 16" using unat_byte_lt [of b] by linarith
  with Cons show ?case by (simp add: hex_byte_def hex_digit_in)
qed simp

subsection \<open>strings\<close>

text \<open>\<open>strings.Split\<close> with a one-byte separator, \<open>strings.Join\<close> and \<open>strings.TrimRight\<close>.\<close>

fun split_on :: "char \<Rightarrow> string \<Rightarrow> string list" where
  "split_on c [] = [[]]"
| "split_on c (x # xs) =
     (if x = c then [] # split_on c xs
      else (case split_on c xs of [] \<Rightarrow> [[x]] | y # ys \<Rightarrow> (x # y) # ys))"

fun join_with :: "string \<Rightarrow> string list \<Rightarrow> string" where
  "join_with sep [] = []"
| "join_with sep [x] = x"
| "join_with sep (x # y # ys) = x @ sep @ join_with sep (y # ys)"

definition trim_right :: "char \<Rightarrow> string \<Rightarrow> string" where
  "trim_right c s = rev (dropWhile (\<lambda>x. x = c) (rev s))"

lemma split_on_nonempty [simp]: "split_on c s \<noteq> []"
  by (induction s) (auto split: list.splits)

lemma split_on_no_sep: "c \<notin> set s \<Longrightarrow> split_on c s = [s]"
  by (induction s) auto

lemma split_on_append_sep: "c \<notin> set s \<Longrightarrow> split_on c (s @ c # t) = s # split_on c t"
  by (induction s) auto

lemma split_on_append_sep_gen: "split_on c (s @ c # t) = split_on c s @ split_on c t"
proof (induction s)
  case (Cons x s)
  then show ?case by (cases "split_on c s") auto
qed simp

lemma split_join:
  "xs \<noteq> [] \<Longrightarrow> (\<forall>x \<in> set xs. c \<notin> set x) \<Longrightarrow> split_on c (join_with [c] xs) = xs"
  by (induction "[c]" xs rule: join_with.induct) (auto simp: split_on_no_sep split_on_append_sep)

lemma trim_right_last: "trim_right c s = [] \<or> last (trim_right c s) \<noteq> c"
proof -
  have "dropWhile (\<lambda>x. x = c) (rev s) = [] \<or> hd (dropWhile (\<lambda>x. x = c) (rev s)) \<noteq> c"
    by (metis (mono_tags) hd_dropWhile)
  then show ?thesis by (auto simp: trim_right_def last_rev)
qed

subsection \<open>Lists and maps\<close>

text \<open>The first element that satisfies a predicate: a \<open>SELECT ... LIMIT 1\<close> or a \<open>range\<close> loop that returns.\<close>

lemma find_Some_iff_in: "find P xs = Some x \<Longrightarrow> x \<in> set xs \<and> P x"
  by (auto simp: find_Some_iff)

lemma option_eq_by_Some: "(\<And>c. x = Some c \<longleftrightarrow> y = Some c) \<Longrightarrow> x = y"
  by (cases x; cases y) auto

lemma find_append: "find P (xs @ ys) = (case find P xs of None \<Rightarrow> find P ys | Some x \<Rightarrow> Some x)"
  by (induction xs) auto

lemma concat_filter_nonempty [simp]: "concat (filter (\<lambda>x. x \<noteq> []) xs) = concat xs"
  by (induction xs) auto

lemma map_filter_conv_the: 
  "(\<forall>x \<in> set xs. f x \<noteq> None) \<Longrightarrow> List.map_filter f xs = map (\<lambda>x. the (f x)) xs"
  by (induction xs) auto

lemma map_filter_id: "(\<forall>x \<in> set xs. f x = Some x) \<Longrightarrow> List.map_filter f xs = xs"
  by (induction xs) auto

lemma set_map_filter: "set (List.map_filter f xs) = {y. \<exists>x \<in> set xs. f x = Some y}"
  by (auto simp: List.map_filter_def image_iff split: option.splits) force

subsection \<open>Iterating over a map\<close>

text \<open>Go iterates over a map in an unspecified order: the keys sorted by an arbitrary rank.\<close>
type_synonym map_order = "string \<Rightarrow> nat"

definition map_iter :: "map_order \<Rightarrow> string list \<Rightarrow> string list" where
  "map_iter rank keys = sort_key rank keys"

lemma set_map_iter [simp]: "set (map_iter rank keys) = set keys"
  by (simp add: map_iter_def)

subsection \<open>Concurrent sections that end\<close>

text \<open>
  The contract of a section of goroutines that the caller waits for: an invariant is kept, every
  step uses up some of the remaining work, and only the final states are without a step.
\<close>
locale terminating_system =
  fixes step :: "'s \<Rightarrow> 's \<Rightarrow> bool" and inv :: "'s \<Rightarrow> bool" and work :: "'s \<Rightarrow> nat" and final :: "'s \<Rightarrow> bool"
  assumes inv_step: "inv s \<Longrightarrow> step s s' \<Longrightarrow> inv s'"
    and work_step: "inv s \<Longrightarrow> step s s' \<Longrightarrow> work s' < work s"
    and progress: "inv s \<Longrightarrow> \<not> final s \<Longrightarrow> \<exists>s'. step s s'"
begin

lemma run_bound: "(step ^^ m) s0 s \<Longrightarrow> inv s0 \<Longrightarrow> inv s \<and> m + work s \<le> work s0"
proof (induction m arbitrary: s)
  case (Suc m)
  then obtain s1 where s1: "(step ^^ m) s0 s1" "step s1 s" by auto
  with Suc have "inv s1" "m + work s1 \<le> work s0" by blast+
  with s1(2) show ?case using inv_step work_step by fastforce
qed simp

lemma reaches_final: "inv s \<Longrightarrow> \<exists>s'. step\<^sup>*\<^sup>* s s' \<and> final s'"
proof (induction "work s" arbitrary: s rule: less_induct)
  case less
  show ?case
  proof (cases "final s")
    case False
    with less.prems progress obtain s1 where "step s s1" by blast
    with less inv_step work_step show ?thesis by (meson converse_rtranclp_into_rtranclp)
  qed blast
qed

end

end
