(* ===== verification/Go_IO.thy ===== *)
theory Go_IO
  imports Rhino_Prelude
begin

text \<open>
  The part of Go's \<open>io\<close> package the program uses. A reader is the list of segments its
  successive \<open>Read\<close> calls can deliver (a TCP stream, an HTTP body and a file differ only in how
  they cut the same bytes into segments) and the error it ends with; a writer is the bytes
  accepted so far and an optional capacity after which it fails. \<open>Read\<close> may return fewer bytes
  than asked for, which is what the properties of \<open>CopyDecrypt\<close> turn on.
\<close>

datatype ioerr = EOF | ErrUnexpectedEOF | ErrNoSpace | ErrIO string

record reader =
  rsegs :: "bytes list"
  rfail :: "ioerr option"  \<comment> \<open>\<open>None\<close>: the reader ends with \<open>io.EOF\<close>\<close>

record writer =
  wout :: bytes
  wcap :: "nat option"  \<comment> \<open>\<open>None\<close>: never fails (a \<open>bytes.Buffer\<close>, a hash)\<close>

definition mk_reader :: "bytes list \<Rightarrow> reader" where
  "mk_reader ss = \<lparr>rsegs = ss, rfail = None\<rparr>"

text \<open>\<open>bytes.NewReader\<close>: the whole slice is available to the first \<open>Read\<close>.\<close>
definition bytes_reader :: "bytes \<Rightarrow> reader" where
  "bytes_reader b = mk_reader (if b = [] then [] else [b])"

definition empty_buffer :: writer where
  "empty_buffer = \<lparr>wout = [], wcap = None\<rparr>"

definition content :: "reader \<Rightarrow> bytes" where
  "content r = concat (rsegs r)"

definition end_err :: "reader \<Rightarrow> ioerr" where
  "end_err r = (case rfail r of None \<Rightarrow> EOF | Some e \<Rightarrow> e)"

text \<open>\<open>r.Read(buf)\<close> for a buffer of \<open>n\<close> bytes: the bytes read, the error, the reader after.\<close>
definition rd_read :: "nat \<Rightarrow> reader \<Rightarrow> (bytes \<times> ioerr option) \<times> reader" where
  "rd_read n r = (case rsegs r of
     [] \<Rightarrow> (([], Some (end_err r)), r)
   | s # ss \<Rightarrow> ((take n s, None), r\<lparr>rsegs := (if length s \<le> n then ss else drop n s # ss)\<rparr>))"

text \<open>\<open>io.ReadFull\<close>: loops over \<open>Read\<close> until \<open>n\<close> bytes have arrived.\<close>
fun read_full :: "nat \<Rightarrow> bytes list \<Rightarrow> bytes \<times> bytes list" where
  "read_full n [] = ([], [])"
| "read_full n (s # ss) =
     (if n = 0 then ([], s # ss)
      else if length s \<le> n then (let (b, rest) = read_full (n - length s) ss in (s @ b, rest))
      else (take n s, drop n s # ss))"

definition io_ReadFull :: "nat \<Rightarrow> reader \<Rightarrow> (ioerr, bytes) result \<times> reader" where
  "io_ReadFull n r = (let (b, rest) = read_full n (rsegs r); r' = r\<lparr>rsegs := rest\<rparr> in
     if length b = n then (Inr b, r')
     else if b \<noteq> [] \<and> end_err r = EOF then (Inl ErrUnexpectedEOF, r')
     else (Inl (end_err r), r'))"

text \<open>\<open>w.Write(b)\<close>: a full writer keeps what fits and reports an error.\<close>
definition wr_write :: "bytes \<Rightarrow> writer \<Rightarrow> ioerr option \<times> writer" where
  "wr_write b w = (case wcap w of
     None \<Rightarrow> (None, w\<lparr>wout := wout w @ b\<rparr>)
   | Some c \<Rightarrow> if length (wout w) + length b \<le> c then (None, w\<lparr>wout := wout w @ b\<rparr>)
       else (Some ErrNoSpace, w\<lparr>wout := wout w @ take (c - length (wout w)) b\<rparr>))"

text \<open>How much is left to read: the measure of every loop over a reader.\<close>
definition rd_size :: "reader \<Rightarrow> nat" where
  "rd_size r = length (content r) + length (rsegs r)"

subsection \<open>Closed forms\<close>

lemma content_simps [simp, io_simps]:
  "content (mk_reader ss) = concat ss"
  "content (bytes_reader b) = b"
  "rfail (mk_reader ss) = None"
  "rfail (bytes_reader b) = None"
  "rsegs (mk_reader ss) = ss"
  by (simp_all add: content_def mk_reader_def bytes_reader_def)

lemma empty_buffer_simps [simp, io_simps]: "wout empty_buffer = []" "wcap empty_buffer = None"
  by (simp_all add: empty_buffer_def)

lemma read_full_content: "fst (read_full n ss) = take n (concat ss)"
  by (induction n ss rule: read_full.induct) (auto simp: case_prod_beta Let_def)

lemma read_full_rest: "concat (snd (read_full n ss)) = drop n (concat ss)"
  by (induction n ss rule: read_full.induct) (auto simp: case_prod_beta Let_def)

lemma io_ReadFull_enough [io_simps]:
  assumes "n \<le> length (content r)"
  shows "fst (io_ReadFull n r) = Inr (take n (content r))"
    and "content (snd (io_ReadFull n r)) = drop n (content r)"
    and "rfail (snd (io_ReadFull n r)) = rfail r"
  using assms read_full_content [of n "rsegs r"] read_full_rest [of n "rsegs r"]
  by (auto simp: io_ReadFull_def case_prod_beta Let_def content_def)

lemma io_ReadFull_short:
  assumes "length (content r) < n"
  shows "\<exists>e. fst (io_ReadFull n r) = Inl e"
  using assms read_full_content [of n "rsegs r"]
  by (auto simp: io_ReadFull_def case_prod_beta Let_def content_def)

lemma rd_read_measure:
  "rd_read n r = ((b, None), r') \<Longrightarrow> 0 < n \<Longrightarrow> rd_size r' < rd_size r"
  by (auto simp: rd_read_def rd_size_def content_def split: list.splits if_splits)

lemma rd_read_content: "rd_read n r = ((b, e), r') \<Longrightarrow> content r = b @ content r'"
  by (auto simp: rd_read_def content_def split: list.splits if_splits)

lemma rd_read_rfail: "rd_read n r = ((b, e), r') \<Longrightarrow> rfail r' = rfail r"
  by (auto simp: rd_read_def split: list.splits if_splits)

lemma rd_read_error:
  "rd_read n r = ((b, Some e), r') \<Longrightarrow> b = [] \<and> e = end_err r \<and> r' = r \<and> content r = []"
  by (auto simp: rd_read_def content_def split: list.splits if_splits)

lemma rd_read_length: "rd_read n r = ((b, e), r') \<Longrightarrow> length b \<le> n"
  by (auto simp: rd_read_def split: list.splits if_splits)

lemma wr_write_buffer [simp, io_simps]:
  "wcap w = None \<Longrightarrow> wr_write b w = (None, w\<lparr>wout := wout w @ b\<rparr>)"
  by (simp add: wr_write_def)

lemma wr_write_wcap [simp]: "wcap (snd (wr_write b w)) = wcap w"
  by (simp add: wr_write_def split: option.splits)

lemma wr_write_ok: "fst (wr_write b w) = None \<Longrightarrow> wout (snd (wr_write b w)) = wout w @ b"
  by (auto simp: wr_write_def split: option.splits if_splits)

lemma wr_write_bound:
  "wcap w = Some c \<Longrightarrow> length (wout w) \<le> c \<Longrightarrow> length (wout (snd (wr_write b w))) \<le> c"
  by (auto simp: wr_write_def)

end
