(* ===== verification/Storage_Crypto.thy ===== *)
theory Storage_Crypto
  imports Go_IO
begin

text \<open>
  \<open>storage/crypto.go\<close> and \<open>storage/compress.go\<close>: identifiers and keys, AES-CTR stream
  encryption with a prepended IV, and DEFLATE. The counter mode of \<open>crypto/cipher\<close> is written
  out; the AES block function, the hash functions and DEFLATE are the fields of \<open>prims\<close>, and
  every theorem holds for whatever functions stand there. The interface the other components
  use (encrypt a buffer, decrypt a reader into a buffer) is the locale \<open>sealer\<close>, interpreted
  on \<open>CopyEncrypt\<close> and \<open>CopyDecrypt\<close> as \<open>aes_ctr\<close>.
\<close>

record prims =
  aes_encrypt :: "bytes \<Rightarrow> bytes \<Rightarrow> bytes"  \<comment> \<open>key, 16-byte block\<close>
  sha1_sum :: "bytes \<Rightarrow> bytes"
  sha256_sum :: "bytes \<Rightarrow> bytes"
  md5_sum :: "bytes \<Rightarrow> bytes"
  flate_deflate :: "bytes \<Rightarrow> bytes"
  flate_inflate :: "bytes \<Rightarrow> (ioerr, bytes) result"

datatype crypt_err = KeySizeError nat | CryptIO ioerr

definition string_bytes :: "string \<Rightarrow> bytes" where
  "string_bytes s = map (\<lambda>c. word_of_nat (of_char c)) s"

subsection \<open>Identifiers and keys\<close>

definition GenerateID :: "entropy \<Rightarrow> string" where
  "GenerateID rnd = hex_encode (map rnd [0..<32])"

definition HashKey :: "prims \<Rightarrow> string \<Rightarrow> string" where
  "HashKey P key = hex_encode (md5_sum P (string_bytes key))"

definition NewEncryptionKey :: "entropy \<Rightarrow> bytes" where
  "NewEncryptionKey rnd = map rnd [0..<32]"

subsection \<open>crypto/aes and crypto/cipher\<close>

definition aes_block_size :: nat where
  "aes_block_size = 16"

text \<open>\<open>aes.NewCipher\<close> accepts AES-128, AES-192 and AES-256 keys.\<close>
definition aes_key_ok :: "bytes \<Rightarrow> bool" where
  "aes_key_ok key \<longleftrightarrow> length key \<in> {16, 24, 32}"

definition be_val :: "bytes \<Rightarrow> nat" where
  "be_val bs = foldl (\<lambda>a b. a * 256 + unat b) 0 bs"

definition be_bytes :: "nat \<Rightarrow> nat \<Rightarrow> bytes" where
  "be_bytes n x = map (\<lambda>i. word_of_nat (x div 256 ^ (n - 1 - i))) [0..<n]"

text \<open>\<open>cipher.NewCTR\<close>: block \<open>j\<close> of the key stream encrypts the IV plus \<open>j\<close>, big-endian modulo \<open>2 ^ 128\<close>.\<close>
definition ctr_stream :: "prims \<Rightarrow> bytes \<Rightarrow> bytes \<Rightarrow> nat \<Rightarrow> byte" where
  "ctr_stream P key iv j =
     aes_encrypt P key (be_bytes 16 ((be_val iv + j div 16) mod 2 ^ 128)) ! (j mod 16)"

text \<open>\<open>stream.XORKeyStream\<close> at position \<open>pos\<close> of the key stream.\<close>
fun xor_at :: "(nat \<Rightarrow> byte) \<Rightarrow> nat \<Rightarrow> bytes \<Rightarrow> bytes" where
  "xor_at ks pos [] = []"
| "xor_at ks pos (b # bs) = (b XOR ks pos) # xor_at ks (Suc pos) bs"

lemma length_xor_at [simp]: "length (xor_at ks pos bs) = length bs"
  by (induction ks pos bs rule: xor_at.induct) simp_all

lemma xor_at_append: "xor_at ks pos (as @ bs) = xor_at ks pos as @ xor_at ks (pos + length as) bs"
  by (induction ks pos as rule: xor_at.induct) simp_all

lemma xor_at_twice [simp]: "xor_at ks pos (xor_at ks pos bs) = bs"
  by (induction ks pos bs rule: xor_at.induct) (simp_all add: xor.assoc)

subsection \<open>Streaming encryption\<close>

text \<open>
  The loop of \<open>copyStream\<close>: read up to 32 KiB, encrypt in place, write, until \<open>io.EOF\<close>. The
  result is the count of bytes (starting at \<open>blockSize\<close>), with the reader and writer it leaves.
\<close>
function copy_loop ::
  "(nat \<Rightarrow> byte) \<Rightarrow> nat \<Rightarrow> nat \<Rightarrow> reader \<Rightarrow> writer \<Rightarrow> (crypt_err, nat) result \<times> reader \<times> writer"
where
  "copy_loop ks pos nw src dst =
     (case rd_read (32 * 1024) src of
        ((b, None), src') \<Rightarrow>
          (if b = [] then copy_loop ks pos nw src' dst
           else (case wr_write (xor_at ks pos b) dst of
              (Some e, dst') \<Rightarrow> (Inl (CryptIO e), src', dst')
            | (None, dst') \<Rightarrow> copy_loop ks (pos + length b) (nw + length b) src' dst'))
      | ((b, Some e), src') \<Rightarrow>
          (if e = EOF then (Inr nw, src', dst) else (Inl (CryptIO e), src', dst)))"
  by pat_completeness auto
termination
  by (relation "measure (\<lambda>(ks, pos, nw, src, dst). rd_size src)")
    (auto dest!: rd_read_measure [OF sym])

declare copy_loop.simps [simp del]

definition copyStream ::
  "(nat \<Rightarrow> byte) \<Rightarrow> nat \<Rightarrow> reader \<Rightarrow> writer \<Rightarrow> (crypt_err, nat) result \<times> reader \<times> writer"
where
  "copyStream ks blockSize src dst = copy_loop ks 0 blockSize src dst"

text \<open>
  \<open>CopyDecrypt\<close> fetches the IV with one \<open>Read\<close> into a zeroed 16-byte buffer: a short read leaves
  the tail of the IV zero.
\<close>
definition CopyDecrypt ::
  "prims \<Rightarrow> bytes \<Rightarrow> reader \<Rightarrow> writer \<Rightarrow> (crypt_err, nat) result \<times> reader \<times> writer"
where
  "CopyDecrypt P key src dst =
     (if \<not> aes_key_ok key then (Inl (KeySizeError (length key)), src, dst)
      else (case rd_read aes_block_size src of
          ((b, Some e), src') \<Rightarrow> (Inl (CryptIO e), src', dst)
        | ((b, None), src') \<Rightarrow>
            copyStream (ctr_stream P key (b @ replicate (aes_block_size - length b) 0))
              aes_block_size src' dst))"

definition CopyEncrypt ::
  "prims \<Rightarrow> entropy \<Rightarrow> bytes \<Rightarrow> reader \<Rightarrow> writer \<Rightarrow> (crypt_err, nat) result \<times> reader \<times> writer"
where
  "CopyEncrypt P rnd key src dst =
     (if \<not> aes_key_ok key then (Inl (KeySizeError (length key)), src, dst)
      else let iv = map rnd [0..<aes_block_size] in
        (case wr_write iv dst of
           (Some e, dst') \<Rightarrow> (Inl (CryptIO e), src, dst')
         | (None, dst') \<Rightarrow> copyStream (ctr_stream P key iv) aes_block_size src dst'))"

text \<open>
  The two calls every other component makes: encrypt a slice into a \<open>bytes.Buffer\<close>, decrypt a
  reader into one.
\<close>
definition encrypt_buffer :: "prims \<Rightarrow> bytes \<Rightarrow> entropy \<Rightarrow> bytes \<Rightarrow> (crypt_err, bytes) result" where
  "encrypt_buffer P key rnd p =
     (case CopyEncrypt P rnd key (bytes_reader p) empty_buffer of
        (Inl e, _, _) \<Rightarrow> Inl e | (Inr n, _, w) \<Rightarrow> Inr (wout w))"

definition decrypt_buffer :: "prims \<Rightarrow> bytes \<Rightarrow> reader \<Rightarrow> (crypt_err, bytes) result" where
  "decrypt_buffer P key r =
     (case CopyDecrypt P key r empty_buffer of
        (Inl e, _, _) \<Rightarrow> Inl e | (Inr n, _, w) \<Rightarrow> Inr (wout w))"

subsection \<open>Compression\<close>

datatype compression = CompressionNone | CompressionFlate

text \<open>Writing to and closing a \<open>flate.Writer\<close> over a \<open>bytes.Buffer\<close> cannot fail.\<close>
definition CompressBytes :: "prims \<Rightarrow> bytes \<Rightarrow> (ioerr, bytes) result" where
  "CompressBytes P d = Inr (flate_deflate P d)"

definition DecompressBytes :: "prims \<Rightarrow> bytes \<Rightarrow> (ioerr, bytes) result" where
  "DecompressBytes P d = flate_inflate P d"

text \<open>What the program relies on of DEFLATE: decompression reverses compression.\<close>
definition flate_ok :: "prims \<Rightarrow> bool" where
  "flate_ok P \<longleftrightarrow> (\<forall>d. flate_inflate P (flate_deflate P d) = Inr d)"


subsection \<open>What the loop computes\<close>

text \<open>
  However the source is cut into segments, the loop over an unbounded writer emits the bitwise
  sum of the whole content with the key stream, and ends with the reader's own error.
\<close>

lemma copy_loop_buffer:
  assumes "wcap dst = None"
  shows "copy_loop ks pos nw src dst =
    ((if end_err src = EOF then Inr (nw + length (content src)) else Inl (CryptIO (end_err src))),
     src\<lparr>rsegs := []\<rparr>, dst\<lparr>wout := wout dst @ xor_at ks pos (content src)\<rparr>)"
  using assms
proof (induction ks pos nw src dst rule: copy_loop.induct)
  case (1 ks pos nw src dst)
  obtain b e src' where rd: "rd_read (32 * 1024) src = ((b, e), src')"
    by (metis surj_pair)
  have ct: "content src = b @ content src'" and en: "end_err src' = end_err src"
    using rd_read_content [OF rd] rd_read_rfail [OF rd] by (simp_all add: end_err_def)
  show ?case
  proof (cases e)
    case None
    have rest: "src'\<lparr>rsegs := []\<rparr> = src\<lparr>rsegs := []\<rparr>"
      using rd_read_rfail [OF rd] by (cases src; cases src') simp
    show ?thesis
    proof (cases "b = []")
      case True
      with None rd ct en rest "1.IH"(1) [of "(b, e)" src' b e] "1.prems" show ?thesis
        by (subst copy_loop.simps) simp
    next
      case False
      with None rd ct en rest "1.IH"(2) [of "(b, e)" src' b e None "dst\<lparr>wout := wout dst @ xor_at ks pos b\<rparr>"]
        "1.prems" show ?thesis
        by (subst copy_loop.simps) (simp add: xor_at_append)
    qed
  next
    case (Some x)
    with rd have "b = []" "x = end_err src" "src' = src" "content src = []"
      using rd_read_error by blast+
    moreover from this(4) rd Some have "rsegs src = []"
      by (auto simp: rd_read_def split: list.splits)
    ultimately show ?thesis using rd Some
      by (subst copy_loop.simps) (simp add: rd_read_def)
  qed
qed

text \<open>
  With any writer, a success means that everything was written: a full disk is always reported.
\<close>
lemma copy_loop_success:
  assumes "copy_loop ks pos nw src dst = (Inr n, src', dst')"
  shows "n = nw + length (content src) \<and> wout dst' = wout dst @ xor_at ks pos (content src)
    \<and> end_err src = EOF"
  using assms
proof (induction ks pos nw src dst rule: copy_loop.induct)
  case (1 ks pos nw src dst)
  obtain b e s where rd: "rd_read (32 * 1024) src = ((b, e), s)" by (metis surj_pair)
  have ct: "content src = b @ content s" and en: "end_err s = end_err src"
    using rd_read_content [OF rd] rd_read_rfail [OF rd] by (simp_all add: end_err_def)
  show ?case
  proof (cases e)
    case None
    show ?thesis
    proof (cases "b = []")
      case True
      with "1.prems" rd None have "copy_loop ks pos nw s dst = (Inr n, src', dst')"
        by (subst (asm) copy_loop.simps) simp
      with True rd None ct en "1.IH"(1) [of "(b, e)" s b e] show ?thesis by simp
    next
      case False
      obtain we d where w: "wr_write (xor_at ks pos b) dst = (we, d)" by (metis surj_pair)
      with "1.prems" rd None False have we: "we = None"
        and "copy_loop ks (pos + length b) (nw + length b) s d = (Inr n, src', dst')"
        by (subst (asm) copy_loop.simps, simp split: option.splits)+
      moreover have "wout d = wout dst @ xor_at ks pos b" using wr_write_ok [of "xor_at ks pos b" dst] w we by simp
      ultimately show ?thesis
        using False rd None ct en w "1.IH"(2) [of "(b, e)" s b e we d] by (simp add: xor_at_append)
    qed
  next
    case (Some x)
    with rd have "b = []" "x = end_err src" "content src = []" using rd_read_error by blast+
    with rd Some "1.prems" show ?thesis
      by (subst (asm) copy_loop.simps) (simp split: if_splits)
  qed
qed

lemma CopyEncrypt_buffer [io_simps]:
  assumes "aes_key_ok key" "wcap dst = None" "end_err src = EOF"
  shows "CopyEncrypt P rnd key src dst =
    (Inr (16 + length (content src)), src\<lparr>rsegs := []\<rparr>,
     dst\<lparr>wout := wout dst @ map rnd [0..<16] @
       xor_at (ctr_stream P key (map rnd [0..<16])) 0 (content src)\<rparr>)"
  using assms by (simp add: CopyEncrypt_def copyStream_def Let_def aes_block_size_def copy_loop_buffer)

lemma end_err_bytes_reader [simp]: "end_err (bytes_reader b) = EOF" "end_err (mk_reader ss) = EOF"
  by (simp_all add: end_err_def)

lemma encrypt_buffer_eq [io_simps]:
  "encrypt_buffer P key rnd p =
    (if aes_key_ok key
     then Inr (map rnd [0..<16] @ xor_at (ctr_stream P key (map rnd [0..<16])) 0 p)
     else Inl (KeySizeError (length key)))"
  by (simp add: encrypt_buffer_def CopyEncrypt_buffer) (simp add: CopyEncrypt_def)

lemma decrypt_buffer_eq:
  assumes "aes_key_ok key" "rsegs r = s # ss" "16 \<le> length s" "end_err r = EOF"
  shows "decrypt_buffer P key r =
    Inr (xor_at (ctr_stream P key (take 16 (content r))) 0 (drop 16 (content r)))"
proof -
  have "content (r\<lparr>rsegs := (if length s \<le> 16 then ss else drop 16 s # ss)\<rparr>) = drop 16 (content r)"
    using assms(2,3) by (auto simp: content_def)
  moreover have "take 16 (content r) = take 16 s" using assms(2,3) by (simp add: content_def)
  moreover have "end_err (r\<lparr>rsegs := x\<rparr>) = end_err r" for x by (simp add: end_err_def)
  ultimately show ?thesis
    using assms by (simp add: decrypt_buffer_def CopyDecrypt_def rd_read_def aes_block_size_def
        copyStream_def copy_loop_buffer)
qed

subsection \<open>The encryption interface\<close>

text \<open>
  What the pool, the manifest and the file server rely on: a good key always encrypts, the
  ciphertext is longer by a fixed overhead, and decrypting a reader that carries it gives the
  plaintext back, provided the first \<open>Read\<close> delivers at least the overhead.
\<close>
locale sealer =
  fixes enc :: "bytes \<Rightarrow> entropy \<Rightarrow> bytes \<Rightarrow> ('e, bytes) result"
    and dec :: "bytes \<Rightarrow> reader \<Rightarrow> ('e, bytes) result"
    and good_key :: "bytes \<Rightarrow> bool"
    and overhead :: nat
  assumes enc_total: "good_key k \<Longrightarrow> \<exists>c. enc k rnd p = Inr c"
    and enc_good: "enc k rnd p = Inr c \<Longrightarrow> good_key k"
    and enc_length: "enc k rnd p = Inr c \<Longrightarrow> length c = overhead + length p"
    and dec_enc: "enc k rnd p = Inr c \<Longrightarrow> content r = c \<Longrightarrow> end_err r = EOF \<Longrightarrow>
      rsegs r = s # ss \<Longrightarrow> overhead \<le> length s \<Longrightarrow> dec k r = Inr p"
    and overhead_pos: "0 < overhead"
begin

lemma dec_enc_bytes:
  assumes "enc k rnd p = Inr c"
  shows "dec k (bytes_reader c) = Inr p"
proof -
  have "overhead \<le> length c" "c \<noteq> []" using enc_length [OF assms] overhead_pos by auto
  then show ?thesis
    using dec_enc [OF assms, of "bytes_reader c" c "[]"] by (simp add: bytes_reader_def)
qed

lemma enc_inj:
  assumes "enc k rnd p = Inr c" "enc k rnd' p' = Inr c"
  shows "p = p'"
  using dec_enc_bytes [OF assms(1)] dec_enc_bytes [OF assms(2)] by simp

lemma roundtrip:
  assumes "good_key k"
  shows "\<exists>c. enc k rnd p = Inr c \<and> length c = overhead + length p \<and> dec k (bytes_reader c) = Inr p"
  using enc_total [OF assms] enc_length dec_enc_bytes by blast

end

interpretation aes_ctr: sealer "encrypt_buffer P" "decrypt_buffer P" aes_key_ok 16 for P
proof
  fix k rnd p c r s ss
  assume "encrypt_buffer P k rnd p = Inr c" "content r = c" "end_err r = EOF"
    "rsegs r = s # ss" "16 \<le> length s"
  then have "aes_key_ok k"
    and "content r = map rnd [0..<16] @ xor_at (ctr_stream P k (map rnd [0..<16])) 0 p"
    by (auto simp: encrypt_buffer_eq split: if_splits)
  with \<open>rsegs r = s # ss\<close> \<open>16 \<le> length s\<close> \<open>end_err r = EOF\<close>
  show "decrypt_buffer P k r = Inr p" by (simp add: decrypt_buffer_eq)
qed (auto simp: encrypt_buffer_eq split: if_splits)

lemma aes_key_ok_new [simp]: "aes_key_ok (NewEncryptionKey rnd)"
  by (simp add: aes_key_ok_def NewEncryptionKey_def)

lemma length_GenerateID [simp]: "length (GenerateID rnd) = 64"
  by (simp add: GenerateID_def)

lemma GenerateID_nonempty [simp]: "GenerateID rnd \<noteq> []"
  using length_GenerateID [of rnd] by (metis length_0_conv zero_neq_numeral)


subsection \<open>Properties\<close>

text \<open>
  C12. Encrypting any source into a buffer and decrypting a reader that carries the ciphertext
  gives the source's bytes back, however either side is cut into segments, as long as the first
  \<open>Read\<close> of the decrypting side delivers the whole IV. Both calls count the 16 bytes of the IV.
\<close>
theorem copy_roundtrip:
  assumes "aes_key_ok key" "end_err src = EOF"
    and "CopyEncrypt P rnd key src empty_buffer = (res, src', w)"
    and "content r = wout w" "end_err r = EOF" "rsegs r = s # ss" "16 \<le> length s"
  shows "res = Inr (16 + length (content src)) \<and> length (wout w) = 16 + length (content src)
    \<and> (\<exists>r'. CopyDecrypt P key r empty_buffer =
          (res, r', \<lparr>wout = content src, wcap = None\<rparr>))"
proof -
  have w: "wout w = map rnd [0..<16] @ xor_at (ctr_stream P key (map rnd [0..<16])) 0 (content src)"
    and res: "res = Inr (16 + length (content src))"
    using assms(1-3) by (auto simp: CopyEncrypt_buffer)
  let ?r = "r\<lparr>rsegs := (if length s \<le> 16 then ss else drop 16 s # ss)\<rparr>"
  have "take 16 s = map rnd [0..<16]"
    using arg_cong [OF assms(4), of "take 16"] assms(6,7) w by (simp add: content_def)
  moreover have "content ?r = xor_at (ctr_stream P key (map rnd [0..<16])) 0 (content src)"
    using arg_cong [OF assms(4), of "drop 16"] assms(6,7) w by (auto simp: content_def)
  moreover have "end_err ?r = EOF" using assms(5) by (simp add: end_err_def)
  ultimately show ?thesis
    using assms(1,6,7) w res
    by (simp add: CopyDecrypt_def rd_read_def aes_block_size_def copyStream_def copy_loop_buffer
        empty_buffer_def)
qed

text \<open>
  C36. When the first \<open>Read\<close> of \<open>CopyDecrypt\<close> delivers only part of the IV, decryption reports
  success with the wrong bytes: the rest of the IV is decrypted as data, so the output is longer
  than the plaintext by exactly the missing bytes.
\<close>
theorem decrypt_short_iv_read:
  assumes "encrypt_buffer P key rnd p = Inr c"
    and "content r = c" "end_err r = EOF" "rsegs r = s # ss" "length s < 16"
  shows "\<exists>q. decrypt_buffer P key r = Inr q \<and> length q = length p + (16 - length s) \<and> q \<noteq> p"
proof -
  have key: "aes_key_ok key" and len: "length c = 16 + length p"
    using aes_ctr.enc_good [OF assms(1)] aes_ctr.enc_length [OF assms(1)] by auto
  let ?r = "r\<lparr>rsegs := ss\<rparr>"
  have "length (content ?r) = length p + (16 - length s)"
    using assms(2,4,5) len by (auto simp: content_def)
  moreover have "end_err ?r = EOF" using assms(3) by (simp add: end_err_def)
  moreover from this have "decrypt_buffer P key r =
      Inr (xor_at (ctr_stream P key (s @ replicate (16 - length s) 0)) 0 (content ?r))"
    using key assms(4,5)
    by (simp add: decrypt_buffer_def CopyDecrypt_def rd_read_def aes_block_size_def
        copyStream_def copy_loop_buffer)
  ultimately obtain q where "decrypt_buffer P key r = Inr q" "length q = length p + (16 - length s)"
    by simp
  moreover from this(2) assms(5) have "q \<noteq> p" by auto
  ultimately show ?thesis by blast
qed

text \<open>
  With any destination, including one that runs out of space, \<open>CopyEncrypt\<close> reports success
  only if the IV and the encryption of the whole source were written, and the count it returns
  is the number of bytes written.
\<close>
theorem CopyEncrypt_success:
  assumes "CopyEncrypt P rnd key src dst = (Inr n, src', dst')"
  shows "wout dst' = wout dst @ map rnd [0..<16] @
           xor_at (ctr_stream P key (map rnd [0..<16])) 0 (content src)
    \<and> n = 16 + length (content src) \<and> end_err src = EOF \<and> aes_key_ok key"
proof -
  have key: "aes_key_ok key" using assms by (simp add: CopyEncrypt_def split: if_splits)
  obtain we d where w: "wr_write (map rnd [0..<16]) dst = (we, d)" by (metis surj_pair)
  with assms key have we: "we = None"
    and "copy_loop (ctr_stream P key (map rnd [0..<16])) 0 16 src d = (Inr n, src', dst')"
    by (auto simp: CopyEncrypt_def aes_block_size_def copyStream_def Let_def split: option.splits)
  from copy_loop_success [OF this(2)] wr_write_ok [of "map rnd [0..<16]" dst] w we key
  show ?thesis by simp
qed

subsection \<open>Witnesses\<close>

text \<open>
  Concrete stand-ins for the library functions, used to evaluate the definitions: the block
  function copies the block, the hashes keep a prefix and \<open>deflate\<close> strips one leading zero.
\<close>
definition toy_prims :: prims where
  "toy_prims = \<lparr>aes_encrypt = (\<lambda>k b. b), sha1_sum = (\<lambda>b. take 20 (b @ replicate 20 0)),
     sha256_sum = (\<lambda>b. take 32 (b @ replicate 32 0)), md5_sum = (\<lambda>b. take 16 (b @ replicate 16 0)),
     flate_deflate = (\<lambda>d. if take 2 d = [0, 0] then 0 # drop 2 d else 1 # d),
     flate_inflate = (\<lambda>d. case d of [] \<Rightarrow> Inl ErrUnexpectedEOF
        | x # ds \<Rightarrow> if x = 0 then Inr (0 # 0 # ds) else Inr ds)\<rparr>"

lemma flate_ok_toy: "flate_ok toy_prims"
proof -
  have "0 # 0 # drop 2 d = d" if "take 2 d = [0, 0]" for d :: bytes
    using that append_take_drop_id [of 2 d] by simp
  then show ?thesis by (auto simp: flate_ok_def toy_prims_def)
qed

definition toy_rnd :: entropy where
  "toy_rnd i = word_of_nat (Suc i)"

theorem copy_roundtrip_witness:
  "\<exists>res src' w. CopyEncrypt toy_prims toy_rnd (replicate 16 7) (mk_reader [[1, 2], [3]]) empty_buffer
      = (res, src', w) \<and> res = Inr 19 \<and> length (wout w) = 19
    \<and> (\<exists>r'. CopyDecrypt toy_prims (replicate 16 7) (mk_reader [wout w]) empty_buffer =
          (res, r', \<lparr>wout = [1, 2, 3], wcap = None\<rparr>))"
proof -
  let ?k = "replicate 16 7 :: bytes" and ?s = "mk_reader [[1, 2], [3]]"
  obtain res src' w where e: "CopyEncrypt toy_prims toy_rnd ?k ?s empty_buffer = (res, src', w)"
    by (metis surj_pair)
  have k: "aes_key_ok ?k" by (simp add: aes_key_ok_def)
  have len: "16 \<le> length (wout w)" using e k by (auto simp: CopyEncrypt_buffer)
  have "res = Inr (16 + length (content ?s)) \<and> length (wout w) = 16 + length (content ?s) \<and>
    (\<exists>r'. CopyDecrypt toy_prims ?k (mk_reader [wout w]) empty_buffer =
          (res, r', \<lparr>wout = content ?s, wcap = None\<rparr>))"
    by (rule copy_roundtrip [OF k _ e, of _ "wout w" "[]"]) (use len in simp_all)
  with e show ?thesis by auto
qed

theorem decrypt_short_iv_read_witness:
  "\<exists>c q. encrypt_buffer toy_prims (replicate 16 7) toy_rnd [1, 2, 3] = Inr c
    \<and> decrypt_buffer toy_prims (replicate 16 7) (mk_reader [take 10 c, drop 10 c]) = Inr q
    \<and> length q = 9 \<and> q \<noteq> [1, 2, 3]"
proof -
  have k: "aes_key_ok (replicate 16 7)" by (simp add: aes_key_ok_def)
  obtain c where c: "encrypt_buffer toy_prims (replicate 16 7) toy_rnd [1, 2, 3] = Inr c"
    using aes_ctr.enc_total [OF k] by blast
  have "length (take 10 c) = 10" using aes_ctr.enc_length [OF c] by simp
  with decrypt_short_iv_read [OF c, of "mk_reader [take 10 c, drop 10 c]" "take 10 c" "[drop 10 c]"]
  show ?thesis using c by auto
qed

theorem CopyEncrypt_success_witness:
  "\<exists>src' dst'. CopyEncrypt toy_prims toy_rnd (replicate 16 7) (mk_reader [[1]])
        \<lparr>wout = [9], wcap = Some 18\<rparr> = (Inr 17, src', dst')
     \<and> wout dst' = [9] @ map toy_rnd [0..<16] @
         xor_at (ctr_stream toy_prims (replicate 16 7) (map toy_rnd [0..<16])) 0 [1]"
proof -
  let ?w = "\<lparr>wout = [9], wcap = Some 18\<rparr> :: writer"
  obtain n src' dst' where
    e: "CopyEncrypt toy_prims toy_rnd (replicate 16 7) (mk_reader [[1]]) ?w = (Inr n, src', dst')"
    by (simp add: CopyEncrypt_def aes_key_ok_def copyStream_def wr_write_def aes_block_size_def
        copy_loop.simps rd_read_def mk_reader_def end_err_def Let_def)
  with CopyEncrypt_success [OF e] show ?thesis by (auto simp: content_def mk_reader_def)
qed

end
