(* ===== verification/Storage_Store.thy ===== *)
theory Storage_Store
  imports Storage_Crypto
begin

text \<open>
  \<open>storage/store.go\<close>: the on-disk store of the peer-to-peer nodes. The file system is a map from
  cleaned paths (lists of components, below the working directory) to files and directories, with
  the errors \<open>os\<close> reports for missing components, files used as directories and directories used
  as files. Paths are built as strings exactly as the source does and resolved by \<open>path_of\<close>.
\<close>

datatype oserr = ENOENT | ENOTDIR | EISDIR | EINVAL | OSIO ioerr | OSCrypt crypt_err

datatype node = File bytes | Dir

type_synonym path = "string list"
type_synonym nodes = "path \<rightharpoonup> node"

record fs =
  fs_nodes :: nodes
  fs_dirsize :: int  \<comment> \<open>what \<open>FileInfo.Size\<close> reports for a directory (system-dependent)\<close>
  fs_cap :: "nat option"  \<comment> \<open>the size at which a file hits the end of the disk\<close>

subsection \<open>os\<close>

definition push_comp :: "path \<Rightarrow> string \<Rightarrow> path" where
  "push_comp st c =
     (if c = [] \<or> c = ''.'' then st
      else if c = ''..'' then
        (if st = [] \<or> last st = ''..'' then st @ [c]
         else if last st = ''/'' then st else butlast st)
      else st @ [c])"

text \<open>An absolute path starts with the component \<open>/\<close>; every other path is below the working directory.\<close>
definition path_of :: "string \<Rightarrow> path" where
  "path_of s = foldl push_comp (if take 1 s = ''/'' then [''/''] else []) (split_on (CHR ''/'') s)"

fun walk :: "nodes \<Rightarrow> path \<Rightarrow> path \<Rightarrow> (oserr, node) result" where
  "walk m pre [] = (case m pre of None \<Rightarrow> Inl ENOENT | Some n \<Rightarrow> Inr n)"
| "walk m pre (c # cs) = (case m pre of
     None \<Rightarrow> Inl ENOENT
   | Some (File b) \<Rightarrow> Inl ENOTDIR
   | Some Dir \<Rightarrow> walk m (pre @ [c]) cs)"

definition os_Stat :: "nodes \<Rightarrow> string \<Rightarrow> (oserr, node) result" where
  "os_Stat m s = walk m [] (path_of s)"

fun mkdir_all :: "nodes \<Rightarrow> path \<Rightarrow> path \<Rightarrow> oserr option \<times> nodes" where
  "mkdir_all m pre [] = (None, m)"
| "mkdir_all m pre (c # cs) = (case m (pre @ [c]) of
     Some (File b) \<Rightarrow> (Some ENOTDIR, m)
   | Some Dir \<Rightarrow> mkdir_all m (pre @ [c]) cs
   | None \<Rightarrow> mkdir_all (m(pre @ [c] \<mapsto> Dir)) (pre @ [c]) cs)"

definition os_MkdirAll :: "nodes \<Rightarrow> string \<Rightarrow> oserr option \<times> nodes" where
  "os_MkdirAll m s = mkdir_all m [] (path_of s)"

definition os_Create :: "nodes \<Rightarrow> string \<Rightarrow> (oserr, nodes) result" where
  "os_Create m s = (let p = path_of s in
     case walk m [] (butlast p) of
       Inl e \<Rightarrow> Inl e
     | Inr (File b) \<Rightarrow> Inl ENOTDIR
     | Inr Dir \<Rightarrow> if m p = Some Dir then Inl EISDIR else Inr (m(p \<mapsto> File [])))"

definition os_RemoveAll :: "nodes \<Rightarrow> string \<Rightarrow> oserr option \<times> nodes" where
  "os_RemoveAll m s = (let p = path_of s in
     if s = [] then (None, m)
     else if last (split_on (CHR ''/'') s) = ''.'' then (Some EINVAL, m)
     else (case walk m [] (butlast p) of
         Inl ENOENT \<Rightarrow> (None, m)
       | Inl e \<Rightarrow> (Some e, m)
       | Inr (File b) \<Rightarrow> (Some ENOTDIR, m)
       | Inr Dir \<Rightarrow> (None, (\<lambda>q. if prefix p q then None else m q))))"

text \<open>\<open>io.Copy\<close> into a fresh file: the result and the bytes the file ends up with.\<close>
definition io_Copy :: "nat option \<Rightarrow> reader \<Rightarrow> (ioerr, int) result \<times> bytes" where
  "io_Copy cap r = (let c = content r; kept = (case cap of None \<Rightarrow> c | Some k \<Rightarrow> take k c) in
     if length kept < length c then (Inl ErrNoSpace, kept)
     else if end_err r = EOF then (Inr (int (length c)), c)
     else (Inl (end_err r), c))"

subsection \<open>Path transforms\<close>

record path_key =
  PathName :: string
  Filename :: string

definition CASPathTransformFunc :: "prims \<Rightarrow> string \<Rightarrow> path_key" where
  "CASPathTransformFunc P key = (let
     hashStr = hex_encode (sha1_sum P (string_bytes key));
     blocksize = 5;
     sliceLen = length hashStr div blocksize;
     paths = map (\<lambda>i. take blocksize (drop (i * blocksize) hashStr)) [0..<sliceLen]
   in \<lparr>PathName = join_with ''/'' paths, Filename = hashStr\<rparr>)"

definition DefaultPathTransformFunc :: "string \<Rightarrow> path_key" where
  "DefaultPathTransformFunc key = \<lparr>PathName = key, Filename = key\<rparr>"

definition FirstPathName :: "path_key \<Rightarrow> string" where
  "FirstPathName p = (case split_on (CHR ''/'') (PathName p) of [] \<Rightarrow> [] | x # _ \<Rightarrow> x)"

definition FullPath :: "path_key \<Rightarrow> string" where
  "FullPath p = PathName p @ ''/'' @ Filename p"

subsection \<open>Store\<close>

record store =
  Root :: string
  PathTransform :: "string \<Rightarrow> path_key"

definition defaultRootFolderName :: string where
  "defaultRootFolderName = ''ggnetwork''"

definition NewStore :: "string \<Rightarrow> (string \<Rightarrow> path_key) option \<Rightarrow> store" where
  "NewStore root ptf =
     \<lparr>Root = (if length root = 0 then defaultRootFolderName else root),
      PathTransform = (case ptf of None \<Rightarrow> DefaultPathTransformFunc | Some f \<Rightarrow> f)\<rparr>"

definition full_path :: "store \<Rightarrow> string \<Rightarrow> string \<Rightarrow> string" where
  "full_path S sid key = Root S @ ''/'' @ sid @ ''/'' @ FullPath (PathTransform S key)"

definition store_Has :: "store \<Rightarrow> string \<Rightarrow> string \<Rightarrow> fs \<Rightarrow> bool" where
  "store_Has S sid key F = (os_Stat (fs_nodes F) (full_path S sid key) \<noteq> Inl ENOENT)"

definition store_Clear :: "store \<Rightarrow> fs \<Rightarrow> oserr option \<times> fs" where
  "store_Clear S F = (let (e, m) = os_RemoveAll (fs_nodes F) (Root S) in (e, F\<lparr>fs_nodes := m\<rparr>))"

definition store_Delete :: "store \<Rightarrow> string \<Rightarrow> string \<Rightarrow> fs \<Rightarrow> oserr option \<times> fs" where
  "store_Delete S sid key F = (let
     first = Root S @ ''/'' @ sid @ ''/'' @ FirstPathName (PathTransform S key);
     (e, m) = os_RemoveAll (fs_nodes F) first
   in (e, F\<lparr>fs_nodes := m\<rparr>))"

definition openFileForWriting :: "store \<Rightarrow> string \<Rightarrow> string \<Rightarrow> nodes \<Rightarrow> (oserr, path) result \<times> nodes" where
  "openFileForWriting S sid key m =
     (case os_MkdirAll m (Root S @ ''/'' @ sid @ ''/'' @ PathName (PathTransform S key)) of
        (Some e, m1) \<Rightarrow> (Inl e, m1)
      | (None, m1) \<Rightarrow> (case os_Create m1 (full_path S sid key) of
            Inl e \<Rightarrow> (Inl e, m1)
          | Inr m2 \<Rightarrow> (Inr (path_of (full_path S sid key)), m2)))"

definition writeStream :: "store \<Rightarrow> string \<Rightarrow> string \<Rightarrow> reader \<Rightarrow> fs \<Rightarrow> (oserr, int) result \<times> fs" where
  "writeStream S sid key r F =
     (case openFileForWriting S sid key (fs_nodes F) of
        (Inl e, m) \<Rightarrow> (Inl e, F\<lparr>fs_nodes := m\<rparr>)
      | (Inr p, m) \<Rightarrow> (let (res, b) = io_Copy (fs_cap F) r in
          ((case res of Inl e \<Rightarrow> Inl (OSIO e) | Inr n \<Rightarrow> Inr n), F\<lparr>fs_nodes := m(p \<mapsto> File b)\<rparr>)))"

definition store_Write :: "store \<Rightarrow> string \<Rightarrow> string \<Rightarrow> reader \<Rightarrow> fs \<Rightarrow> (oserr, int) result \<times> fs" where
  "store_Write S sid key r F = writeStream S sid key r F"

definition store_WriteDecrypt ::
  "prims \<Rightarrow> bytes \<Rightarrow> store \<Rightarrow> string \<Rightarrow> string \<Rightarrow> reader \<Rightarrow> fs \<Rightarrow> ((oserr, int) result \<times> reader) \<times> fs"
where
  "store_WriteDecrypt P encKey S sid key r F =
     (case openFileForWriting S sid key (fs_nodes F) of
        (Inl e, m) \<Rightarrow> ((Inl e, r), F\<lparr>fs_nodes := m\<rparr>)
      | (Inr p, m) \<Rightarrow>
         (let (res, r', w) = CopyDecrypt P encKey r \<lparr>wout = [], wcap = fs_cap F\<rparr> in
          ((case res of Inl e \<Rightarrow> (Inl (OSCrypt e), r') | Inr n \<Rightarrow> (Inr (int n), r')),
           F\<lparr>fs_nodes := m(p \<mapsto> File (wout w))\<rparr>)))"

definition readStream :: "store \<Rightarrow> string \<Rightarrow> string \<Rightarrow> fs \<Rightarrow> (oserr, int \<times> reader) result" where
  "readStream S sid key F =
     (case os_Stat (fs_nodes F) (full_path S sid key) of
        Inl e \<Rightarrow> Inl e
      | Inr (File b) \<Rightarrow> Inr (int (length b), bytes_reader b)
      | Inr Dir \<Rightarrow> Inr (fs_dirsize F, \<lparr>rsegs = [], rfail = Some (ErrIO ''is a directory'')\<rparr>))"

definition store_Read :: "store \<Rightarrow> string \<Rightarrow> string \<Rightarrow> fs \<Rightarrow> (oserr, int \<times> reader) result" where
  "store_Read S sid key F = readStream S sid key F"

lemmas store_defs = store_Write_def writeStream_def store_Read_def readStream_def store_Has_def
  store_Delete_def store_Clear_def os_Stat_def


subsection \<open>Walking, creating and removing\<close>

lemma walk_Inr_iff:
  "walk m pre cs = Inr n \<longleftrightarrow>
    (\<forall>i < length cs. m (pre @ take i cs) = Some Dir) \<and> m (pre @ cs) = Some n"
proof (induction cs arbitrary: pre)
  case Nil
  then show ?case by (simp split: option.splits)
next
  case (Cons c cs)
  have "(\<forall>i < length (c # cs). m (pre @ take i (c # cs)) = Some Dir) \<longleftrightarrow>
      m pre = Some Dir \<and> (\<forall>i < length cs. m ((pre @ [c]) @ take i cs) = Some Dir)"
    by (auto simp: less_Suc_eq_0_disj)
  with Cons show ?case by (auto split: option.splits node.splits)
qed

lemma walk_ENOENT:
  "(\<forall>j < i. m (pre @ take j cs) = Some Dir) \<Longrightarrow> m (pre @ take i cs) = None \<Longrightarrow> i \<le> length cs \<Longrightarrow>
    walk m pre cs = Inl ENOENT"
proof (induction cs arbitrary: pre i)
  case (Cons c cs)
  show ?case
  proof (cases i)
    case 0
    with Cons.prems show ?thesis by simp
  next
    case (Suc k)
    have "m pre = Some Dir" using Cons.prems(1) Suc by force
    moreover have "\<forall>j < k. m ((pre @ [c]) @ take j cs) = Some Dir"
      using Cons.prems(1) Suc by force
    ultimately show ?thesis using Cons.IH [of k "pre @ [c]"] Cons.prems Suc by simp
  qed
qed simp

lemma walk_append_ENOENT: "walk m pre cs = Inl ENOENT \<Longrightarrow> walk m pre (cs @ ds) = Inl ENOENT"
  by (induction m pre cs rule: walk.induct)
    (cases ds, auto split: option.splits node.splits)

lemma walk_upd_last:
  assumes "p \<noteq> []" "walk m [] (butlast p) = Inr Dir"
  shows "walk (m(p \<mapsto> x)) [] p = Inr x"
proof -
  have "m (take i p) = Some Dir" if "i < length p" for i
  proof (cases "i < length p - 1")
    case True
    then have "take i (butlast p) = take i p" by (simp add: take_butlast)
    with True assms(2) show ?thesis by (auto simp: walk_Inr_iff)
  next
    case False
    with that have "i = length p - 1" by linarith
    then have "take i p = butlast p" by (simp add: butlast_conv_take)
    with assms(2) show ?thesis by (auto simp: walk_Inr_iff)
  qed
  moreover have "take i p \<noteq> p" if "i < length p" for i
    using that by (metis length_take min_less_iff_conj nat_neq_iff)
  ultimately show ?thesis by (auto simp: walk_Inr_iff)
qed

lemma mkdir_all_keeps: "mkdir_all m pre cs = (e, m') \<Longrightarrow> m q = Some n \<Longrightarrow> m' q = Some n"
proof (induction cs arbitrary: m pre)
  case (Cons c cs)
  show ?case
  proof (cases "m (pre @ [c])")
    case None
    with Cons.prems(2) have "(m(pre @ [c] \<mapsto> Dir)) q = Some n" by auto
    with Cons.IH Cons.prems(1) None show ?thesis by fastforce
  next
    case (Some x)
    with Cons.IH Cons.prems show ?thesis by (cases x) auto
  qed
qed simp

lemma nonempty_prefix_Cons: "prefix ds (c # cs) \<and> ds \<noteq> [] \<longleftrightarrow> (\<exists>es. ds = c # es \<and> prefix es cs)"
  by (cases ds) auto

lemma mkdir_all_new:
  "mkdir_all m pre cs = (e, m') \<Longrightarrow> m' q \<noteq> m q \<Longrightarrow>
    m q = None \<and> m' q = Some Dir \<and> (\<exists>ds. prefix ds cs \<and> ds \<noteq> [] \<and> q = pre @ ds)"
proof (induction cs arbitrary: m pre)
  case (Cons c cs)
  have lift: "\<exists>ds. prefix ds (c # cs) \<and> ds \<noteq> [] \<and> q = pre @ ds"
    if "\<exists>ds. prefix ds cs \<and> q = (pre @ [c]) @ ds"
    using that by (metis append.assoc append_Cons append_Nil nonempty_prefix_Cons)
  show ?case
  proof (cases "m (pre @ [c])")
    case None
    show ?thesis
    proof (cases "m' q = (m(pre @ [c] \<mapsto> Dir)) q")
      case True
      with Cons.prems(2) have "q = pre @ [c]" by (auto split: if_splits)
      with None True show ?thesis using lift by auto
    next
      case False
      have "mkdir_all (m(pre @ [c] \<mapsto> Dir)) (pre @ [c]) cs = (e, m')"
        using Cons.prems(1) None by simp
      from Cons.IH [OF this False] show ?thesis using lift by (auto split: if_splits)
    qed
  next
    case (Some x)
    with Cons.IH [of m "pre @ [c]"] Cons.prems show ?thesis using lift by (cases x) auto
  qed
qed simp

lemma mkdir_all_ok:
  "(\<And>ds b. prefix ds cs \<Longrightarrow> ds \<noteq> [] \<Longrightarrow> m (pre @ ds) \<noteq> Some (File b)) \<Longrightarrow>
    \<exists>m'. mkdir_all m pre cs = (None, m')"
proof (induction cs arbitrary: m pre)
  case (Cons c cs)
  have below: "m ((pre @ [c]) @ ds) \<noteq> Some (File b)" if "prefix ds cs" for ds b
    using Cons.prems [of "c # ds" b] that by simp
  then have "m (pre @ [c]) \<noteq> Some (File b)" for b
    by (metis append.right_neutral prefix_bot.bot_least)
  then consider "m (pre @ [c]) = None" | "m (pre @ [c]) = Some Dir"
    by (metis node.exhaust option.exhaust)
  then show ?case
  proof cases
    case 1
    have "\<exists>m'. mkdir_all (m(pre @ [c] \<mapsto> Dir)) (pre @ [c]) cs = (None, m')"
      by (rule Cons.IH) (use below in auto)
    with 1 show ?thesis by simp
  next
    case 2
    have "\<exists>m'. mkdir_all m (pre @ [c]) cs = (None, m')" by (rule Cons.IH) (use below in blast)
    with 2 show ?thesis by simp
  qed
qed simp

lemma mkdir_all_dirs:
  "mkdir_all m pre cs = (None, m') \<Longrightarrow> prefix ds cs \<Longrightarrow> ds \<noteq> [] \<Longrightarrow> m' (pre @ ds) = Some Dir"
proof (induction cs arbitrary: m pre ds)
  case (Cons c cs)
  then obtain es where ds: "ds = c # es" "prefix es cs" by (metis nonempty_prefix_Cons)
  define m1 where "m1 = (case m (pre @ [c]) of None \<Rightarrow> m(pre @ [c] \<mapsto> Dir) | Some _ \<Rightarrow> m)"
  have m1: "mkdir_all m1 (pre @ [c]) cs = (None, m')" "m1 (pre @ [c]) = Some Dir"
    using Cons.prems(1) by (auto simp: m1_def split: option.splits node.splits)
  show ?case
  proof (cases "es = []")
    case True
    with mkdir_all_keeps [OF m1] ds show ?thesis by simp
  next
    case False
    with Cons.IH [OF m1(1) ds(2)] ds show ?thesis by simp
  qed
qed simp


subsection \<open>Writing and reading back\<close>

lemma openFileForWriting_ok:
  assumes "openFileForWriting S sid key m = (Inr p, m')"
  shows "p = path_of (full_path S sid key) \<and> p \<noteq> [] \<and>
    (\<exists>m1. os_MkdirAll m (Root S @ ''/'' @ sid @ ''/'' @ PathName (PathTransform S key)) = (None, m1)
      \<and> walk m1 [] (butlast p) = Inr Dir \<and> m1 p \<noteq> Some Dir \<and> m' = m1(p \<mapsto> File []))"
proof -
  obtain m1 where mk: "os_MkdirAll m (Root S @ ''/'' @ sid @ ''/'' @ PathName (PathTransform S key)) = (None, m1)"
    and cr: "os_Create m1 (full_path S sid key) = Inr m'" and p: "p = path_of (full_path S sid key)"
    using assms by (auto simp: openFileForWriting_def split: prod.splits option.splits sum.splits)
  from cr p have c: "walk m1 [] (butlast p) = Inr Dir" "m1 p \<noteq> Some Dir" "m' = m1(p \<mapsto> File [])"
    by (auto simp: os_Create_def Let_def split: sum.splits node.splits if_splits)
  then have "p \<noteq> []" by (auto simp: walk_Inr_iff)
  with mk p c show ?thesis by blast
qed

lemma openFileForWriting_keeps:
  assumes "openFileForWriting S sid key m = (res, m')" "m q = Some n"
    and "q \<noteq> path_of (full_path S sid key)"
  shows "m' q = Some n"
proof -
  obtain e m1 where mk: "os_MkdirAll m (Root S @ ''/'' @ sid @ ''/'' @ PathName (PathTransform S key)) = (e, m1)"
    by (metis surj_pair)
  then have "m1 q = Some n" using mkdir_all_keeps assms(2) by (auto simp: os_MkdirAll_def)
  moreover have "m' q = m1 q"
    using assms(1,3) mk
    by (auto simp: openFileForWriting_def os_Create_def Let_def split: option.splits sum.splits
        node.splits if_splits)
  ultimately show ?thesis by simp
qed

lemma openFileForWriting_Dir_blocked:
  assumes "openFileForWriting S sid key m = (Inr p, m')"
  shows "m p \<noteq> Some Dir"
  using openFileForWriting_ok [OF assms] mkdir_all_keeps [of m "[]" _ _ _ p Dir]
  by (auto simp: os_MkdirAll_def)

lemma writeStream_nodes:
  assumes "writeStream S sid key r F = (res, F')" "fs_nodes F q = Some n"
    and "q \<noteq> path_of (full_path S sid key)"
  shows "fs_nodes F' q = Some n"
proof -
  obtain x m where op: "openFileForWriting S sid key (fs_nodes F) = (x, m)" by (metis surj_pair)
  have "m q = Some n" by (rule openFileForWriting_keeps [OF op assms(2,3)])
  moreover have "x = Inr p \<Longrightarrow> p = path_of (full_path S sid key)" for p
    using openFileForWriting_ok op by blast
  ultimately show ?thesis
    using assms(1,3) op by (auto simp: writeStream_def split: prod.splits sum.splits)
qed

text \<open>A path that could be read before a write to another path reads the same after it.\<close>
lemma walk_after_write:
  assumes w: "writeStream S sid key r F = (res, F')" and rd: "walk (fs_nodes F) [] q = Inr n"
    and ne: "q \<noteq> path_of (full_path S sid key)"
  shows "walk (fs_nodes F') [] q = Inr n"
proof -
  let ?p = "path_of (full_path S sid key)"
  have "fs_nodes F' (take i q) = Some Dir" if i: "i < length q" for i
  proof -
    have dir: "fs_nodes F (take i q) = Some Dir" using rd i by (simp add: walk_Inr_iff)
    show ?thesis
    proof (cases "take i q = ?p")
      case False
      then show ?thesis using writeStream_nodes [OF w dir] by simp
    next
      case True
      obtain x m1 where op: "openFileForWriting S sid key (fs_nodes F) = (x, m1)" by (metis surj_pair)
      then obtain e where x: "x = Inl e"
        using openFileForWriting_Dir_blocked openFileForWriting_ok dir True by (cases x) fastforce+
      then have "fs_nodes F' = m1" using w op by (auto simp: writeStream_def)
      moreover obtain e' m2 where
        mk: "os_MkdirAll (fs_nodes F) (Root S @ ''/'' @ sid @ ''/'' @ PathName (PathTransform S key)) = (e', m2)"
        by (metis surj_pair)
      moreover have "m1 = m2"
        using op x mk by (auto simp: openFileForWriting_def split: option.splits sum.splits)
      ultimately show ?thesis using mkdir_all_keeps dir by (auto simp: os_MkdirAll_def)
    qed
  qed
  moreover have "fs_nodes F' q = Some n"
    using rd ne writeStream_nodes [OF w] by (simp add: walk_Inr_iff)
  ultimately show ?thesis by (simp add: walk_Inr_iff)
qed

text \<open>
  Whatever the path transform, a write that reports success can be read back: \<open>Read\<close> returns
  the size that \<open>Write\<close> returned and a reader over exactly the bytes that were written; and a write
  to one path, successful or not, never changes what \<open>Read\<close> returns for a key stored at another.
\<close>
theorem store_write_read:
  assumes "store_Write S sid key r F = (res, F')"
  shows "(\<forall>n. res = Inr n \<longrightarrow> n = int (length (content r))
            \<and> store_Read S sid key F' = Inr (n, bytes_reader (content r)))
    \<and> (\<forall>sid' key' v. path_of (full_path S sid' key') \<noteq> path_of (full_path S sid key) \<longrightarrow>
          store_Read S sid' key' F = Inr v \<longrightarrow> store_Read S sid' key' F' = Inr v)"
proof (intro conjI allI impI)
  fix n assume n: "res = Inr n"
  obtain p m where op: "openFileForWriting S sid key (fs_nodes F) = (Inr p, m)"
    and cp: "io_Copy (fs_cap F) r = (Inr n, content r)"
    and F': "F' = F\<lparr>fs_nodes := m(p \<mapsto> File (content r))\<rparr>"
    and len: "n = int (length (content r))"
    using assms n by (auto simp: store_Write_def writeStream_def io_Copy_def Let_def
        split: prod.splits sum.splits option.splits if_splits)
  from openFileForWriting_ok [OF op] obtain m1 where p: "p = path_of (full_path S sid key)" "p \<noteq> []"
    and m1: "walk m1 [] (butlast p) = Inr Dir" "m = m1(p \<mapsto> File [])" by blast
  have "fs_nodes F' = m1(p \<mapsto> File (content r))" using F' m1(2) by simp
  with walk_upd_last [OF p(2) m1(1)] p(1) len
  show "n = int (length (content r))" "store_Read S sid key F' = Inr (n, bytes_reader (content r))"
    by (simp_all add: store_Read_def readStream_def os_Stat_def)
next
  fix sid' key' v
  assume ne: "path_of (full_path S sid' key') \<noteq> path_of (full_path S sid key)"
    and rd: "store_Read S sid' key' F = Inr v"
  have ds: "fs_dirsize F' = fs_dirsize F"
    using assms by (auto simp: store_Write_def writeStream_def split: prod.splits sum.splits)
  from rd obtain n where n: "walk (fs_nodes F) [] (path_of (full_path S sid' key')) = Inr n"
    by (auto simp: store_Read_def readStream_def os_Stat_def split: sum.splits)
  with walk_after_write [OF _ n ne] assms have
    "walk (fs_nodes F') [] (path_of (full_path S sid' key')) = Inr n" by (simp add: store_Write_def)
  with n rd ds show "store_Read S sid' key' F' = Inr v"
    by (cases n) (auto simp: store_Read_def readStream_def os_Stat_def)
qed


subsection \<open>Content-addressed paths\<close>

definition plain :: "string \<Rightarrow> bool" where
  "plain c \<longleftrightarrow> c \<noteq> [] \<and> c \<noteq> ''.'' \<and> c \<noteq> ''..'' \<and> CHR ''/'' \<notin> set c"

definition sha1_ok :: "prims \<Rightarrow> bool" where
  "sha1_ok P \<longleftrightarrow> (\<forall>b. length (sha1_sum P b) = 20)"

definition cas_hash :: "prims \<Rightarrow> string \<Rightarrow> string" where
  "cas_hash P key = hex_encode (sha1_sum P (string_bytes key))"

definition cas_segs :: "prims \<Rightarrow> string \<Rightarrow> string list" where
  "cas_segs P key =
     map (\<lambda>i. take 5 (drop (i * 5) (cas_hash P key))) [0..<length (cas_hash P key) div 5]"

definition node_dir :: "store \<Rightarrow> string \<Rightarrow> path" where
  "node_dir S sid = path_of (Root S @ ''/'' @ sid)"

definition is_cas :: "prims \<Rightarrow> store \<Rightarrow> bool" where
  "is_cas P S \<longleftrightarrow> PathTransform S = CASPathTransformFunc P \<and> Root S \<noteq> [] \<and> sha1_ok P"

lemma foldl_push_plain: "(\<forall>c \<in> set cs. plain c) \<Longrightarrow> foldl push_comp st cs = st @ cs"
  by (induction cs arbitrary: st) (auto simp: push_comp_def plain_def)

lemma path_of_append:
  "a \<noteq> [] \<Longrightarrow> path_of (a @ ''/'' @ b) = foldl push_comp (path_of a) (split_on (CHR ''/'') b)"
  by (cases a) (simp_all add: path_of_def split_on_append_sep_gen [of _ "_ # _", simplified])

lemma hex_plain: "set c \<subseteq> hex_chars \<Longrightarrow> c \<noteq> [] \<Longrightarrow> plain c"
  by (auto simp: plain_def hex_chars_def hex_table_def)

lemma length_cas_hash: "sha1_ok P \<Longrightarrow> length (cas_hash P key) = 40"
  by (simp add: cas_hash_def sha1_ok_def)

lemma concat_slices:
  "n * k \<le> length xs \<Longrightarrow> concat (map (\<lambda>i. take k (drop (i * k) xs)) [0..<n]) = take (n * k) xs"
proof (induction n)
  case (Suc n)
  then have "concat (map (\<lambda>i. take k (drop (i * k) xs)) [0..<Suc n]) =
      take (n * k) xs @ take k (drop (n * k) xs)" by simp
  also have "\<dots> = take (Suc n * k) xs" by (metis add.commute mult_Suc take_add)
  finally show ?case .
qed simp

lemma concat_cas_segs: "sha1_ok P \<Longrightarrow> concat (cas_segs P key) = cas_hash P key"
  by (simp add: cas_segs_def length_cas_hash concat_slices)

lemma cas_segs_length: "sha1_ok P \<Longrightarrow> length (cas_segs P key) = 8"
  by (simp add: cas_segs_def length_cas_hash)

lemma cas_segs_seg: "sha1_ok P \<Longrightarrow> c \<in> set (cas_segs P key) \<Longrightarrow> length c = 5"
  by (auto simp: cas_segs_def length_cas_hash)

lemma plain_cas:
  assumes "sha1_ok P" "c \<in> set (cas_segs P key @ [cas_hash P key])"
  shows "plain c"
proof -
  have "set c \<subseteq> set (cas_hash P key)"
    using assms(2) by (auto simp: cas_segs_def dest: in_set_takeD in_set_dropD)
  moreover have "set (cas_hash P key) \<subseteq> hex_chars" by (simp add: cas_hash_def set_hex_encode)
  moreover have "c \<noteq> []"
    using assms cas_segs_seg [OF assms(1), of c key] length_cas_hash [OF assms(1), of key] by auto
  ultimately show ?thesis by (blast intro: hex_plain)
qed

lemma CAS_PathName:
  "CASPathTransformFunc P key = \<lparr>PathName = join_with ''/'' (cas_segs P key), Filename = cas_hash P key\<rparr>"
  by (simp add: CASPathTransformFunc_def cas_segs_def cas_hash_def Let_def)

lemma split_PathName:
  assumes "sha1_ok P"
  shows "split_on (CHR ''/'') (join_with ''/'' (cas_segs P key)) = cas_segs P key"
  using plain_cas [OF assms] cas_segs_length [OF assms, of key]
  by (intro split_join) (auto simp: plain_def)

lemma node_dir_append:
  assumes "is_cas P S" "\<forall>c \<in> set (split_on (CHR ''/'') b). plain c"
  shows "path_of (Root S @ ''/'' @ sid @ ''/'' @ b) = node_dir S sid @ split_on (CHR ''/'') b"
  using path_of_append [of "Root S @ ''/'' @ sid" b] assms foldl_push_plain
  by (simp add: node_dir_def is_cas_def)

lemma cas_paths:
  assumes "is_cas P S"
  shows "path_of (full_path S sid key) = node_dir S sid @ cas_segs P key @ [cas_hash P key]"
    and "path_of (Root S @ ''/'' @ sid @ ''/'' @ PathName (PathTransform S key)) = node_dir S sid @ cas_segs P key"
    and "path_of (Root S @ ''/'' @ sid @ ''/'' @ FirstPathName (PathTransform S key))
      = node_dir S sid @ [take 5 (cas_hash P key)]"
    and "FirstPathName (PathTransform S key) = take 5 (cas_hash P key)"
proof -
  have ok: "sha1_ok P" and t: "PathTransform S = CASPathTransformFunc P"
    using assms by (auto simp: is_cas_def)
  have hd: "cas_segs P key = take 5 (cas_hash P key) # tl (cas_segs P key)"
    using length_cas_hash [OF ok, of key] by (simp add: cas_segs_def upt_rec [of 0 8])
  have split_full: "split_on (CHR ''/'') (join_with ''/'' (cas_segs P key) @ ''/'' @ cas_hash P key)
      = cas_segs P key @ [cas_hash P key]"
    using split_on_append_sep_gen [of "CHR ''/''" "join_with ''/'' (cas_segs P key)" "cas_hash P key"]
      split_PathName [OF ok, of key] plain_cas [OF ok, of "cas_hash P key" key]
    by (simp add: split_on_no_sep plain_def)
  show "path_of (full_path S sid key) = node_dir S sid @ cas_segs P key @ [cas_hash P key]"
    using node_dir_append [OF assms, of "join_with ''/'' (cas_segs P key) @ ''/'' @ cas_hash P key" sid]
      plain_cas [OF ok] split_full
    by (simp add: full_path_def FullPath_def t CAS_PathName)
  show "path_of (Root S @ ''/'' @ sid @ ''/'' @ PathName (PathTransform S key)) = node_dir S sid @ cas_segs P key"
    using node_dir_append [OF assms, of "join_with ''/'' (cas_segs P key)" sid]
      plain_cas [OF ok] split_PathName [OF ok] by (simp add: t CAS_PathName) blast
  show first: "FirstPathName (PathTransform S key) = take 5 (cas_hash P key)"
    unfolding FirstPathName_def t CAS_PathName
    by (simp add: split_PathName [OF ok]) (subst hd, simp)
  have "take 5 (cas_hash P key) \<in> set (cas_segs P key @ [cas_hash P key])"
    using arg_cong [OF hd, of set] by simp
  with plain_cas [OF ok] have "plain (take 5 (cas_hash P key))" by blast
  then show "path_of (Root S @ ''/'' @ sid @ ''/'' @ FirstPathName (PathTransform S key))
      = node_dir S sid @ [take 5 (cas_hash P key)]"
    using node_dir_append [OF assms, of "take 5 (cas_hash P key)" sid] first
    by (simp add: split_on_no_sep plain_def)
qed


subsection \<open>The states a content-addressed store keeps\<close>

text \<open>
  The file system is a tree; below a node's directory every directory is a five-digit segment
  and every file a forty-digit digest. \<open>Write\<close> and \<open>Delete\<close> keep it so, and in such a state a
  write of a healthy source always succeeds.
\<close>

definition fs_tree :: "nodes \<Rightarrow> bool" where
  "fs_tree m \<longleftrightarrow> m [] = Some Dir \<and> (\<forall>q n. m q = Some n \<longrightarrow> q \<noteq> [] \<longrightarrow> m (butlast q) = Some Dir)"

definition cas_state :: "path \<Rightarrow> nodes \<Rightarrow> bool" where
  "cas_state base m \<longleftrightarrow> fs_tree m
     \<and> (\<forall>q b. prefix q base \<longrightarrow> m q \<noteq> Some (File b))
     \<and> (\<forall>rest b. m (base @ rest) = Some (File b) \<longrightarrow> rest \<noteq> [] \<and> length (last rest) = 40)
     \<and> (\<forall>rest. m (base @ rest) = Some Dir \<longrightarrow> (\<forall>c \<in> set rest. length c = 5))"

lemma cas_state_tree: "cas_state base m \<Longrightarrow> fs_tree m"
  by (simp add: cas_state_def)

lemma fs_tree_prefix: "fs_tree m \<Longrightarrow> m (p @ q) = Some n \<Longrightarrow> q \<noteq> [] \<Longrightarrow> m p = Some Dir"
proof (induction q arbitrary: n rule: rev_induct)
  case (snoc x q)
  from snoc.prems(1,2) have "m (p @ q) = Some Dir"
    by (metis append.assoc butlast_snoc fs_tree_def snoc_eq_iff_butlast)
  with snoc.IH snoc.prems(1) show ?case by (cases "q = []") auto
qed simp

lemma walk_tree: "fs_tree m \<Longrightarrow> walk m [] q = Inr n \<longleftrightarrow> m q = Some n"
proof -
  assume t: "fs_tree m"
  have "m (take i q) = Some Dir" if "m q = Some n" "i < length q" for i
    using fs_tree_prefix [OF t, of "take i q" "drop i q" n] that by simp
  then show ?thesis by (auto simp: walk_Inr_iff)
qed

lemma cas_state_open:
  assumes cas: "is_cas P S" and st: "cas_state (node_dir S sid) m"
  shows "\<exists>m1. openFileForWriting S sid key m = (Inr (path_of (full_path S sid key)),
           m1(path_of (full_path S sid key) \<mapsto> File []))
    \<and> mkdir_all m [] (node_dir S sid @ cas_segs P key) = (None, m1)"
proof -
  let ?b = "node_dir S sid" and ?s = "cas_segs P key" and ?h = "cas_hash P key"
  have ok: "sha1_ok P" using cas by (simp add: is_cas_def)
  have nofile: "m ds \<noteq> Some (File b)" if "prefix ds (?b @ ?s)" for ds b
  proof (cases "prefix ds ?b")
    case True
    with st show ?thesis by (auto simp: cas_state_def)
  next
    case False
    with that obtain rest where r: "ds = ?b @ rest" "prefix rest ?s" by (auto simp: prefix_append)
    then have "rest \<noteq> [] \<Longrightarrow> length (last rest) = 5"
      using cas_segs_seg [OF ok] by (metis last_in_set set_mono_prefix subsetD)
    with st r(1) show ?thesis by (auto simp: cas_state_def)
  qed
  obtain m1 where m1: "mkdir_all m [] (?b @ ?s) = (None, m1)"
    using mkdir_all_ok [of "?b @ ?s" m "[]"] nofile by auto
  have "m1 q = Some Dir" if "prefix q (?b @ ?s)" for q
    using that st mkdir_all_dirs [OF m1, of q] mkdir_all_keeps [OF m1, of "[]" Dir]
    by (cases "q = []") (auto simp: cas_state_def fs_tree_def)
  then have w: "walk m1 [] (?b @ ?s) = Inr Dir"
    by (simp add: walk_Inr_iff take_is_prefix del: take_append)
  have "m1 (?b @ ?s @ [?h]) \<noteq> Some Dir"
  proof
    assume d: "m1 (?b @ ?s @ [?h]) = Some Dir"
    have "m (?b @ ?s @ [?h]) \<noteq> Some Dir"
      using st length_cas_hash [OF ok, of key] by (force simp: cas_state_def)
    with d mkdir_all_new [OF m1, of "?b @ ?s @ [?h]"] have "prefix (?b @ ?s @ [?h]) (?b @ ?s)" by auto
    then show False by (auto dest: prefix_length_le)
  qed
  with w m1 show ?thesis
    using cas_paths(1,2) [OF cas, of sid key]
    by (simp add: openFileForWriting_def os_MkdirAll_def os_Create_def Let_def butlast_append)
qed

lemma mkdir_all_tree:
  assumes "fs_tree m" "mkdir_all m [] cs = (None, m')"
  shows "fs_tree m'"
  unfolding fs_tree_def
proof (intro conjI allI impI)
  show root: "m' [] = Some Dir" using mkdir_all_keeps [OF assms(2)] assms(1) by (auto simp: fs_tree_def)
  fix q n assume q: "m' q = Some n" "q \<noteq> []"
  show "m' (butlast q) = Some Dir"
  proof (cases "m' q = m q")
    case True
    with q assms(1) mkdir_all_keeps [OF assms(2)] show ?thesis by (auto simp: fs_tree_def)
  next
    case False
    with mkdir_all_new [OF assms(2)] have "prefix q cs" by fastforce
    then have "prefix (butlast q) cs" by (metis prefix_order.trans prefixeq_butlast)
    then show ?thesis using mkdir_all_dirs [OF assms(2), of "butlast q"] root by (cases "butlast q = []") auto
  qed
qed

lemma fs_tree_file:
  assumes "fs_tree m" "m p \<noteq> Some Dir" "p \<noteq> []" "m (butlast p) = Some Dir"
  shows "fs_tree (m(p \<mapsto> File b))"
  using assms by (auto simp: fs_tree_def)


lemma cas_write:
  assumes cas: "is_cas P S" and st: "cas_state (node_dir S sid) (fs_nodes F)"
    and cap: "fs_cap F = None" and src: "end_err r = EOF"
  shows "\<exists>F'. store_Write S sid key r F = (Inr (int (length (content r))), F')
    \<and> cas_state (node_dir S sid) (fs_nodes F') \<and> fs_cap F' = None
    \<and> fs_nodes F' (path_of (full_path S sid key)) = Some (File (content r))
    \<and> (\<forall>q b. q \<noteq> path_of (full_path S sid key) \<longrightarrow>
          fs_nodes F' q = Some (File b) \<longleftrightarrow> fs_nodes F q = Some (File b))"
proof -
  let ?b = "node_dir S sid" and ?s = "cas_segs P key" and ?p = "path_of (full_path S sid key)"
  have ok: "sha1_ok P" using cas by (simp add: is_cas_def)
  have p: "?p = (?b @ ?s) @ [cas_hash P key]" using cas_paths(1) [OF cas] by simp
  obtain m1 where op: "openFileForWriting S sid key (fs_nodes F) = (Inr ?p, m1(?p \<mapsto> File []))"
    and m1: "mkdir_all (fs_nodes F) [] (?b @ ?s) = (None, m1)"
    using cas_state_open [OF cas st] by blast
  let ?F = "F\<lparr>fs_nodes := m1(?p \<mapsto> File (content r))\<rparr>"
  have new: "m1 q = Some Dir \<and> fs_nodes F q = None \<and> prefix q (?b @ ?s)" if "m1 q \<noteq> fs_nodes F q" for q
    using mkdir_all_new [OF m1 that] by auto
  have oldfile: "fs_nodes F q = Some (File b)" if "m1 q = Some (File b)" for q b
    using new [of q] that by (cases "m1 q = fs_nodes F q") auto
  have tree: "fs_tree m1" using mkdir_all_tree [OF _ m1] st by (simp add: cas_state_def)
  have pdir: "m1 ?p \<noteq> Some Dir" using openFileForWriting_ok [OF op] m1 cas_paths(2) [OF cas]
    by (auto simp: os_MkdirAll_def)
  have parent: "m1 (butlast ?p) = Some Dir"
    using openFileForWriting_ok [OF op] m1 cas_paths(2) [OF cas] by (auto simp: os_MkdirAll_def walk_Inr_iff)
  have "cas_state ?b (fs_nodes ?F)"
    unfolding cas_state_def
  proof (intro conjI allI impI ballI)
    show "fs_tree (fs_nodes ?F)" using fs_tree_file [OF tree pdir _ parent] p by simp
  next
    fix q b assume q: "prefix q ?b"
    then have "q \<noteq> ?p" using p by (auto dest: prefix_length_le)
    moreover have "fs_nodes F q \<noteq> Some (File b)" using st q by (simp add: cas_state_def)
    ultimately show "fs_nodes ?F q \<noteq> Some (File b)"
      using oldfile by auto
  next
    fix rest b assume f: "fs_nodes ?F (?b @ rest) = Some (File b)"
    have "rest \<noteq> [] \<and> length (last rest) = 40" if "?b @ rest \<noteq> ?p"
      using f st that oldfile [of "?b @ rest" b] by (simp add: cas_state_def)
    moreover have "rest \<noteq> [] \<and> length (last rest) = 40" if "?b @ rest = ?p"
      using that p length_cas_hash [OF ok, of key] by auto
    ultimately show "rest \<noteq> []" "length (last rest) = 40" by blast+
  next
    fix rest c assume d: "fs_nodes ?F (?b @ rest) = Some Dir" and c: "c \<in> set rest"
    then have m1d: "m1 (?b @ rest) = Some Dir" by (auto split: if_splits)
    show "length c = 5"
    proof (cases "fs_nodes F (?b @ rest) = Some Dir")
      case True
      with st c show ?thesis by (auto simp: cas_state_def)
    next
      case False
      with m1d new [of "?b @ rest"] have "prefix rest ?s" by auto
      with c cas_segs_seg [OF ok] show ?thesis by (meson set_mono_prefix subsetD)
    qed
  qed
  moreover have "store_Write S sid key r F = (Inr (int (length (content r))), ?F)"
    using op cap src by (simp add: store_Write_def writeStream_def io_Copy_def Let_def)
  moreover have "fs_nodes ?F q = Some (File b) \<longleftrightarrow> fs_nodes F q = Some (File b)" if "q \<noteq> ?p" for q b
    using new [of q] that by (cases "m1 q = fs_nodes F q") auto
  ultimately show ?thesis using cap by (intro exI [of _ ?F]) simp
qed

lemma walk_Inl:
  "walk m pre cs = Inl e \<Longrightarrow> e = ENOENT \<or> (\<exists>i < length cs. \<exists>b. m (pre @ take i cs) = Some (File b))"
proof (induction cs arbitrary: pre)
  case (Cons c cs)
  show ?case
  proof (cases "m pre")
    case (Some n)
    show ?thesis
    proof (cases n)
      case (File b)
      with Some show ?thesis by (auto intro!: exI [of _ 0])
    next
      case Dir
      with Some Cons.prems have "walk m (pre @ [c]) cs = Inl e" by simp
      from Cons.IH [OF this]
      have "e = ENOENT \<or> (\<exists>i < length cs. \<exists>b. m ((pre @ [c]) @ take i cs) = Some (File b))" .
      then show ?thesis
      proof (elim disjE exE conjE)
        fix i b assume "i < length cs" "m ((pre @ [c]) @ take i cs) = Some (File b)"
        then show ?thesis by (intro disjI2 exI [of _ "Suc i"]) auto
      qed simp
    qed
  qed (use Cons.prems in simp)
qed (simp split: option.splits)

lemma cas_delete:
  assumes cas: "is_cas P S" and st: "cas_state (node_dir S sid) (fs_nodes F)"
  shows "store_Delete S sid key F = (None, F\<lparr>fs_nodes :=
    (\<lambda>q. if prefix (node_dir S sid @ [take 5 (cas_hash P key)]) q then None else fs_nodes F q)\<rparr>)"
proof -
  let ?b = "node_dir S sid" and ?m = "fs_nodes F"
  let ?f = "FirstPathName (PathTransform S key)"
  have ok: "sha1_ok P" using cas by (simp add: is_cas_def)
  have f: "?f = take 5 (cas_hash P key)" and pl: "plain ?f"
  proof -
    show "?f = take 5 (cas_hash P key)" by (rule cas_paths(4) [OF cas])
    moreover have "set (cas_hash P key) \<subseteq> hex_chars" by (simp add: cas_hash_def set_hex_encode)
    moreover have "cas_hash P key \<noteq> []" using length_cas_hash [OF ok, of key] by auto
    ultimately show "plain ?f" by (auto intro!: hex_plain dest: in_set_takeD)
  qed
  have last: "last (split_on (CHR ''/'') (Root S @ ''/'' @ sid @ ''/'' @ ?f)) \<noteq> ''.''"
    using pl split_on_append_sep_gen [of "CHR ''/''" "Root S @ ''/'' @ sid" ?f]
    by (simp add: split_on_no_sep plain_def)
  have tree: "fs_tree ?m" using st by (simp add: cas_state_def)
  consider (dir) "walk ?m [] ?b = Inr Dir" | (none) "walk ?m [] ?b = Inl ENOENT" "?m ?b = None"
  proof (cases "?m ?b")
    case None
    obtain e where e: "walk ?m [] ?b = Inl e"
      using None walk_tree [OF tree] by (metis option.distinct(1) sum.exhaust)
    from walk_Inl [OF this] st have "e = ENOENT" by (auto simp: cas_state_def take_is_prefix)
    with e None show thesis using that by blast
  next
    case (Some n)
    with st have "n = Dir" by (cases n) (auto simp: cas_state_def)
    with Some walk_tree [OF tree] show thesis using that by simp
  qed
  then show ?thesis
  proof cases
    case dir
    with last cas_paths(3) [OF cas, of sid key] show ?thesis
      by (simp add: store_Delete_def os_RemoveAll_def Let_def f)
  next
    case none
    have "?m q = None" if q: "prefix (?b @ [take 5 (cas_hash P key)]) q" for q
    proof (rule ccontr)
      assume "?m q \<noteq> None"
      then show False
        using q fs_tree_prefix [OF tree, of ?b "take 5 (cas_hash P key) # _"] none(2)
        by (auto elim!: prefixE)
    qed
    then have "(\<lambda>q. if prefix (?b @ [take 5 (cas_hash P key)]) q then None else ?m q) = ?m" by auto
    with none(1) last cas_paths(3) [OF cas, of sid key] show ?thesis
      by (simp add: store_Delete_def os_RemoveAll_def Let_def f)
  qed
qed


lemma cas_delete_state:
  assumes "is_cas P S" "cas_state (node_dir S sid) m"
  shows "cas_state (node_dir S sid)
    (\<lambda>q. if prefix (node_dir S sid @ [take 5 (cas_hash P key)]) q then None else m q)"
proof -
  let ?d = "node_dir S sid @ [take 5 (cas_hash P key)]"
  have "fs_tree (\<lambda>q. if prefix ?d q then None else m q)"
    unfolding fs_tree_def
  proof (intro conjI allI impI)
    show "(if prefix ?d [] then None else m []) = Some Dir"
      using assms(2) by (simp add: cas_state_def fs_tree_def)
  next
    fix q n assume q: "(if prefix ?d q then None else m q) = Some n" "q \<noteq> []"
    then have "\<not> prefix ?d (butlast q)" by (meson prefix_order.trans prefixeq_butlast option.distinct(1))
    with q assms(2) show "(if prefix ?d (butlast q) then None else m (butlast q)) = Some Dir"
      by (auto simp: cas_state_def fs_tree_def split: if_splits)
  qed
  with assms(2) show ?thesis by (auto simp: cas_state_def split: if_splits)
qed

subsection \<open>The store as a key-value interface\<close>

text \<open>
  What a client of a content-addressed store can rely on. \<open>same\<close> relates keys kept in the same
  file and \<open>near\<close> keys deleted together; the client sees a finite history of puts and deletes as
  the same history on a map.
\<close>

datatype blob_op = Put string bytes | Del string

primrec apply_op :: "(string \<Rightarrow> bytes \<Rightarrow> 's \<Rightarrow> 's) \<Rightarrow> (string \<Rightarrow> 's \<Rightarrow> 's) \<Rightarrow> blob_op \<Rightarrow> 's \<Rightarrow> 's" where
  "apply_op wr rm (Put k b) s = wr k b s"
| "apply_op wr rm (Del k) s = rm k s"

primrec spec_op ::
  "(string \<Rightarrow> string \<Rightarrow> bool) \<Rightarrow> (string \<Rightarrow> string \<Rightarrow> bool) \<Rightarrow> blob_op \<Rightarrow>
   (string \<Rightarrow> bytes option) \<Rightarrow> string \<Rightarrow> bytes option"
where
  "spec_op same near (Put k b) M = (\<lambda>k'. if same k k' then Some b else M k')"
| "spec_op same near (Del k) M = (\<lambda>k'. if near k k' then None else M k')"

locale blob_store =
  fixes good :: "'s \<Rightarrow> bool"
    and wr :: "string \<Rightarrow> bytes \<Rightarrow> 's \<Rightarrow> 's"
    and rd :: "string \<Rightarrow> 's \<Rightarrow> bytes option"
    and rm :: "string \<Rightarrow> 's \<Rightarrow> 's"
    and same :: "string \<Rightarrow> string \<Rightarrow> bool"
    and near :: "string \<Rightarrow> string \<Rightarrow> bool"
  assumes good_wr: "good s \<Longrightarrow> good (wr k b s)"
    and good_rm: "good s \<Longrightarrow> good (rm k s)"
    and rd_wr: "good s \<Longrightarrow> rd k' (wr k b s) = (if same k k' then Some b else rd k' s)"
    and rd_rm: "good s \<Longrightarrow> rd k' (rm k s) = (if near k k' then None else rd k' s)"
begin

lemma history_good: "good s \<Longrightarrow> good (fold (apply_op wr rm) ops s)"
proof (induction ops arbitrary: s)
  case (Cons a ops)
  then have "good (apply_op wr rm a s)" by (cases a) (auto intro: good_wr good_rm)
  with Cons.IH show ?case by simp
qed simp

lemma history_refines:
  "good s \<Longrightarrow> (\<lambda>k. rd k (fold (apply_op wr rm) ops s)) = fold (spec_op same near) ops (\<lambda>k. rd k s)"
proof (induction ops arbitrary: s)
  case (Cons a ops)
  have "good (apply_op wr rm a s)" using Cons.prems by (cases a) (auto intro: good_wr good_rm)
  moreover have "(\<lambda>k. rd k (apply_op wr rm a s)) = spec_op same near a (\<lambda>k. rd k s)"
    using Cons.prems by (cases a) (auto simp: rd_wr rd_rm)
  ultimately show ?case using Cons.IH by simp
qed simp

end

definition cas_good :: "prims \<Rightarrow> store \<Rightarrow> string \<Rightarrow> fs \<Rightarrow> bool" where
  "cas_good P S sid F \<longleftrightarrow> is_cas P S \<and> fs_cap F = None \<and> cas_state (node_dir S sid) (fs_nodes F)"

definition put_blob :: "store \<Rightarrow> string \<Rightarrow> string \<Rightarrow> bytes \<Rightarrow> fs \<Rightarrow> fs" where
  "put_blob S sid key b F = snd (store_Write S sid key (bytes_reader b) F)"

definition get_blob :: "store \<Rightarrow> string \<Rightarrow> string \<Rightarrow> fs \<Rightarrow> bytes option" where
  "get_blob S sid key F = (case store_Read S sid key F of
     Inl e \<Rightarrow> None | Inr (n, r) \<Rightarrow> if end_err r = EOF then Some (content r) else None)"

definition del_blob :: "store \<Rightarrow> string \<Rightarrow> string \<Rightarrow> fs \<Rightarrow> fs" where
  "del_blob S sid key F = snd (store_Delete S sid key F)"

definition same_digest :: "prims \<Rightarrow> string \<Rightarrow> string \<Rightarrow> bool" where
  "same_digest P k k' \<longleftrightarrow> cas_hash P k = cas_hash P k'"

definition same_first :: "prims \<Rightarrow> string \<Rightarrow> string \<Rightarrow> bool" where
  "same_first P k k' \<longleftrightarrow> take 5 (cas_hash P k) = take 5 (cas_hash P k')"

lemma get_blob_tree:
  "fs_tree (fs_nodes F) \<Longrightarrow> get_blob S sid key F = Some b \<longleftrightarrow>
    fs_nodes F (path_of (full_path S sid key)) = Some (File b)"
  by (auto simp: get_blob_def store_Read_def readStream_def os_Stat_def walk_tree [symmetric]
      end_err_def split: sum.splits node.splits prod.splits)

lemma same_digest_path:
  "is_cas P S \<Longrightarrow> path_of (full_path S sid k) = path_of (full_path S sid k') \<longleftrightarrow> same_digest P k k'"
  by (auto simp: cas_paths(1) same_digest_def cas_segs_def)

lemma same_first_prefix:
  assumes "is_cas P S"
  shows "prefix (node_dir S sid @ [take 5 (cas_hash P k)]) (path_of (full_path S sid k')) \<longleftrightarrow> same_first P k k'"
proof -
  obtain t where "cas_segs P k' = take 5 (cas_hash P k') # t"
    using length_cas_hash [of P k'] assms by (simp add: cas_segs_def is_cas_def upt_rec [of 0 8])
  then show ?thesis by (auto simp: cas_paths(1) [OF assms] same_first_def)
qed

interpretation cas_store: blob_store "cas_good P S sid" "put_blob S sid" "get_blob S sid"
  "del_blob S sid" "same_digest P" "same_first P" for P S sid
proof
  fix F k b
  assume g: "cas_good P S sid F"
  then show "cas_good P S sid (put_blob S sid k b F)" "cas_good P S sid (del_blob S sid k F)"
    using cas_write [of P S sid F "bytes_reader b" k]
      cas_delete [of P S sid F k] cas_delete_state [of P S sid "fs_nodes F" k]
    by (auto simp: cas_good_def put_blob_def del_blob_def)
next
  fix F k' k b
  assume g: "cas_good P S sid F"
  let ?p = "path_of (full_path S sid k)" and ?p' = "path_of (full_path S sid k')"
  have cas: "is_cas P S" and st: "cas_state (node_dir S sid) (fs_nodes F)" and cap: "fs_cap F = None"
    using g by (auto simp: cas_good_def)
  obtain F' where w: "put_blob S sid k b F = F'" "cas_state (node_dir S sid) (fs_nodes F')"
    "fs_nodes F' ?p = Some (File b)"
    "\<forall>q c. q \<noteq> ?p \<longrightarrow> fs_nodes F' q = Some (File c) \<longleftrightarrow> fs_nodes F q = Some (File c)"
    using cas_write [OF cas st cap, of "bytes_reader b" k] by (auto simp: put_blob_def)
  have "get_blob S sid k' F' = Some c \<longleftrightarrow> (if same_digest P k k' then Some b else get_blob S sid k' F) = Some c" for c
    using w st same_digest_path [OF cas, of sid k k'] get_blob_tree [of F' S sid k' c]
      get_blob_tree [of F S sid k' c] by (auto simp: cas_state_def)
  then show "get_blob S sid k' (put_blob S sid k b F) = (if same_digest P k k' then Some b else get_blob S sid k' F)"
    unfolding w(1) by (rule option_eq_by_Some)
  let ?m = "\<lambda>q. if prefix (node_dir S sid @ [take 5 (cas_hash P k)]) q then None else fs_nodes F q"
  have t1: "fs_tree (fs_nodes F)" and t2: "fs_tree (fs_nodes (F\<lparr>fs_nodes := ?m\<rparr>))"
    using cas_state_tree [OF st] cas_state_tree [OF cas_delete_state [OF cas st, of k]] by simp_all
  have "get_blob S sid k' (F\<lparr>fs_nodes := ?m\<rparr>) = Some c \<longleftrightarrow>
      (if same_first P k k' then None else get_blob S sid k' F) = Some c" for c
    using get_blob_tree [OF t2, of S sid k' c] get_blob_tree [OF t1, of S sid k' c]
      same_first_prefix [OF cas, of sid k k'] by simp
  then show "get_blob S sid k' (del_blob S sid k F) = (if same_first P k k' then None else get_blob S sid k' F)"
    unfolding del_blob_def cas_delete [OF cas st, of k] snd_conv by (rule option_eq_by_Some)
qed

subsection \<open>Properties of the content-addressed store\<close>

text \<open>
  The CAS transform puts a key in a directory of eight five-digit segments that spell its
  SHA-1 digest, in a file named by the digest, below the node's own directory; two keys share a
  path only if their digests are equal.
\<close>
theorem cas_layout:
  assumes "is_cas P S"
  shows "path_of (full_path S sid key) = node_dir S sid @ cas_segs P key @ [cas_hash P key]
    \<and> concat (cas_segs P key) = cas_hash P key \<and> length (cas_segs P key) = 8
    \<and> (\<forall>c \<in> set (cas_segs P key). length c = 5)
    \<and> (path_of (full_path S sid key) = path_of (full_path S sid key') \<longleftrightarrow>
        sha1_sum P (string_bytes key) = sha1_sum P (string_bytes key'))"
proof -
  have "sha1_ok P" using assms by (simp add: is_cas_def)
  then show ?thesis
    using assms cas_segs_seg same_digest_path [OF assms, of sid key key']
    by (auto simp: cas_paths(1) concat_cas_segs cas_segs_length same_digest_def cas_hash_def
        dest: hex_encode_inj)
qed

text \<open>
  C26. Any history of writes and deletes on a content-addressed store behaves as the same history
  on a map in which a delete removes every key whose digest starts with the same five digits,
  and it keeps the shape of the directory tree.
\<close>
theorem cas_history_refines_map:
  assumes "cas_good P S sid F"
  shows "(\<lambda>k. get_blob S sid k (fold (apply_op (put_blob S sid) (del_blob S sid)) ops F))
      = fold (spec_op (same_digest P) (same_first P)) ops (\<lambda>k. get_blob S sid k F)
    \<and> cas_good P S sid (fold (apply_op (put_blob S sid) (del_blob S sid)) ops F)"
  using cas_store.history_refines [OF assms] cas_store.history_good [OF assms] by blast

text \<open>
  In such a store a write of a healthy source cannot fail: it returns the number of bytes of
  the source, and \<open>Has\<close> then finds the key.
\<close>
theorem cas_write_total:
  assumes "cas_good P S sid F" "end_err r = EOF"
  shows "\<exists>F'. store_Write S sid key r F = (Inr (int (length (content r))), F') \<and> cas_good P S sid F'
    \<and> store_Has S sid key F'"
proof -
  have g: "is_cas P S" "cas_state (node_dir S sid) (fs_nodes F)" "fs_cap F = None"
    using assms(1) by (auto simp: cas_good_def)
  obtain F' where F': "store_Write S sid key r F = (Inr (int (length (content r))), F')"
    "cas_state (node_dir S sid) (fs_nodes F')" "fs_cap F' = None"
    "fs_nodes F' (path_of (full_path S sid key)) = Some (File (content r))"
    using cas_write [OF g assms(2)] by blast
  moreover have "walk (fs_nodes F') [] (path_of (full_path S sid key)) = Inr (File (content r))"
    using F'(2,4) walk_tree by (auto simp: cas_state_def)
  ultimately show ?thesis using g(1) by (simp add: cas_good_def store_Has_def os_Stat_def)
qed

text \<open>
  \<open>Has\<close> answers true for a key that was never stored when a component of its path is a file,
  because only \<open>ErrNotExist\<close> counts as absence: with the default transform, storing one key makes
  \<open>Has\<close> true for every key whose path runs through the stored file, and \<open>Read\<close> then fails.
\<close>
theorem has_through_file:
  assumes "walk (fs_nodes F) [] (path_of (full_path S sid key)) = Inr (File b)"
    and "path_of (full_path S sid key') = path_of (full_path S sid key) @ c # cs"
  shows "store_Has S sid key' F \<and> store_Read S sid key' F = Inl ENOTDIR"
proof -
  have "walk m pre ds = Inr (File b) \<Longrightarrow> walk m pre (ds @ c # cs) = Inl ENOTDIR" for m pre ds
    by (induction ds arbitrary: pre) (auto split: option.splits node.splits)
  with assms have "walk (fs_nodes F) [] (path_of (full_path S sid key')) = Inl ENOTDIR" by simp
  then show ?thesis by (simp add: store_Has_def store_Read_def readStream_def os_Stat_def)
qed

subsection \<open>Witnesses on a concrete disk\<close>

definition empty_fs :: fs where
  "empty_fs = \<lparr>fs_nodes = [[] \<mapsto> Dir], fs_dirsize = 4096, fs_cap = None\<rparr>"

definition toy_store :: store where
  "toy_store = NewStore ''root'' (Some (CASPathTransformFunc toy_prims))"

lemma is_cas_toy: "is_cas toy_prims toy_store"
  by (auto simp: is_cas_def toy_store_def NewStore_def sha1_ok_def toy_prims_def)

lemma cas_good_toy: "cas_good toy_prims toy_store ''n1'' empty_fs"
  by (auto simp: cas_good_def is_cas_toy cas_state_def fs_tree_def empty_fs_def)

lemmas disk_eval = store_Write_def writeStream_def openFileForWriting_def os_MkdirAll_def os_Create_def
  path_of_def push_comp_def NewStore_def defaultRootFolderName_def DefaultPathTransformFunc_def
  full_path_def FullPath_def empty_fs_def io_Copy_def mk_reader_def content_def end_err_def Let_def

theorem store_write_read_witness:
  "\<exists>F'. store_Write (NewStore '''' None) ''n'' ''k'' (mk_reader [[1, 2], [3]]) empty_fs = (Inr 3, F')
    \<and> store_Read (NewStore '''' None) ''n'' ''k'' F' = Inr (3, bytes_reader [1, 2, 3])"
proof -
  let ?S = "NewStore '''' None"
  obtain F' where w: "store_Write ?S ''n'' ''k'' (mk_reader [[1, 2], [3]]) empty_fs = (Inr 3, F')"
    by (simp add: disk_eval)
  with store_write_read [OF w] show ?thesis by simp
qed

theorem cas_layout_witness:
  "path_of (full_path toy_store ''n1'' ''a'') =
    node_dir toy_store ''n1'' @ cas_segs toy_prims ''a'' @ [cas_hash toy_prims ''a'']
   \<and> length (cas_segs toy_prims ''a'') = 8"
  using cas_layout [OF is_cas_toy, of "''n1''" "''a''"] by simp

theorem cas_history_refines_map_witness:
  "get_blob toy_store ''n1'' ''a''
     (fold (apply_op (put_blob toy_store ''n1'') (del_blob toy_store ''n1'')) [Put ''a'' [1]] empty_fs) = Some [1]"
  using fun_cong [OF conjunct1 [OF cas_history_refines_map [OF cas_good_toy, of "[Put ''a'' [1]]"]], of "''a''"]
  by (simp add: same_digest_def)

theorem cas_write_total_witness:
  "\<exists>F'. store_Write toy_store ''n1'' ''a'' (mk_reader [[1], [2]]) empty_fs = (Inr 2, F')"
  using cas_write_total [OF cas_good_toy, of "mk_reader [[1], [2]]" "''a''"] by auto

theorem has_through_file_witness:
  "\<exists>F. store_Has (NewStore '''' None) ''n'' ''k/k'' F
    \<and> store_Read (NewStore '''' None) ''n'' ''k/k'' F = Inl ENOTDIR"
proof -
  let ?S = "NewStore '''' None"
  let ?F = "snd (store_Write ?S ''n'' ''k'' (mk_reader [[1]]) empty_fs)"
  have "walk (fs_nodes ?F) [] (path_of (full_path ?S ''n'' ''k'')) = Inr (File [1])"
    by (simp add: disk_eval)
  moreover have "path_of (full_path ?S ''n'' ''k/k'') = path_of (full_path ?S ''n'' ''k'') @ ''k'' # [''k'']"
    by (simp add: disk_eval)
  ultimately show ?thesis by (blast dest: has_through_file)
qed

end
