(* ===== verification/Copydist.thy ===== *)
theory Copydist
  imports Storage_Store
begin

text \<open>
  \<open>tools/copydist/main.go\<close>, the tool that copies the built front end into the portal's package: it
  removes the destination and copies a directory tree. The file system is that of \<open>Storage_Store\<close>;
  links are not part of it. \<open>names\<close> lists the names that occur in it in lexical order, which is the order
  in which a directory is read. \<open>filepath.WalkDir\<close> reads each directory when it gets there, so it may
  go on for ever: the fuel bounds the depth of its recursion, and \<open>None\<close> means it was not enough.
\<close>

subsection \<open>os and filepath\<close>

definition create_path :: "nodes \<Rightarrow> path \<Rightarrow> (oserr, nodes) result" where
  "create_path m p = (case walk m [] (butlast p) of
     Inl e \<Rightarrow> Inl e
   | Inr (File b) \<Rightarrow> Inl ENOTDIR
   | Inr Dir \<Rightarrow> if m p = Some Dir then Inl EISDIR else Inr (m(p \<mapsto> File [])))"

lemma os_Create_path: "os_Create m s = create_path m (path_of s)"
  by (simp add: os_Create_def create_path_def Let_def)

text \<open>\<open>os.ReadDir\<close>: the entries, each with the answer of its \<open>IsDir\<close>.\<close>
definition os_ReadDir :: "string list \<Rightarrow> nodes \<Rightarrow> path \<Rightarrow> (oserr, (string \<times> bool) list) result" where
  "os_ReadDir names m p = (case walk m [] p of
     Inl e \<Rightarrow> Inl e
   | Inr (File b) \<Rightarrow> Inl ENOTDIR
   | Inr Dir \<Rightarrow> Inr (map (\<lambda>c. (c, m (p @ [c]) = Some Dir)) (filter (\<lambda>c. m (p @ [c]) \<noteq> None) names)))"

subsection \<open>copydist\<close>

definition copyFile :: "nat option \<Rightarrow> path \<Rightarrow> path \<Rightarrow> nodes \<Rightarrow> oserr option \<times> nodes" where
  "copyFile cap src dst m = (case walk m [] src of
     Inl e \<Rightarrow> (Some e, m)
   | Inr _ \<Rightarrow> (case create_path m dst of
       Inl e \<Rightarrow> (Some e, m)
     | Inr m1 \<Rightarrow>
        (let input = (case m1 src of Some (File b) \<Rightarrow> bytes_reader b | _ \<Rightarrow> \<lparr>rsegs = [], rfail = Some (ErrIO ''is a directory'')\<rparr>);
             (res, b) = io_Copy cap input
         in (case res of Inl e \<Rightarrow> Some (OSIO e) | Inr _ \<Rightarrow> None, m1(dst \<mapsto> File b)))))"

text \<open>The function \<open>copyDir\<close> hands to \<open>WalkDir\<close>; \<open>rel\<close> is what \<open>filepath.Rel\<close> gives for the path visited.\<close>
definition copy_visit :: "nat option \<Rightarrow> path \<Rightarrow> path \<Rightarrow> path \<Rightarrow> bool \<Rightarrow> nodes \<Rightarrow> oserr option \<times> nodes" where
  "copy_visit cap src dst rel isDir m =
     (if isDir then mkdir_all m [] (dst @ rel) else copyFile cap (src @ rel) (dst @ rel) m)"

fun walkDir :: "nat \<Rightarrow> string list \<Rightarrow> nat option \<Rightarrow> path \<Rightarrow> path \<Rightarrow> path \<Rightarrow> bool \<Rightarrow> nodes \<Rightarrow> (oserr option \<times> nodes) option"
and walkEntries :: "nat \<Rightarrow> string list \<Rightarrow> nat option \<Rightarrow> path \<Rightarrow> path \<Rightarrow> path \<Rightarrow> (string \<times> bool) list \<Rightarrow> nodes
  \<Rightarrow> (oserr option \<times> nodes) option"
where
  "walkDir 0 names cap src dst rel isDir m = None"
| "walkDir (Suc k) names cap src dst rel isDir m = (case copy_visit cap src dst rel isDir m of
     (Some e, m1) \<Rightarrow> Some (Some e, m1)
   | (None, m1) \<Rightarrow>
      (if \<not> isDir then Some (None, m1)
       else (case os_ReadDir names m1 (src @ rel) of
           Inl e \<Rightarrow> Some (Some e, m1)
         | Inr ds \<Rightarrow> walkEntries k names cap src dst rel ds m1)))"
| "walkEntries k names cap src dst rel [] m = Some (None, m)"
| "walkEntries k names cap src dst rel ((c, isDir) # ds) m = (case walkDir k names cap src dst (rel @ [c]) isDir m of
     None \<Rightarrow> None
   | Some (Some e, m1) \<Rightarrow> Some (Some e, m1)
   | Some (None, m1) \<Rightarrow> walkEntries k names cap src dst rel ds m1)"

definition copyDir :: "nat \<Rightarrow> string list \<Rightarrow> nat option \<Rightarrow> string \<Rightarrow> string \<Rightarrow> nodes \<Rightarrow> (oserr option \<times> nodes) option" where
  "copyDir fuel names cap src dst m =
     (case (if src = [] then Inl ENOENT else os_Stat m src) of
        Inl e \<Rightarrow> Some (Some e, m)
      | Inr n \<Rightarrow> walkDir fuel names cap (path_of src) (path_of dst) [] (n = Dir) m)"

text \<open>The exit status and the file system that is left.\<close>
definition copydist_main :: "nat \<Rightarrow> string list \<Rightarrow> nat option \<Rightarrow> string list \<Rightarrow> nodes \<Rightarrow> (nat \<times> nodes) option" where
  "copydist_main fuel names cap osArgs m = (case osArgs of
     [prog, src, dst] \<Rightarrow> (case os_RemoveAll m dst of
         (Some e, m1) \<Rightarrow> Some (1, m1)
       | (None, m1) \<Rightarrow> (case copyDir fuel names cap src dst m1 of
           None \<Rightarrow> None
         | Some (Some e, m2) \<Rightarrow> Some (1, m2)
         | Some (None, m2) \<Rightarrow> Some (0, m2)))
   | _ \<Rightarrow> Some (2, m))"

subsection \<open>Grafting a tree\<close>

text \<open>The file system in which the tree below \<open>s @ rel\<close> has been copied to \<open>d @ rel\<close>.\<close>
definition graft :: "path \<Rightarrow> path \<Rightarrow> path \<Rightarrow> nodes \<Rightarrow> nodes" where
  "graft s d rel m q = (if prefix (d @ rel) q then m (s @ drop (length d) q) else m q)"

lemma graft_simps [simp]:
  "graft s d rel m (d @ rel @ x) = m (s @ rel @ x)" "\<not> prefix (d @ rel) q \<Longrightarrow> graft s d rel m q = m q"
  by (simp_all add: graft_def)

definition apart :: "path \<Rightarrow> path \<Rightarrow> bool" where
  "apart s d \<longleftrightarrow> \<not> prefix s d \<and> \<not> prefix d s"

lemma apart_prefix: "apart s d \<Longrightarrow> \<not> prefix (d @ x) (s @ y)"
  using prefix_same_cases [of d "s @ y" s] append_prefixD [of d x "s @ y"] by (auto simp: apart_def)

lemma apart_neq: "apart s d \<Longrightarrow> s @ x \<noteq> d @ y"
  using apart_prefix [of s d y x] by auto

lemma mkdir_last_aux:
  "(\<forall>ds. prefix ds cs \<longrightarrow> ds \<noteq> [] \<longrightarrow> m (pre @ ds) = Some Dir) \<Longrightarrow> m (pre @ cs @ [c]) = None \<Longrightarrow>
    mkdir_all m pre (cs @ [c]) = (None, m(pre @ cs @ [c] \<mapsto> Dir))"
proof (induction cs arbitrary: pre)
  case (Cons x cs)
  have "m (pre @ [x]) = Some Dir" using Cons.prems(1) by (auto dest: spec [of _ "[x]"])
  moreover have "\<forall>ds. prefix ds cs \<longrightarrow> ds \<noteq> [] \<longrightarrow> m ((pre @ [x]) @ ds) = Some Dir"
    using Cons.prems(1) by (auto dest: spec [of _ "x # _"])
  ultimately show ?case using Cons.IH [of "pre @ [x]"] Cons.prems(2) by simp
qed simp

lemma mkdir_last:
  assumes "fs_tree m" "p \<noteq> []" "m (butlast p) = Some Dir" "m p = None"
  shows "mkdir_all m [] p = (None, m(p \<mapsto> Dir))"
proof -
  have "m ds = Some Dir" if "prefix ds (butlast p)" for ds
    using that assms(1,3) fs_tree_prefix [of m ds] by (auto simp: prefix_def) (metis append_Nil2)
  with mkdir_last_aux [of "butlast p" m "[]" "last p"] assms(2,4) show ?thesis by simp
qed

lemma graft_tree:
  assumes "fs_tree m" "apart s d" "m (butlast (d @ rel)) = Some Dir"
  shows "fs_tree (graft s d rel m)"
  unfolding fs_tree_def
proof (intro conjI allI impI)
  have ne: "d @ rel \<noteq> []" using assms(2) by (auto simp: apart_def)
  then show "graft s d rel m [] = Some Dir" using assms(1) by (simp add: fs_tree_def)
  fix q n assume q: "graft s d rel m q = Some n" "q \<noteq> []"
  show "graft s d rel m (butlast q) = Some Dir"
  proof (cases "prefix (d @ rel) q")
    case False
    then have "\<not> prefix (d @ rel) (butlast q)" by (meson prefix_order.trans prefixeq_butlast)
    with False q assms(1) show ?thesis by (simp add: fs_tree_def)
  next
    case True
    then obtain x where x: "q = d @ rel @ x" by (auto simp: prefix_def)
    show ?thesis
    proof (cases "x = []")
      case True
      with x ne have "length (butlast q) < length (d @ rel)" by (metis append_Nil2 diff_less length_butlast length_greater_0_conv zero_less_one)
      then have "\<not> prefix (d @ rel) (butlast q)" by (meson leD prefix_length_le)
      with True x assms(3) show ?thesis by simp
    next
      case False
      then have "m (s @ rel @ butlast x) = Some Dir"
        using q(1) assms(1) fs_tree_prefix [of m "s @ rel @ butlast x" "[last x]" n] by (simp add: x)
      moreover have "butlast q = d @ rel @ butlast x" using False x by (simp add: butlast_append)
      ultimately show ?thesis by simp
    qed
  qed
qed

text \<open>Entries whose trees have been copied, one after the other.\<close>
definition graft_all :: "path \<Rightarrow> path \<Rightarrow> path \<Rightarrow> string set \<Rightarrow> nodes \<Rightarrow> nodes" where
  "graft_all s d rel C m q = (if \<exists>c \<in> C. prefix (d @ rel @ [c]) q then m (s @ drop (length d) q) else m q)"

lemma graft_all_step:
  assumes "apart s d"
  shows "graft_all s d rel C (graft s d (rel @ [c]) m) = graft_all s d rel (insert c C) m"
proof
  fix q
  have "graft s d (rel @ [c]) m (s @ x) = m (s @ x)" for x
    using apart_prefix [OF assms] by simp
  then show "graft_all s d rel C (graft s d (rel @ [c]) m) q = graft_all s d rel (insert c C) m q"
    by (auto simp: graft_all_def graft_def)
qed

text \<open>Grafting the entries of a new directory is grafting the directory.\<close>
lemma graft_dir:
  assumes "fs_tree m" "apart s d" "m (s @ rel) = Some Dir" "\<forall>x. m (d @ rel @ x) = None" "{c. m (s @ rel @ [c]) \<noteq> None} \<subseteq> C"
  shows "graft_all s d rel C (m(d @ rel \<mapsto> Dir)) = graft s d rel m"
proof
  fix q
  show "graft_all s d rel C (m(d @ rel \<mapsto> Dir)) q = graft s d rel m q"
  proof (cases "prefix (d @ rel) q")
    case False
    then have "\<not> prefix (d @ rel @ [c]) q" for c by (metis append_assoc append_prefixD)
    with False show ?thesis by (auto simp: graft_all_def)
  next
    case True
    then obtain x where x: "q = d @ rel @ x" by (auto simp: prefix_def)
    have ne: "s @ y \<noteq> d @ rel" for y using apart_neq [OF assms(2)] .
    show ?thesis
    proof (cases x)
      case Nil
      with x assms(3) show ?thesis by (simp add: graft_all_def graft_def)
    next
      case (Cons c y)
      have pre: "(\<exists>c' \<in> C. prefix (d @ rel @ [c']) q) \<longleftrightarrow> c \<in> C" by (simp add: x Cons)
      show ?thesis
      proof (cases "c \<in> C")
        case True
        with pre ne Cons x show ?thesis by (simp add: graft_all_def graft_def)
      next
        case False
        then have "m (s @ rel @ [c]) = None" using assms(5) by blast
        then have "m (s @ rel @ c # y) = None"
          using fs_tree_prefix [OF assms(1), of "s @ rel @ [c]" y] by (cases "m (s @ rel @ c # y)"; cases "y = []") auto
        with False pre Cons x assms(4) [rule_format, of "c # y"] show ?thesis by (simp add: graft_all_def graft_def)
      qed
    qed
  qed
qed

lemma copyFile_graft:
  assumes "fs_tree m" "apart s d" "m (s @ rel) = Some (File b)" "\<forall>x. m (d @ rel @ x) = None" "m (butlast (d @ rel)) = Some Dir"
  shows "copyFile None (s @ rel) (d @ rel) m = (None, graft s d rel m)"
proof -
  have "graft s d rel m = m(d @ rel \<mapsto> File b)"
  proof
    fix q
    have "m (s @ rel @ x) = None" if "x \<noteq> []" for x
      using that assms(1,3) fs_tree_prefix [of m "s @ rel" x] by (cases "m (s @ rel @ x)") auto
    then have eq: "graft s d rel m (d @ rel @ x) = (m(d @ rel \<mapsto> File b)) (d @ rel @ x)" for x
      using assms(3,4) graft_simps(1) [of s d rel m x] by (cases "x = []") auto
    show "graft s d rel m q = (m(d @ rel \<mapsto> File b)) q"
    proof (cases "prefix (d @ rel) q")
      case True
      then obtain x where "q = d @ rel @ x" by (auto simp: prefix_def)
      with eq show ?thesis by blast
    qed auto
  qed
  moreover have "walk m [] (s @ rel) = Inr (File b)" "walk m [] (butlast (d @ rel)) = Inr Dir"
    using assms(3,5) by (simp_all add: walk_tree [OF assms(1)])
  moreover have "m (d @ rel) = None" using assms(4) by (metis append_Nil2)
  ultimately show ?thesis using apart_neq [OF assms(2), of rel rel] assms(3)
    by (simp add: copyFile_def create_path_def Let_def io_Copy_def content_def bytes_reader_def mk_reader_def end_err_def)
qed

subsection \<open>Walking\<close>

text \<open>What lets the copy of the tree at \<open>s @ rel\<close> succeed with fuel \<open>k\<close>.\<close>
definition copy_ready :: "string list \<Rightarrow> path \<Rightarrow> path \<Rightarrow> nat \<Rightarrow> path \<Rightarrow> nodes \<Rightarrow> bool" where
  "copy_ready names s d k rel m \<longleftrightarrow> fs_tree m \<and> (\<forall>x c. m (s @ x @ [c]) \<noteq> None \<longrightarrow> c \<in> set names)
     \<and> (\<forall>x. m (s @ rel @ x) \<noteq> None \<longrightarrow> length x < k) \<and> (\<forall>x. m (d @ rel @ x) = None) \<and> m (butlast (d @ rel)) = Some Dir"

lemma copy_ready_graft:
  assumes "apart s d" "copy_ready names s d k (rel @ [c]) m" "copy_ready names s d k (rel @ [c']) m" "c \<noteq> c'"
  shows "copy_ready names s d k (rel @ [c']) (graft s d (rel @ [c]) m)"
proof -
  have src: "graft s d (rel @ [c]) m (s @ x) = m (s @ x)" for x using apart_prefix [OF assms(1)] by simp
  have dst: "graft s d (rel @ [c]) m (d @ (rel @ [c']) @ x) = m (d @ (rel @ [c']) @ x)" for x
    using assms(4) by (simp add: graft_def)
  have "length (d @ rel) < length (d @ rel @ [c])" by simp
  then have "\<not> prefix (d @ rel @ [c]) (d @ rel)" by (meson leD prefix_length_le)
  then have par: "graft s d (rel @ [c]) m (d @ rel) = m (d @ rel)" by simp
  have "fs_tree (graft s d (rel @ [c]) m)" using assms(2) by (intro graft_tree assms(1)) (auto simp: copy_ready_def)
  then show ?thesis using assms(3) src dst par unfolding copy_ready_def by (simp add: butlast_append)
qed

lemma entries_copied:
  assumes "apart s d"
    and walk: "\<And>rel n m. copy_ready names s d k rel m \<Longrightarrow> m (s @ rel) = Some n \<Longrightarrow>
      walkDir k names None s d rel (n = Dir) m = Some (None, graft s d rel m)"
    and "distinct (map fst ds)" "\<forall>(c, b) \<in> set ds. copy_ready names s d k (rel @ [c]) m \<and> m (s @ rel @ [c]) \<noteq> None
      \<and> b = (m (s @ rel @ [c]) = Some Dir)"
  shows "walkEntries k names None s d rel ds m = Some (None, graft_all s d rel (fst ` set ds) m)"
  using assms(3,4)
proof (induction ds arbitrary: m)
  case Nil
  show ?case by (simp add: graft_all_def fun_eq_iff)
next
  case (Cons cb ds)
  obtain c b where cb: "cb = (c, b)" by (cases cb)
  let ?m1 = "graft s d (rel @ [c]) m"
  have rc: "copy_ready names s d k (rel @ [c]) m" using Cons.prems(2) by (simp add: cb)
  obtain n where n: "m (s @ rel @ [c]) = Some n" "b = (n = Dir)" using Cons.prems(2) by (auto simp: cb)
  have src: "?m1 (s @ x) = m (s @ x)" for x using apart_prefix [OF assms(1)] by simp
  have "walkEntries k names None s d rel ds ?m1 = Some (None, graft_all s d rel (fst ` set ds) ?m1)"
  proof (rule Cons.IH)
    have "copy_ready names s d k (rel @ [c']) ?m1" if "(c', b') \<in> set ds" for c' b'
    proof (rule copy_ready_graft [OF assms(1) rc])
      show "copy_ready names s d k (rel @ [c']) m" using Cons.prems(2) that by (auto simp: cb)
      show "c \<noteq> c'" using Cons.prems(1) that by (force simp: cb)
    qed
    with Cons.prems(2) show "\<forall>(c, b) \<in> set ds. copy_ready names s d k (rel @ [c]) ?m1 \<and> ?m1 (s @ rel @ [c]) \<noteq> None
        \<and> b = (?m1 (s @ rel @ [c]) = Some Dir)"
      unfolding src by (auto simp: cb)
  qed (use Cons.prems(1) in simp)
  moreover have "walkDir k names None s d (rel @ [c]) b m = Some (None, ?m1)" using walk [OF rc, of n] n by simp
  ultimately show ?case by (simp add: cb graft_all_step [OF assms(1)])
qed

lemma copy_ready_entry:
  assumes "apart s d" "copy_ready names s d (Suc k) rel m"
  shows "copy_ready names s d k (rel @ [c]) (m(d @ rel \<mapsto> Dir))"
proof -
  let ?m = "m(d @ rel \<mapsto> Dir)"
  note r = assms(2) [unfolded copy_ready_def]
  have src: "?m (s @ x) = m (s @ x)" for x using apart_neq [OF assms(1), of x rel] by simp
  have "fs_tree ?m" using r by (auto simp: fs_tree_def apart_def)
  moreover have "length x < k" if "m (s @ rel @ [c] @ x) \<noteq> None" for x
    using r that by (metis Suc_less_SucD append_Cons append_Nil length_Cons)
  moreover have "?m (d @ (rel @ [c]) @ x) = None" for x using r by simp
  ultimately show ?thesis using r src unfolding copy_ready_def by (simp add: butlast_append)
qed

lemma tree_copied:
  assumes "apart s d" "distinct names"
  shows "copy_ready names s d k rel m \<Longrightarrow> m (s @ rel) = Some n \<Longrightarrow>
    walkDir k names None s d rel (n = Dir) m = Some (None, graft s d rel m)"
proof (induction k arbitrary: rel m n)
  case 0
  then show ?case by (auto simp: copy_ready_def dest: spec [of _ "[]"])
next
  case (Suc k)
  note r = Suc.prems(1) [unfolded copy_ready_def]
  have free: "m (d @ rel) = None" using r by (metis append_Nil2)
  show ?case
  proof (cases n)
    case (File b)
    with copyFile_graft [OF _ assms(1)] Suc.prems(2) r show ?thesis by (simp add: copy_visit_def)
  next
    case Dir
    define m1 where "m1 = m(d @ rel \<mapsto> Dir)"
    let ?cs = "filter (\<lambda>c. m (s @ rel @ [c]) \<noteq> None) names"
    have src: "m1 (s @ x) = m (s @ x)" for x using apart_neq [OF assms(1), of x rel] by (simp add: m1_def)
    have mk: "mkdir_all m [] (d @ rel) = (None, m1)" unfolding m1_def
    proof (rule mkdir_last)
      show "d @ rel \<noteq> []" using assms(1) by (auto simp: apart_def)
    qed (use r free in auto)
    have ready: "copy_ready names s d k (rel @ [c]) m1" for c unfolding m1_def by (rule copy_ready_entry [OF assms(1) Suc.prems(1)])
    have "walk m1 [] (s @ rel) = Inr Dir"
      using ready Suc.prems(2) Dir src [of rel] by (subst walk_tree) (simp_all add: copy_ready_def)
    then have rd: "os_ReadDir names m1 (s @ rel) = Inr (map (\<lambda>c. (c, m (s @ rel @ [c]) = Some Dir)) ?cs)"
      by (simp add: os_ReadDir_def src)
    have "walkEntries k names None s d rel (map (\<lambda>c. (c, m (s @ rel @ [c]) = Some Dir)) ?cs) m1
        = Some (None, graft_all s d rel (set ?cs) m1)"
      using entries_copied [OF assms(1) Suc.IH, of "map (\<lambda>c. (c, m (s @ rel @ [c]) = Some Dir)) ?cs" rel m1]
        ready src assms(2) by (auto simp: comp_def image_comp)
    moreover have "graft_all s d rel (set ?cs) m1 = graft s d rel m" unfolding m1_def
    proof (rule graft_dir [OF _ assms(1)])
      show "{c. m (s @ rel @ [c]) \<noteq> None} \<subseteq> set ?cs" using r by (auto simp flip: append_assoc)
    qed (use r Suc.prems(2) Dir in auto)
    ultimately show ?thesis by (simp add: Dir copy_visit_def mk rd)
  qed
qed

subsection \<open>A destination inside the source\<close>

lemma filter_single: "distinct xs \<Longrightarrow> c \<in> set xs \<Longrightarrow> filter (\<lambda>d. d = c) xs = [c]"
  by (induction xs) (auto simp: filter_empty_conv)

text \<open>The walk finds the directory it has just made, one level further down each time.\<close>
lemma walk_chases:
  assumes "distinct names" "c \<in> set names"
  shows "fs_tree m \<Longrightarrow> \<forall>x. m (s @ x) = (if \<exists>j \<le> n. x = replicate j c then Some Dir else None) \<Longrightarrow>
    walkDir k names cap s (s @ [c]) (replicate n c) True m = None"
proof (induction k arbitrary: m n)
  case (Suc k)
  let ?p = "s @ replicate (Suc n) c"
  define m1 where "m1 = m(?p \<mapsto> Dir)"
  have p: "(s @ [c]) @ replicate n c = ?p" "butlast ?p = s @ replicate n c"
    by (simp_all add: butlast_append flip: replicate_append_same)
  have old: "m (s @ replicate n c) = Some Dir" "m ?p = None" using Suc.prems(2) by (auto dest: arg_cong [of _ _ length])
  have mk: "mkdir_all m [] ?p = (None, m1)" unfolding m1_def
    by (rule mkdir_last [OF Suc.prems(1)]) (use old p(2) in simp_all)
  have tree: "fs_tree m1" using Suc.prems(1) old p(2) by (auto simp: m1_def fs_tree_def)
  have m1: "\<forall>x. m1 (s @ x) = (if \<exists>j \<le> Suc n. x = replicate j c then Some Dir else None)"
    using Suc.prems(2) by (auto simp: m1_def le_Suc_eq)
  have child: "m1 (s @ replicate n c @ [d]) = (if d = c then Some Dir else None)" for d
  proof (cases "d = c")
    case True
    then have "replicate n c @ [d] = replicate (Suc n) c" by (simp add: replicate_append_same)
    with m1 True show ?thesis by auto
  next
    case False
    have "replicate n c @ [d] \<noteq> replicate j c" for j
      using False by (metis in_set_conv_decomp in_set_replicate)
    with m1 False show ?thesis by simp
  qed
  have "walk m1 [] (s @ replicate n c) = Inr Dir" using walk_tree [OF tree] m1 by auto
  then have rd: "os_ReadDir names m1 (s @ replicate n c) = Inr [(c, True)]"
    using filter_single [OF assms] by (simp add: os_ReadDir_def child)
  have "walkDir k names cap s (s @ [c]) (replicate (Suc n) c) True m1 = None" by (rule Suc.IH [OF tree m1])
  then show ?case using mk rd p(1) by (simp add: copy_visit_def replicate_append_same)
qed simp

subsection \<open>Properties\<close>

lemma RemoveAll_tree:
  assumes "fs_tree m" "dst \<noteq> []" "last (split_on (CHR ''/'') dst) \<noteq> ''.''" "path_of dst \<noteq> []" "m (butlast (path_of dst)) = Some Dir"
  shows "os_RemoveAll m dst = (None, \<lambda>q. if prefix (path_of dst) q then None else m q)"
    and "fs_tree (\<lambda>q. if prefix (path_of dst) q then None else m q)"
proof -
  have "walk m [] (butlast (path_of dst)) = Inr Dir" using walk_tree [OF assms(1)] assms(5) by simp
  then show "os_RemoveAll m dst = (None, \<lambda>q. if prefix (path_of dst) q then None else m q)"
    using assms(2,3) by (simp add: os_RemoveAll_def Let_def)
  show "fs_tree (\<lambda>q. if prefix (path_of dst) q then None else m q)"
    using assms(1,4) by (auto simp: fs_tree_def) (meson prefix_order.trans prefixeq_butlast)
qed

text \<open>
  C33. \<open>copydist\<close> copies: from a source that exists to a destination neither of which lies inside the
  other, below a directory that exists, it ends with status 0, whatever was at the destination
  before; the destination is then an exact copy of the source, with nothing else in it, and
  everything outside the destination is as it was. The recursion is no deeper than the tree.
\<close>
theorem copydist_copies:
  assumes "fs_tree m" "src \<noteq> []" "m (path_of src) = Some n" "apart (path_of src) (path_of dst)"
    and "dst \<noteq> []" "last (split_on (CHR ''/'') dst) \<noteq> ''.''" "m (butlast (path_of dst)) = Some Dir"
    and "distinct names" "\<forall>q. m q \<noteq> None \<longrightarrow> set q \<subseteq> set names \<and> length q < fuel"
  shows "\<exists>m'. copydist_main fuel names None [prog, src, dst] m = Some (0, m')
    \<and> (\<forall>x. m' (path_of dst @ x) = m (path_of src @ x)) \<and> (\<forall>q. \<not> prefix (path_of dst) q \<longrightarrow> m' q = m q)"
proof -
  let ?s = "path_of src" and ?d = "path_of dst"
  define m1 where "m1 = (\<lambda>q. if prefix ?d q then None else m q)"
  have d: "?d \<noteq> []" using assms(4) by (auto simp: apart_def)
  note rm = RemoveAll_tree [OF assms(1,5,6) d assms(7), folded m1_def]
  have src: "m1 (?s @ x) = m (?s @ x)" for x using apart_prefix [OF assms(4), of "[]" x] by (simp add: m1_def)
  have "length (butlast ?d) < length ?d" using d by simp
  then have "\<not> prefix ?d (butlast ?d)" by (meson leD prefix_length_le)
  then have par: "m1 (butlast ?d) = Some Dir" using assms(7) by (simp add: m1_def)
  have "c \<in> set names" if "m (?s @ x @ [c]) \<noteq> None" for x c using assms(9) that by fastforce
  moreover have "length x < fuel" if "m (?s @ x) \<noteq> None" for x using assms(9) that by fastforce
  ultimately have "copy_ready names ?s ?d fuel [] m1"
    using rm(2) par src by (simp add: copy_ready_def) (simp add: m1_def)
  moreover have n: "m1 ?s = Some n" using src [of "[]"] assms(3) by simp
  ultimately have "walkDir fuel names None ?s ?d [] (n = Dir) m1 = Some (None, graft ?s ?d [] m1)"
    using tree_copied [OF assms(4,8), of fuel "[]" m1 n] by simp
  moreover have "os_Stat m1 src = Inr n" using n walk_tree [OF rm(2)] by (simp add: os_Stat_def)
  ultimately have "copydist_main fuel names None [prog, src, dst] m = Some (0, graft ?s ?d [] m1)"
    using rm(1) assms(2) by (simp add: copydist_main_def copyDir_def)
  moreover have "graft ?s ?d [] m1 (?d @ x) = m (?s @ x)" for x using graft_simps(1) [of ?s ?d "[]" m1 x] src by simp
  moreover have "graft ?s ?d [] m1 q = m q" if "\<not> prefix ?d q" for q using that by (simp add: m1_def)
  ultimately show ?thesis by blast
qed

text \<open>
  C38. A destination inside the source: copying a directory into a directory below it, with
  nothing else in the source, never ends; the walk goes into every directory that it makes, and
  only the operating system's limit on the length of a path, which is not part of the model, stops it.
\<close>
theorem copydist_into_itself:
  assumes "fs_tree m" "src \<noteq> []" "m (path_of src) = Some Dir" "path_of dst = path_of src @ [c]"
    and "dst \<noteq> []" "last (split_on (CHR ''/'') dst) \<noteq> ''.''"
    and "\<forall>x. x \<noteq> [] \<longrightarrow> hd x \<noteq> c \<longrightarrow> m (path_of src @ x) = None" "distinct names" "c \<in> set names"
  shows "copydist_main fuel names cap [prog, src, dst] m = None"
proof -
  let ?s = "path_of src"
  define m1 where "m1 = (\<lambda>q. if prefix (path_of dst) q then None else m q)"
  have "path_of dst \<noteq> []" "butlast (path_of dst) = ?s" using assms(4) by simp_all
  with RemoveAll_tree [OF assms(1,5,6)] assms(3) have rm: "os_RemoveAll m dst = (None, m1)" "fs_tree m1" by (simp_all add: m1_def)
  have m1: "m1 (?s @ x) = (if x = [] then Some Dir else None)" for x
  proof (cases x)
    case Nil
    with assms(3,4) show ?thesis by (simp add: m1_def)
  next
    case (Cons e y)
    with assms(4) assms(7) [rule_format, of x] show ?thesis by (cases "e = c") (auto simp: m1_def)
  qed
  then have "os_Stat m1 src = Inr Dir" using walk_tree [OF rm(2), of ?s Dir] m1 [of "[]"] by (simp add: os_Stat_def)
  moreover have "walkDir fuel names cap ?s (?s @ [c]) (replicate 0 c) True m1 = None"
    by (rule walk_chases [OF assms(8,9) rm(2)]) (simp add: m1)
  ultimately show ?thesis using rm(1) assms(2,4) by (simp add: copydist_main_def copyDir_def)
qed

subsection \<open>Witnesses\<close>

definition toy_disk :: nodes where
  "toy_disk = [[] \<mapsto> Dir, [''a''] \<mapsto> Dir, [''a'', ''f''] \<mapsto> File [1], [''b''] \<mapsto> File [2]]"

theorem copydist_copies_witness:
  "\<exists>m'. copydist_main 3 [''a'', ''b'', ''f''] None [''copydist'', ''a'', ''b''] toy_disk = Some (0, m')
     \<and> m' [''b'', ''f''] = Some (File [1])"
proof -
  have p: "path_of ''a'' = [''a'']" "path_of ''b'' = [''b'']" by (simp_all add: path_of_def push_comp_def)
  have "fs_tree toy_disk" by (auto simp: fs_tree_def toy_disk_def split: if_splits)
  moreover have "\<forall>q. toy_disk q \<noteq> None \<longrightarrow> set q \<subseteq> set [''a'', ''b'', ''f''] \<and> length q < 3"
    by (auto simp: toy_disk_def split: if_splits)
  ultimately obtain m' where "copydist_main 3 [''a'', ''b'', ''f''] None [''copydist'', ''a'', ''b''] toy_disk = Some (0, m')"
    "\<forall>x. m' (path_of ''b'' @ x) = toy_disk (path_of ''a'' @ x)"
    using copydist_copies [of toy_disk "''a''" Dir "''b''" "[''a'', ''b'', ''f'']" 3 "''copydist''"] p
    by (auto simp: apart_def toy_disk_def)
  then show ?thesis using p by (auto simp: toy_disk_def dest: spec [of _ "[''f'']"])
qed

theorem copydist_into_itself_witness:
  "copydist_main 1000 [''a'', ''b''] None [''copydist'', ''a'', ''a/b''] [[] \<mapsto> Dir, [''a''] \<mapsto> Dir] = None"
proof -
  have "path_of ''a'' = [''a'']" "path_of ''a/b'' = [''a''] @ [''b'']" by (simp_all add: path_of_def push_comp_def)
  moreover have "fs_tree [[] \<mapsto> Dir, [''a''] \<mapsto> Dir]" by (auto simp: fs_tree_def split: if_splits)
  ultimately show ?thesis
    by (intro copydist_into_itself [where c = "''b''"]) simp_all
qed

end
