(* ===== verification/Database.thy ===== *)
theory Database
  imports Storage_Crypto "HOL-Library.Char_ord" "HOL-Library.List_Lexorder"
begin

text \<open>
  The Postgres database of \<open>db/migrations\<close> with the row types of \<open>drivepool/manifest/models.go\<close>
  and \<open>backend/authdb\<close>: tables as lists of rows in insertion order, the statements the program
  issues, and the constraints the schema declares (primary keys, unique pairs, foreign keys with
  their ON DELETE actions). A statement may also fail for reasons outside the program: the list
  \<open>db_faults\<close> says, statement by statement, which ones do. \<open>db_ok\<close> is the invariant the schema
  enforces.
\<close>

subsection \<open>Rows\<close>

record token =
  tok_AccessToken :: string
  tok_TokenType :: string
  tok_RefreshToken :: string
  tok_Expiry :: int

record user_row =
  u_ID :: string
  u_Username :: string
  u_PasswordHash :: string
  u_CreatedAt :: int

record account_row =
  a_ID :: string
  a_UserID :: string
  a_Label :: string
  a_TokenCiphertext :: bytes
  a_AddedAt :: int
  a_QuotaLimit :: "int option"
  a_QuotaUsage :: "int option"
  a_QuotaCheckedAt :: "int option"
  a_Token :: "token option"  \<comment> \<open>transient, not a column\<close>

datatype vf_status = StatusComplete | StatusIncomplete | StatusDeleted

record virtual_file =
  vf_ID :: int
  vf_UserID :: string
  vf_Name :: string
  vf_Size :: int
  vf_ContentHash :: string
  vf_ChunkSize :: int
  vf_FileKey :: bytes
  vf_Replicas :: int
  vf_Version :: int
  vf_Status :: vf_status
  vf_CreatedAt :: int
  vf_ModifiedAt :: int

record chunk =
  c_ID :: int
  c_UserID :: string
  c_VirtualFileID :: int
  c_Index :: int
  c_AccountID :: "string option"
  c_RemoteFileID :: string
  c_RemoteFolderID :: string
  c_PlaintextSize :: int
  c_PlaintextSHA256 :: string
  c_CiphertextMD5 :: string
  c_CompressionAlgo :: compression
  c_CompressedSize :: int
  c_UploadedAt :: int

record db =
  db_users :: "user_row list"
  db_accounts :: "account_row list"
  db_vfiles :: "virtual_file list"
  db_chunks :: "chunk list"
  db_vfseq :: int  \<comment> \<open>the last value drawn from the BIGSERIAL of \<open>virtual_files\<close>\<close>
  db_chunkseq :: int
  db_faults :: "string option list"

datatype merror =
    ErrNotFound | ErrNameExists
  | UniqueViolation | FKViolation | DBErr string
  | MarshalErr string | EncryptTokenErr crypt_err | DecryptTokenErr crypt_err | UnmarshalErr string
  | PanicEmptyUser

subsection \<open>Statements\<close>

text \<open>\<open>db.IsUniqueViolation\<close>: SQLSTATE 23505.\<close>
definition IsUniqueViolation :: "merror \<Rightarrow> bool" where
  "IsUniqueViolation e \<longleftrightarrow> e = UniqueViolation"

text \<open>One statement against the server: it runs unless this is one that fails.\<close>
definition query :: "(db \<Rightarrow> (merror, 'a) result \<times> db) \<Rightarrow> db \<Rightarrow> (merror, 'a) result \<times> db" where
  "query f d = (case db_faults d of
     [] \<Rightarrow> f d
   | None # fs \<Rightarrow> f (d\<lparr>db_faults := fs\<rparr>)
   | Some e # fs \<Rightarrow> (Inl (DBErr e), d\<lparr>db_faults := fs\<rparr>))"

definition sql_insert_user :: "user_row \<Rightarrow> db \<Rightarrow> (merror, user_row) result \<times> db" where
  "sql_insert_user u d =
     (if list_ex (\<lambda>v. u_ID v = u_ID u \<or> u_Username v = u_Username u) (db_users d)
      then (Inl UniqueViolation, d)
      else (Inr u, d\<lparr>db_users := db_users d @ [u]\<rparr>))"

definition sql_insert_account :: "account_row \<Rightarrow> db \<Rightarrow> (merror, unit) result \<times> db" where
  "sql_insert_account a d =
     (if list_ex (\<lambda>b. a_ID b = a_ID a \<or> a_UserID b = a_UserID a \<and> a_Label b = a_Label a) (db_accounts d)
      then (Inl UniqueViolation, d)
      else if \<not> list_ex (\<lambda>u. u_ID u = a_UserID a) (db_users d) then (Inl FKViolation, d)
      else (Inr (), d\<lparr>db_accounts := db_accounts d @ [a\<lparr>a_Token := None\<rparr>]\<rparr>))"

text \<open>A sequence number is used up even when the insert fails.\<close>
definition sql_insert_vfile :: "virtual_file \<Rightarrow> db \<Rightarrow> (merror, virtual_file) result \<times> db" where
  "sql_insert_vfile vf d =
     (let i = db_vfseq d + 1; d1 = d\<lparr>db_vfseq := i\<rparr>; row = vf\<lparr>vf_ID := i\<rparr> in
      if list_ex (\<lambda>w. vf_UserID w = vf_UserID vf \<and> vf_Name w = vf_Name vf) (db_vfiles d)
      then (Inl UniqueViolation, d1)
      else if \<not> list_ex (\<lambda>u. u_ID u = vf_UserID vf) (db_users d) then (Inl FKViolation, d1)
      else (Inr row, d1\<lparr>db_vfiles := db_vfiles d @ [row]\<rparr>))"

definition sql_insert_chunk :: "chunk \<Rightarrow> db \<Rightarrow> (merror, unit) result \<times> db" where
  "sql_insert_chunk c d =
     (let i = db_chunkseq d + 1; d1 = d\<lparr>db_chunkseq := i\<rparr>; row = c\<lparr>c_ID := i\<rparr> in
      if list_ex (\<lambda>x. c_VirtualFileID x = c_VirtualFileID c \<and> c_Index x = c_Index c) (db_chunks d)
      then (Inl UniqueViolation, d1)
      else if \<not> list_ex (\<lambda>u. u_ID u = c_UserID c) (db_users d)
           \<or> \<not> list_ex (\<lambda>v. vf_ID v = c_VirtualFileID c) (db_vfiles d)
           \<or> (case c_AccountID c of None \<Rightarrow> False | Some i \<Rightarrow> \<not> list_ex (\<lambda>a. a_ID a = i) (db_accounts d))
      then (Inl FKViolation, d1)
      else (Inr (), d1\<lparr>db_chunks := db_chunks d @ [row]\<rparr>))"

text \<open>DELETE FROM accounts: chunks of a deleted account lose their reference (ON DELETE SET NULL).\<close>
definition unlink :: "string set \<Rightarrow> chunk \<Rightarrow> chunk" where
  "unlink gone c = (case c_AccountID c of
     None \<Rightarrow> c | Some i \<Rightarrow> if i \<in> gone then c\<lparr>c_AccountID := None\<rparr> else c)"

definition sql_delete_accounts :: "(account_row \<Rightarrow> bool) \<Rightarrow> db \<Rightarrow> (merror, nat) result \<times> db" where
  "sql_delete_accounts Q d =
     (Inr (length (filter Q (db_accounts d))),
      d\<lparr>db_accounts := filter (\<lambda>a. \<not> Q a) (db_accounts d),
        db_chunks := map (unlink (a_ID ` set (filter Q (db_accounts d)))) (db_chunks d)\<rparr>)"

text \<open>DELETE FROM virtual\_files: the chunks go with the file (ON DELETE CASCADE).\<close>
definition sql_delete_vfiles :: "(virtual_file \<Rightarrow> bool) \<Rightarrow> db \<Rightarrow> (merror, nat) result \<times> db" where
  "sql_delete_vfiles Q d =
     (let gone = map vf_ID (filter Q (db_vfiles d)) in
      (Inr (length gone),
       d\<lparr>db_vfiles := filter (\<lambda>v. \<not> Q v) (db_vfiles d),
         db_chunks := filter (\<lambda>c. c_VirtualFileID c \<notin> set gone) (db_chunks d)\<rparr>))"

definition sql_update_accounts ::
  "(account_row \<Rightarrow> bool) \<Rightarrow> (account_row \<Rightarrow> account_row) \<Rightarrow> db \<Rightarrow> (merror, nat) result \<times> db"
where
  "sql_update_accounts Q f d = (Inr (length (filter Q (db_accounts d))),
     d\<lparr>db_accounts := map (\<lambda>a. if Q a then f a else a) (db_accounts d)\<rparr>)"

definition sql_update_vfiles ::
  "(virtual_file \<Rightarrow> bool) \<Rightarrow> (virtual_file \<Rightarrow> virtual_file) \<Rightarrow> db \<Rightarrow> (merror, nat) result \<times> db"
where
  "sql_update_vfiles Q f d = (Inr (length (filter Q (db_vfiles d))),
     d\<lparr>db_vfiles := map (\<lambda>v. if Q v then f v else v) (db_vfiles d)\<rparr>)"

text \<open>
  The LIKE operator with \<open>%\<close>, \<open>_\<close> and the backslash escape (one byte per character; the patterns of
  the program always end in \<open>%\<close>, so a trailing escape cannot occur).
\<close>
fun sql_like :: "string \<Rightarrow> string \<Rightarrow> bool" where
  "sql_like [] s = (s = [])"
| "sql_like (p # ps) [] = (p = CHR ''%'' \<and> sql_like ps [])"
| "sql_like (p # ps) (c # s) =
     (if p = CHR ''%'' then sql_like ps (c # s) \<or> sql_like (p # ps) s
      else if p = CHR ''_'' then sql_like ps s
      else if p = CHR 0x5C then (case ps of [] \<Rightarrow> False | q # qs \<Rightarrow> q = c \<and> sql_like qs s)
      else p = c \<and> sql_like ps s)"

subsection \<open>The invariant the schema enforces\<close>

definition uniq_on :: "('a \<Rightarrow> 'b) \<Rightarrow> 'a list \<Rightarrow> bool" where
  "uniq_on f xs \<longleftrightarrow> distinct (map f xs)"

definition db_ok :: "db \<Rightarrow> bool" where
  "db_ok d \<longleftrightarrow>
     uniq_on u_ID (db_users d) \<and> uniq_on u_Username (db_users d)
   \<and> uniq_on a_ID (db_accounts d) \<and> uniq_on (\<lambda>a. (a_UserID a, a_Label a)) (db_accounts d)
   \<and> uniq_on vf_ID (db_vfiles d) \<and> uniq_on (\<lambda>v. (vf_UserID v, vf_Name v)) (db_vfiles d)
   \<and> uniq_on (\<lambda>c. (c_VirtualFileID c, c_Index c)) (db_chunks d)
   \<and> (\<forall>a \<in> set (db_accounts d). a_UserID a \<in> u_ID ` set (db_users d))
   \<and> (\<forall>v \<in> set (db_vfiles d). vf_UserID v \<in> u_ID ` set (db_users d) \<and> vf_ID v \<le> db_vfseq d)
   \<and> (\<forall>c \<in> set (db_chunks d). c_UserID c \<in> u_ID ` set (db_users d)
        \<and> c_VirtualFileID c \<in> vf_ID ` set (db_vfiles d)
        \<and> (\<forall>i. c_AccountID c = Some i \<longrightarrow> i \<in> a_ID ` set (db_accounts d)))"

subsection \<open>Every statement keeps the invariant\<close>

text \<open>
  The invariant by its parts: what each table owes to itself, and the references between them.
\<close>

lemma uniq_on_simps [simp, db_simps]:
  "uniq_on f []"
  "uniq_on f (xs @ [x]) \<longleftrightarrow> uniq_on f xs \<and> f x \<notin> f ` set xs"
  by (auto simp: uniq_on_def)

lemma uniq_on_filter [intro]: "uniq_on f xs \<Longrightarrow> uniq_on f (filter Q xs)"
  by (simp add: uniq_on_def distinct_map_filter)

lemma uniq_on_map_same: "(\<And>x. f (g x) = f x) \<Longrightarrow> uniq_on f (map g xs) = uniq_on f xs"
  by (simp add: uniq_on_def comp_def)

lemma uniq_on_inj: "uniq_on f xs \<Longrightarrow> x \<in> set xs \<Longrightarrow> y \<in> set xs \<Longrightarrow> f x = f y \<Longrightarrow> x = y"
  by (auto simp: uniq_on_def distinct_map dest: inj_onD)

lemma db_okD:
  assumes "db_ok d"
  shows "uniq_on u_ID (db_users d)" "uniq_on u_Username (db_users d)"
    "uniq_on a_ID (db_accounts d)" "uniq_on (\<lambda>a. (a_UserID a, a_Label a)) (db_accounts d)"
    "uniq_on vf_ID (db_vfiles d)" "uniq_on (\<lambda>v. (vf_UserID v, vf_Name v)) (db_vfiles d)"
    "uniq_on (\<lambda>c. (c_VirtualFileID c, c_Index c)) (db_chunks d)"
    "a \<in> set (db_accounts d) \<Longrightarrow> a_UserID a \<in> u_ID ` set (db_users d)"
    "v \<in> set (db_vfiles d) \<Longrightarrow> vf_UserID v \<in> u_ID ` set (db_users d) \<and> vf_ID v \<le> db_vfseq d"
    "c \<in> set (db_chunks d) \<Longrightarrow> c_VirtualFileID c \<in> vf_ID ` set (db_vfiles d)"
    "c \<in> set (db_chunks d) \<Longrightarrow> c_AccountID c = Some i \<Longrightarrow> i \<in> a_ID ` set (db_accounts d)"
  using assms by (auto simp: db_ok_def)

lemma db_ok_faults [simp]: "db_ok (d\<lparr>db_faults := fs\<rparr>) = db_ok d"
  by (simp add: db_ok_def)

text \<open>A statement preserves a property \<open>I\<close> of databases that ignores the fault script.\<close>
lemma query_preserves:
  assumes "\<And>d. I d \<Longrightarrow> I (snd (f d))" "\<And>d fs. I (d\<lparr>db_faults := fs\<rparr>) = I d" "I d"
  shows "I (snd (query f d))"
  using assms by (auto simp: query_def split: list.splits option.splits)

lemma query_no_faults [simp, db_simps]: "db_faults d = [] \<Longrightarrow> query f d = f d"
  by (simp add: query_def)

text \<open>A statement either fails for an outside reason, changing no table, or runs.\<close>
lemma query_cases:
  assumes "query f d = (res, d')"
  obtains (fault) e fs where "res = Inl (DBErr e)" "d' = d\<lparr>db_faults := fs\<rparr>"
  | (runs) fs where "f (d\<lparr>db_faults := fs\<rparr>) = (res, d')"
proof (cases "db_faults d")
  case Nil
  then have eq: "d\<lparr>db_faults := []\<rparr> = d" by (cases d) simp
  from Nil assms have "f d = (res, d')" by (simp add: query_def)
  then show thesis using runs [of "[]"] unfolding eq by blast
next
  case (Cons x xs)
  with assms show thesis by (cases x) (auto simp: query_def intro: fault runs)
qed

lemma list_ex_image: "list_ex (\<lambda>x. f x = y) xs \<longleftrightarrow> y \<in> f ` set xs"
  by (auto simp: list_ex_iff)

lemma sql_insert_user_ok: "db_ok d \<Longrightarrow> db_ok (snd (sql_insert_user u d))"
  by (auto simp: sql_insert_user_def db_ok_def list_ex_iff)

lemma sql_insert_account_ok: "db_ok d \<Longrightarrow> db_ok (snd (sql_insert_account a d))"
  unfolding sql_insert_account_def list_ex_image by (auto simp: db_ok_def list_ex_iff)

lemma sql_insert_vfile_ok:
  assumes "db_ok d"
  shows "db_ok (snd (sql_insert_vfile v d))"
proof -
  let ?i = "db_vfseq d + 1"
  have old: "vf_ID w \<le> ?i" "vf_ID w \<noteq> ?i" if "w \<in> set (db_vfiles d)" for w
    using db_okD(9) [OF assms that] by auto
  have seq: "db_ok (d\<lparr>db_vfseq := ?i\<rparr>)" using assms old by (simp add: db_ok_def)
  show ?thesis
  proof (cases "list_ex (\<lambda>w. vf_UserID w = vf_UserID v \<and> vf_Name w = vf_Name v) (db_vfiles d)
      \<or> vf_UserID v \<notin> u_ID ` set (db_users d)")
    case True
    with seq show ?thesis by (auto simp: sql_insert_vfile_def Let_def list_ex_image)
  next
    case False
    then have "(vf_UserID v, vf_Name v) \<notin> (\<lambda>v. (vf_UserID v, vf_Name v)) ` set (db_vfiles d)"
      and "vf_UserID v \<in> u_ID ` set (db_users d)" by (auto simp: list_ex_iff)
    moreover have "?i \<notin> vf_ID ` set (db_vfiles d)" using old(2) by (metis imageE)
    ultimately show ?thesis
      using False seq by (simp add: sql_insert_vfile_def Let_def list_ex_image db_ok_def)
  qed
qed

text \<open>What an accepted chunk row satisfies.\<close>
lemma sql_insert_chunk_accepted:
  assumes "fst (sql_insert_chunk c d) = Inr ()"
  shows "(c_VirtualFileID c, c_Index c) \<notin> (\<lambda>c. (c_VirtualFileID c, c_Index c)) ` set (db_chunks d)"
    and "c_UserID c \<in> u_ID ` set (db_users d)" and "c_VirtualFileID c \<in> vf_ID ` set (db_vfiles d)"
    and "c_AccountID c = Some i \<Longrightarrow> i \<in> a_ID ` set (db_accounts d)"
    and "snd (sql_insert_chunk c d) =
      d\<lparr>db_chunkseq := db_chunkseq d + 1, db_chunks := db_chunks d @ [c\<lparr>c_ID := db_chunkseq d + 1\<rparr>]\<rparr>"
  using assms unfolding sql_insert_chunk_def Let_def list_ex_image
  by (simp_all split: if_splits) (auto simp: list_ex_iff)

lemma sql_insert_chunk_rejected:
  "fst (sql_insert_chunk c d) = Inl e \<Longrightarrow> snd (sql_insert_chunk c d) = d\<lparr>db_chunkseq := db_chunkseq d + 1\<rparr>"
  unfolding sql_insert_chunk_def Let_def by (auto split: if_splits)

lemma sql_insert_chunk_ok:
  assumes "db_ok d"
  shows "db_ok (snd (sql_insert_chunk c d))"
proof (cases "fst (sql_insert_chunk c d)")
  case (Inr u)
  then have "fst (sql_insert_chunk c d) = Inr ()" by simp
  from sql_insert_chunk_accepted [OF this] assms show ?thesis by (simp add: db_ok_def)
qed (use assms sql_insert_chunk_rejected in \<open>auto simp: db_ok_def\<close>)

lemma unlink_sel [simp]:
  "c_UserID (unlink g c) = c_UserID c" "c_VirtualFileID (unlink g c) = c_VirtualFileID c"
  "c_Index (unlink g c) = c_Index c" "c_RemoteFileID (unlink g c) = c_RemoteFileID c"
  "c_AccountID (unlink g c) = Some i \<longleftrightarrow> c_AccountID c = Some i \<and> i \<notin> g"
  by (auto simp: unlink_def split: option.splits)

lemma unlink_id: "c_AccountID c = None \<or> the (c_AccountID c) \<notin> g \<Longrightarrow> unlink g c = c"
  by (auto simp: unlink_def split: option.splits)

lemma sql_delete_accounts_ok:
  assumes "db_ok d"
  shows "db_ok (snd (sql_delete_accounts Q d))"
proof -
  have "uniq_on (\<lambda>c. (c_VirtualFileID c, c_Index c)) (map (unlink g) (db_chunks d))" for g
    using assms by (subst uniq_on_map_same) (auto simp: db_ok_def)
  moreover have "i \<in> a_ID ` {a \<in> set (db_accounts d). \<not> Q a}"
    if "c \<in> set (db_chunks d)" "c_AccountID c = Some i"
      "i \<notin> a_ID ` {a \<in> set (db_accounts d). Q a}" for c i
    using db_okD(11) [OF assms that(1,2)] that(3) by auto
  ultimately show ?thesis
    using assms unfolding sql_delete_accounts_def by (auto simp: db_ok_def)
qed

lemma sql_delete_vfiles_ok:
  assumes "db_ok d"
  shows "db_ok (snd (sql_delete_vfiles Q d))"
proof -
  have "c_VirtualFileID c \<in> vf_ID ` {v \<in> set (db_vfiles d). \<not> Q v}"
    if "c \<in> set (db_chunks d)" "c_VirtualFileID c \<notin> vf_ID ` {v \<in> set (db_vfiles d). Q v}" for c
    using db_okD(10) [OF assms that(1)] that(2) by auto
  with assms show ?thesis by (auto simp: sql_delete_vfiles_def Let_def db_ok_def)
qed

lemma sql_update_accounts_ok:
  assumes "db_ok d" "\<And>a. a_ID (f a) = a_ID a" "\<And>a. a_UserID (f a) = a_UserID a"
    "\<And>a. a_Label (f a) = a_Label a"
  shows "db_ok (snd (sql_update_accounts Q f d))"
proof -
  let ?g = "\<lambda>a. if Q a then f a else a"
  have "a_ID ` set (map ?g (db_accounts d)) = a_ID ` set (db_accounts d)"
    unfolding set_map image_image using assms(2) by (intro image_cong) auto
  moreover have "uniq_on a_ID (map ?g (db_accounts d))"
    "uniq_on (\<lambda>a. (a_UserID a, a_Label a)) (map ?g (db_accounts d))"
    using assms by (subst uniq_on_map_same; simp add: db_ok_def)+
  ultimately show ?thesis
    using assms by (simp add: sql_update_accounts_def db_ok_def image_image) auto
qed

lemma sql_update_vfiles_ok:
  assumes "db_ok d" "\<And>v. vf_ID (f v) = vf_ID v" "\<And>v. vf_UserID (f v) = vf_UserID v"
    "\<And>v. vf_Name (f v) = vf_Name v"
  shows "db_ok (snd (sql_update_vfiles Q f d))"
proof -
  let ?g = "\<lambda>v. if Q v then f v else v"
  have "vf_ID ` set (map ?g (db_vfiles d)) = vf_ID ` set (db_vfiles d)"
    unfolding set_map image_image using assms(2) by (intro image_cong) auto
  moreover have "uniq_on vf_ID (map ?g (db_vfiles d))"
    "uniq_on (\<lambda>v. (vf_UserID v, vf_Name v)) (map ?g (db_vfiles d))"
    using assms by (subst uniq_on_map_same; simp add: db_ok_def)+
  ultimately show ?thesis
    using assms by (simp add: sql_update_vfiles_def db_ok_def image_image) auto
qed

lemmas sql_ok = sql_insert_user_ok sql_insert_account_ok sql_insert_vfile_ok sql_insert_chunk_ok
  sql_delete_accounts_ok sql_delete_vfiles_ok sql_update_accounts_ok sql_update_vfiles_ok

subsection \<open>LIKE\<close>

lemma sql_like_percent [simp]: "sql_like ''%'' s"
  by (induction s) auto

text \<open>On a prefix free of the metacharacters \<open>%\<close>, \<open>_\<close> and backslash, \<open>LIKE\<close> is a prefix test.\<close>
lemma sql_like_prefix:
  "set p \<inter> {CHR ''%'', CHR ''_'', CHR 0x5C} = {} \<Longrightarrow> sql_like (p @ ''%'') s \<longleftrightarrow> prefix p s"
proof (induction p arbitrary: s)
  case (Cons x p)
  then show ?case by (cases s) auto
qed (simp add: Sublist.Nil_prefix)

text \<open>A prefix always matches itself extended, unless an escape interferes.\<close>
lemma sql_like_extend: "CHR 0x5C \<notin> set p \<Longrightarrow> sql_like (p @ ''%'') (p @ t)"
proof (induction p arbitrary: t)
  case (Cons x p)
  then have "sql_like (p @ ''%'') (p @ t)" by simp
  moreover from this have "sql_like (CHR ''%'' # p @ ''%'') (p @ t)" by (cases "p @ t") simp_all
  ultimately show ?case using Cons.prems by auto
qed simp

end
