(* ===== verification/Manifest.thy ===== *)
theory Manifest
  imports Database "HOL-Library.Multiset"
begin

text \<open>
  \<open>drivepool/manifest/manifest.go\<close>: the namespace of accounts, virtual files and chunks, one
  method per operation, each scoped to a user. The JSON encoding of OAuth tokens and the collation
  the server sorts text by are not part of the repository and are fields of \<open>mcfg\<close>; the current
  time and the random bytes an operation consumes are its arguments.
\<close>

record mcfg =
  m_prims :: prims
  m_tokenKey :: bytes
  m_marshal :: "token option \<Rightarrow> (string, bytes) result"  \<comment> \<open>\<open>json.Marshal\<close>\<close>
  m_unmarshal :: "bytes \<Rightarrow> (string, token) result"  \<comment> \<open>\<open>json.Unmarshal\<close>\<close>
  m_collate :: "string \<Rightarrow> string"  \<comment> \<open>the sort key of the database's collation\<close>

text \<open>\<open>scoped\<close>: the statements of a user; an empty user is a programming error that panics.\<close>
definition scoped :: "string \<Rightarrow> (db \<Rightarrow> (merror, 'a) result \<times> db) \<Rightarrow> db \<Rightarrow> (merror, 'a) result \<times> db" where
  "scoped userID stmt d = (if userID = [] then (Inl PanicEmptyUser, d) else query stmt d)"

text \<open>\<open>gorm.First\<close>: the first matching row in primary-key order.\<close>
definition sql_first :: "('a \<Rightarrow> 'k :: linorder) \<Rightarrow> ('a \<Rightarrow> bool) \<Rightarrow> 'a list \<Rightarrow> 'a option" where
  "sql_first pk Q rows = (case sort_key pk (filter Q rows) of [] \<Rightarrow> None | r # _ \<Rightarrow> Some r)"

definition encryptToken :: "mcfg \<Rightarrow> entropy \<Rightarrow> token option \<Rightarrow> (merror, bytes) result" where
  "encryptToken m rnd tok = (case m_marshal m tok of
     Inl e \<Rightarrow> Inl (MarshalErr e)
   | Inr plaintext \<Rightarrow>
      (case encrypt_buffer (m_prims m) (m_tokenKey m) rnd plaintext of
         Inl e \<Rightarrow> Inl (EncryptTokenErr e)
       | Inr ciphertext \<Rightarrow> Inr ciphertext))"

definition decryptToken :: "mcfg \<Rightarrow> bytes \<Rightarrow> (merror, token) result" where
  "decryptToken m ciphertext =
     (case decrypt_buffer (m_prims m) (m_tokenKey m) (bytes_reader ciphertext) of
        Inl e \<Rightarrow> Inl (DecryptTokenErr e)
      | Inr plaintext \<Rightarrow>
         (case m_unmarshal m plaintext of Inl e \<Rightarrow> Inl (UnmarshalErr e) | Inr tok \<Rightarrow> Inr tok))"

subsection \<open>Accounts\<close>

definition m_AddAccount ::
  "mcfg \<Rightarrow> entropy \<Rightarrow> string \<Rightarrow> account_row \<Rightarrow> db \<Rightarrow> (merror, unit) result \<times> db"
where
  "m_AddAccount m rnd userID a d = (case encryptToken m rnd (a_Token a) of
     Inl e \<Rightarrow> (Inl e, d)
   | Inr ciphertext \<Rightarrow>
       query (sql_insert_account (a\<lparr>a_UserID := userID, a_TokenCiphertext := ciphertext\<rparr>)) d)"

definition m_RemoveAccount :: "string \<Rightarrow> string \<Rightarrow> db \<Rightarrow> (merror, unit) result \<times> db" where
  "m_RemoveAccount userID label d =
     (case scoped userID (sql_delete_accounts (\<lambda>a. a_UserID a = userID \<and> a_Label a = label)) d of
        (Inl e, d') \<Rightarrow> (Inl e, d')
      | (Inr n, d') \<Rightarrow> (if n = 0 then Inl ErrNotFound else Inr (), d'))"

definition m_GetAccount :: "mcfg \<Rightarrow> string \<Rightarrow> string \<Rightarrow> db \<Rightarrow> (merror, account_row) result \<times> db" where
  "m_GetAccount m userID label d =
     (case scoped userID (\<lambda>d. (case sql_first a_ID (\<lambda>a. a_UserID a = userID \<and> a_Label a = label)
             (db_accounts d) of None \<Rightarrow> Inl ErrNotFound | Some a \<Rightarrow> Inr a, d)) d of
        (Inl e, d') \<Rightarrow> (Inl e, d')
      | (Inr a, d') \<Rightarrow>
         (case decryptToken m (a_TokenCiphertext a) of
            Inl e \<Rightarrow> (Inl e, d')
          | Inr tok \<Rightarrow> (Inr (a\<lparr>a_Token := Some tok\<rparr>), d')))"

text \<open>An undecryptable token leaves the row's \<open>Token\<close> nil and does not fail the call.\<close>
definition with_token :: "mcfg \<Rightarrow> account_row \<Rightarrow> account_row" where
  "with_token m a = (case decryptToken m (a_TokenCiphertext a) of
     Inl e \<Rightarrow> a | Inr tok \<Rightarrow> a\<lparr>a_Token := Some tok\<rparr>)"

definition m_ListAccounts :: "mcfg \<Rightarrow> string \<Rightarrow> db \<Rightarrow> (merror, account_row list) result \<times> db" where
  "m_ListAccounts m userID d =
     (case scoped userID (\<lambda>d. (Inr (sort_key (m_collate m \<circ> a_Label)
             (filter (\<lambda>a. a_UserID a = userID) (db_accounts d))), d)) d of
        (Inl e, d') \<Rightarrow> (Inl e, d')
      | (Inr accounts, d') \<Rightarrow> (Inr (map (with_token m) accounts), d'))"

text \<open>The join of \<open>chunks\<close> with \<open>virtual_files\<close>, counted.\<close>
definition m_CountActiveChunks :: "string \<Rightarrow> string \<Rightarrow> db \<Rightarrow> (merror, nat) result \<times> db" where
  "m_CountActiveChunks userID accountID d =
     query (\<lambda>d. (Inr (length (filter (\<lambda>(c, v). vf_ID v = c_VirtualFileID c
         \<and> c_UserID c = userID \<and> c_AccountID c = Some accountID \<and> vf_Status v \<noteq> StatusDeleted)
       (List.product (db_chunks d) (db_vfiles d)))), d)) d"

definition m_UpdateAccountQuota ::
  "string \<Rightarrow> string \<Rightarrow> int \<Rightarrow> int \<Rightarrow> int \<Rightarrow> db \<Rightarrow> (merror, unit) result \<times> db"
where
  "m_UpdateAccountQuota userID i limit usage checkedAt d =
     (case scoped userID (sql_update_accounts (\<lambda>a. a_UserID a = userID \<and> a_ID a = i)
         (\<lambda>a. a\<lparr>a_QuotaLimit := Some limit, a_QuotaUsage := Some usage,
                a_QuotaCheckedAt := Some checkedAt\<rparr>)) d of
        (Inl e, d') \<Rightarrow> (Inl e, d') | (Inr n, d') \<Rightarrow> (Inr (), d'))"

subsection \<open>Virtual files\<close>

text \<open>A new row has a zero ID, which the sequence replaces; the stored row is handed back.\<close>
definition m_CreateVirtualFile ::
  "int \<Rightarrow> string \<Rightarrow> virtual_file \<Rightarrow> db \<Rightarrow> (merror, virtual_file) result \<times> db"
where
  "m_CreateVirtualFile now userID vf d =
     (let vf1 = vf\<lparr>vf_UserID := userID, vf_CreatedAt := now, vf_ModifiedAt := now\<rparr>;
          vf2 = (if vf_Replicas vf1 = 0 then vf1\<lparr>vf_Replicas := 1\<rparr> else vf1);
          vf3 = (if vf_Version vf2 = 0 then vf2\<lparr>vf_Version := 1\<rparr> else vf2)
      in case query (sql_insert_vfile vf3) d of
           (Inl e, d') \<Rightarrow> (Inl (if IsUniqueViolation e then ErrNameExists else e), d')
         | (Inr row, d') \<Rightarrow> (Inr row, d'))"

definition m_SetVirtualFileStatus ::
  "int \<Rightarrow> string \<Rightarrow> int \<Rightarrow> vf_status \<Rightarrow> db \<Rightarrow> (merror, unit) result \<times> db"
where
  "m_SetVirtualFileStatus now userID i status d =
     (case scoped userID (sql_update_vfiles (\<lambda>v. vf_UserID v = userID \<and> vf_ID v = i)
         (\<lambda>v. v\<lparr>vf_Status := status, vf_ModifiedAt := now\<rparr>)) d of
        (Inl e, d') \<Rightarrow> (Inl e, d') | (Inr n, d') \<Rightarrow> (Inr (), d'))"

definition m_GetVirtualFile :: "string \<Rightarrow> string \<Rightarrow> db \<Rightarrow> (merror, virtual_file) result \<times> db" where
  "m_GetVirtualFile userID name d =
     scoped userID (\<lambda>d. (case sql_first vf_ID (\<lambda>v. vf_UserID v = userID \<and> vf_Name v = name)
       (db_vfiles d) of None \<Rightarrow> Inl ErrNotFound | Some v \<Rightarrow> Inr v, d)) d"

definition m_ListVirtualFiles ::
  "mcfg \<Rightarrow> string \<Rightarrow> string \<Rightarrow> db \<Rightarrow> (merror, virtual_file list) result \<times> db"
where
  "m_ListVirtualFiles m userID pre d =
     scoped userID (\<lambda>d. (Inr (sort_key (m_collate m \<circ> vf_Name) (filter (\<lambda>v. vf_UserID v = userID
       \<and> sql_like (pre @ ''%'') (vf_Name v) \<and> vf_Status v \<noteq> StatusDeleted) (db_vfiles d))), d)) d"

definition m_DeleteVirtualFile ::
  "int \<Rightarrow> string \<Rightarrow> string \<Rightarrow> bool \<Rightarrow> db \<Rightarrow> (merror, unit) result \<times> db"
where
  "m_DeleteVirtualFile now userID name purge d =
     (if purge then
        (case scoped userID (sql_delete_vfiles (\<lambda>v. vf_UserID v = userID \<and> vf_Name v = name)) d of
           (Inl e, d') \<Rightarrow> (Inl e, d') | (Inr n, d') \<Rightarrow> (Inr (), d'))
      else
        (case scoped userID (sql_update_vfiles (\<lambda>v. vf_UserID v = userID \<and> vf_Name v = name)
            (\<lambda>v. v\<lparr>vf_Status := StatusDeleted, vf_ModifiedAt := now\<rparr>)) d of
           (Inl e, d') \<Rightarrow> (Inl e, d')
         | (Inr n, d') \<Rightarrow> (if n = 0 then Inl ErrNotFound else Inr (), d')))"

subsection \<open>Chunks\<close>

definition m_AddChunk :: "int \<Rightarrow> string \<Rightarrow> chunk \<Rightarrow> db \<Rightarrow> (merror, unit) result \<times> db" where
  "m_AddChunk now userID c d = query (sql_insert_chunk (c\<lparr>c_UserID := userID, c_UploadedAt := now\<rparr>)) d"

definition m_ListChunks :: "string \<Rightarrow> int \<Rightarrow> db \<Rightarrow> (merror, chunk list) result \<times> db" where
  "m_ListChunks userID virtualFileID d =
     scoped userID (\<lambda>d. (Inr (sort_key c_Index (filter (\<lambda>c. c_UserID c = userID
       \<and> c_VirtualFileID c = virtualFileID) (db_chunks d))), d)) d"

subsection \<open>The manifest as a sequence of operations\<close>

text \<open>
  The operations that write, as data: a history of the manifest is a list of users' operations.
\<close>
datatype mop =
    MAddAccount entropy account_row
  | MRemoveAccount string
  | MUpdateAccountQuota string int int int
  | MCreateVirtualFile int virtual_file
  | MSetVirtualFileStatus int int vf_status
  | MDeleteVirtualFile int string bool
  | MAddChunk int chunk

definition mop_step :: "mcfg \<Rightarrow> string \<Rightarrow> mop \<Rightarrow> db \<Rightarrow> db" where
  "mop_step m u op d = (case op of
     MAddAccount rnd a \<Rightarrow> snd (m_AddAccount m rnd u a d)
   | MRemoveAccount label \<Rightarrow> snd (m_RemoveAccount u label d)
   | MUpdateAccountQuota i limit usage now \<Rightarrow> snd (m_UpdateAccountQuota u i limit usage now d)
   | MCreateVirtualFile now vf \<Rightarrow> snd (m_CreateVirtualFile now u vf d)
   | MSetVirtualFileStatus now i status \<Rightarrow> snd (m_SetVirtualFileStatus now u i status d)
   | MDeleteVirtualFile now name purge \<Rightarrow> snd (m_DeleteVirtualFile now u name purge d)
   | MAddChunk now c \<Rightarrow> snd (m_AddChunk now u c d))"

fun run_steps :: "(string \<Rightarrow> 'op \<Rightarrow> 's \<Rightarrow> 's) \<Rightarrow> (string \<times> 'op) list \<Rightarrow> 's \<Rightarrow> 's" where
  "run_steps step [] s = s"
| "run_steps step ((u, op) # ops) s = run_steps step ops (step u op s)"

fun all_allowed ::
  "(string \<Rightarrow> 'op \<Rightarrow> 's \<Rightarrow> 's) \<Rightarrow> (string \<Rightarrow> 'op \<Rightarrow> 's \<Rightarrow> bool) \<Rightarrow> (string \<times> 'op) list \<Rightarrow> 's \<Rightarrow> bool"
where
  "all_allowed step ok [] s = True"
| "all_allowed step ok ((u, op) # ops) s = (ok u op s \<and> all_allowed step ok ops (step u op s))"

text \<open>
  The contract of a multi-tenant store: an allowed step of one user keeps the invariant and does
  not change what another user sees.
\<close>
locale tenant_store =
  fixes step :: "string \<Rightarrow> 'op \<Rightarrow> 's \<Rightarrow> 's" and allowed :: "string \<Rightarrow> 'op \<Rightarrow> 's \<Rightarrow> bool"
    and inv :: "'s \<Rightarrow> bool" and view :: "string \<Rightarrow> 's \<Rightarrow> 'v"
  assumes step_inv: "inv s \<Longrightarrow> allowed u op s \<Longrightarrow> inv (step u op s)"
    and step_view: "inv s \<Longrightarrow> allowed u op s \<Longrightarrow> u \<noteq> v \<Longrightarrow> view v (step u op s) = view v s"
begin

lemma run_inv: "inv s \<Longrightarrow> all_allowed step allowed ops s \<Longrightarrow> inv (run_steps step ops s)"
  by (induction ops arbitrary: s) (auto simp: step_inv)

lemma run_view:
  "inv s \<Longrightarrow> all_allowed step allowed ops s \<Longrightarrow> v \<notin> fst ` set ops \<Longrightarrow>
    view v (run_steps step ops s) = view v s"
proof (induction ops arbitrary: s)
  case (Cons x ops)
  then show ?case by (cases x) (auto simp: step_inv step_view)
qed simp

end

text \<open>What a user can see, and the ownership invariant: a chunk, its file and its account share one user.\<close>
definition tenant_view :: "string \<Rightarrow> db \<Rightarrow> account_row list \<times> virtual_file list \<times> chunk list" where
  "tenant_view u d = (filter (\<lambda>a. a_UserID a = u) (db_accounts d),
     filter (\<lambda>v. vf_UserID v = u) (db_vfiles d), filter (\<lambda>c. c_UserID c = u) (db_chunks d))"

definition tenant_ok :: "db \<Rightarrow> bool" where
  "tenant_ok d \<longleftrightarrow> db_ok d \<and> (\<forall>c \<in> set (db_chunks d).
       (\<forall>v \<in> set (db_vfiles d). vf_ID v = c_VirtualFileID c \<longrightarrow> vf_UserID v = c_UserID c)
     \<and> (\<forall>a \<in> set (db_accounts d). c_AccountID c = Some (a_ID a) \<longrightarrow> a_UserID a = c_UserID c))"

text \<open>The one obligation on callers: a chunk is added to one's own file, on one's own account.\<close>
definition mop_allowed :: "string \<Rightarrow> mop \<Rightarrow> db \<Rightarrow> bool" where
  "mop_allowed u op d = (case op of
     MAddChunk now c \<Rightarrow>
       list_all (\<lambda>v. vf_ID v = c_VirtualFileID c \<longrightarrow> vf_UserID v = u) (db_vfiles d)
     \<and> list_all (\<lambda>a. c_AccountID c = Some (a_ID a) \<longrightarrow> a_UserID a = u) (db_accounts d)
   | _ \<Rightarrow> True)"

lemma tenant_faults [simp]:
  "tenant_ok (d\<lparr>db_faults := fs\<rparr>) = tenant_ok d" "tenant_view v (d\<lparr>db_faults := fs\<rparr>) = tenant_view v d"
  "mop_allowed u op (d\<lparr>db_faults := fs\<rparr>) = mop_allowed u op d"
  by (simp_all add: tenant_ok_def tenant_view_def mop_allowed_def split: mop.splits)

text \<open>Each statement, as one user issues it, keeps ownership and the view of every other user.\<close>

lemma tenant_insert_account:
  assumes "tenant_ok d" "a_UserID a = u"
  shows "tenant_ok (snd (sql_insert_account a d))"
    and "u \<noteq> v \<Longrightarrow> tenant_view v (snd (sql_insert_account a d)) = tenant_view v d"
proof -
  have ok: "db_ok d" using assms(1) by (simp add: tenant_ok_def)
  have "c_AccountID c \<noteq> Some (a_ID a)"
    if "c \<in> set (db_chunks d)" "\<not> list_ex (\<lambda>b. a_ID b = a_ID a) (db_accounts d)" for c
    using db_okD(11) [OF ok that(1)] that(2) unfolding list_ex_image by metis
  then show "tenant_ok (snd (sql_insert_account a d))"
    using assms sql_insert_account_ok [OF ok, of a]
    by (auto simp: tenant_ok_def sql_insert_account_def list_ex_iff)
  show "u \<noteq> v \<Longrightarrow> tenant_view v (snd (sql_insert_account a d)) = tenant_view v d"
    using assms(2) by (simp add: sql_insert_account_def tenant_view_def)
qed

lemma tenant_insert_vfile:
  assumes "tenant_ok d" "vf_UserID w = u"
  shows "tenant_ok (snd (sql_insert_vfile w d))"
    and "u \<noteq> v \<Longrightarrow> tenant_view v (snd (sql_insert_vfile w d)) = tenant_view v d"
proof -
  have ok: "db_ok d" using assms(1) by (simp add: tenant_ok_def)
  have "c_VirtualFileID c \<noteq> db_vfseq d + 1" if "c \<in> set (db_chunks d)" for c
    using db_okD(9,10) [OF ok] that by fastforce
  then show "tenant_ok (snd (sql_insert_vfile w d))"
    using assms sql_insert_vfile_ok [OF ok, of w]
    by (fastforce simp: tenant_ok_def sql_insert_vfile_def Let_def)
  show "u \<noteq> v \<Longrightarrow> tenant_view v (snd (sql_insert_vfile w d)) = tenant_view v d"
    using assms(2) by (simp add: sql_insert_vfile_def tenant_view_def Let_def)
qed

lemma tenant_insert_chunk:
  assumes "tenant_ok d" "c_UserID c = u" "mop_allowed u (MAddChunk now c) d"
  shows "tenant_ok (snd (sql_insert_chunk c d))"
    and "u \<noteq> v \<Longrightarrow> tenant_view v (snd (sql_insert_chunk c d)) = tenant_view v d"
proof -
  have "db_ok d" using assms(1) by (simp add: tenant_ok_def)
  then show "tenant_ok (snd (sql_insert_chunk c d))"
    using assms sql_insert_chunk_ok [of d c] sql_insert_chunk_accepted(5) [of c d]
      sql_insert_chunk_rejected [of c d]
    by (cases "fst (sql_insert_chunk c d)") (auto simp: tenant_ok_def mop_allowed_def list_all_iff)
  show "u \<noteq> v \<Longrightarrow> tenant_view v (snd (sql_insert_chunk c d)) = tenant_view v d"
    using assms(2) by (simp add: sql_insert_chunk_def tenant_view_def Let_def)
qed

lemma tenant_delete_accounts:
  assumes "tenant_ok d" "\<And>a. Q a \<Longrightarrow> a_UserID a = u"
  shows "tenant_ok (snd (sql_delete_accounts Q d))"
    and "u \<noteq> v \<Longrightarrow> tenant_view v (snd (sql_delete_accounts Q d)) = tenant_view v d"
proof -
  let ?g = "a_ID ` set (filter Q (db_accounts d))"
  have ok: "db_ok d" using assms(1) by (simp add: tenant_ok_def)
  show "tenant_ok (snd (sql_delete_accounts Q d))"
    using assms(1) sql_delete_accounts_ok [OF ok, of Q] by (auto simp: tenant_ok_def sql_delete_accounts_def)
  assume "u \<noteq> v"
  have "unlink ?g c = c" if "c \<in> set (db_chunks d)" "c_UserID c = v" for c
  proof (rule unlink_id)
    show "c_AccountID c = None \<or> the (c_AccountID c) \<notin> ?g"
      using assms that \<open>u \<noteq> v\<close> by (auto simp: tenant_ok_def dest!: bspec split: option.splits)
  qed
  then have "filter (\<lambda>c. c_UserID c = v) (map (unlink ?g) (db_chunks d)) = filter (\<lambda>c. c_UserID c = v) (db_chunks d)"
    by (auto simp: filter_map comp_def intro: map_idI)
  moreover have "filter (\<lambda>a. a_UserID a = v \<and> \<not> Q a) (db_accounts d) = filter (\<lambda>a. a_UserID a = v) (db_accounts d)"
    using assms(2) \<open>u \<noteq> v\<close> by (intro filter_cong) auto
  ultimately show "tenant_view v (snd (sql_delete_accounts Q d)) = tenant_view v d"
    by (simp add: sql_delete_accounts_def tenant_view_def conj_commute)
qed

lemma tenant_delete_vfiles:
  assumes "tenant_ok d" "\<And>w. Q w \<Longrightarrow> vf_UserID w = u"
  shows "tenant_ok (snd (sql_delete_vfiles Q d))"
    and "u \<noteq> v \<Longrightarrow> tenant_view v (snd (sql_delete_vfiles Q d)) = tenant_view v d"
proof -
  have ok: "db_ok d" using assms(1) by (simp add: tenant_ok_def)
  show "tenant_ok (snd (sql_delete_vfiles Q d))"
    using assms(1) sql_delete_vfiles_ok [OF ok, of Q] by (auto simp: tenant_ok_def sql_delete_vfiles_def Let_def)
  assume "u \<noteq> v"
  have "c_VirtualFileID c \<notin> vf_ID ` {w \<in> set (db_vfiles d). Q w}"
    if "c \<in> set (db_chunks d)" "c_UserID c = v" for c
    using assms that \<open>u \<noteq> v\<close> by (auto simp: tenant_ok_def dest!: bspec)
  then have "filter (\<lambda>c. c_UserID c = v \<and> c_VirtualFileID c \<notin> vf_ID ` {w \<in> set (db_vfiles d). Q w}) (db_chunks d)
      = filter (\<lambda>c. c_UserID c = v) (db_chunks d)"
    by (intro filter_cong) auto
  moreover have "filter (\<lambda>w. vf_UserID w = v \<and> \<not> Q w) (db_vfiles d) = filter (\<lambda>w. vf_UserID w = v) (db_vfiles d)"
    using assms(2) \<open>u \<noteq> v\<close> by (intro filter_cong) auto
  ultimately show "tenant_view v (snd (sql_delete_vfiles Q d)) = tenant_view v d"
    by (simp add: sql_delete_vfiles_def tenant_view_def Let_def conj_commute)
qed

lemma filter_update_other:
  assumes "\<And>x. Q x \<Longrightarrow> f x = u" "\<And>x. f (g x) = f x" "u \<noteq> v"
  shows "filter (\<lambda>x. f x = v) (map (\<lambda>x. if Q x then g x else x) xs) = filter (\<lambda>x. f x = v) xs"
  by (induction xs) (use assms in auto)

lemma tenant_update_accounts:
  assumes "tenant_ok d" "\<And>a. Q a \<Longrightarrow> a_UserID a = u" "\<And>a. a_ID (f a) = a_ID a"
    "\<And>a. a_UserID (f a) = a_UserID a" "\<And>a. a_Label (f a) = a_Label a"
  shows "tenant_ok (snd (sql_update_accounts Q f d))"
    and "u \<noteq> v \<Longrightarrow> tenant_view v (snd (sql_update_accounts Q f d)) = tenant_view v d"
proof -
  have ok: "db_ok d" using assms(1) by (simp add: tenant_ok_def)
  show "tenant_ok (snd (sql_update_accounts Q f d))"
    using assms(1,3,4) sql_update_accounts_ok [OF ok assms(3-5), of Q]
    by (auto simp: tenant_ok_def sql_update_accounts_def)
  show "u \<noteq> v \<Longrightarrow> tenant_view v (snd (sql_update_accounts Q f d)) = tenant_view v d"
    using filter_update_other [of Q a_UserID u f, OF assms(2,4)]
    by (simp add: sql_update_accounts_def tenant_view_def)
qed

lemma tenant_update_vfiles:
  assumes "tenant_ok d" "\<And>w. Q w \<Longrightarrow> vf_UserID w = u" "\<And>w. vf_ID (f w) = vf_ID w"
    "\<And>w. vf_UserID (f w) = vf_UserID w" "\<And>w. vf_Name (f w) = vf_Name w"
  shows "tenant_ok (snd (sql_update_vfiles Q f d))"
    and "u \<noteq> v \<Longrightarrow> tenant_view v (snd (sql_update_vfiles Q f d)) = tenant_view v d"
proof -
  have ok: "db_ok d" using assms(1) by (simp add: tenant_ok_def)
  show "tenant_ok (snd (sql_update_vfiles Q f d))"
    using assms(1,3,4) sql_update_vfiles_ok [OF ok assms(3-5), of Q]
    by (auto simp: tenant_ok_def sql_update_vfiles_def)
  show "u \<noteq> v \<Longrightarrow> tenant_view v (snd (sql_update_vfiles Q f d)) = tenant_view v d"
    using filter_update_other [of Q vf_UserID u f, OF assms(2,4)]
    by (simp add: sql_update_vfiles_def tenant_view_def)
qed

text \<open>The two halves of the contract, for a scoped or plain statement.\<close>
lemma tenant_query:
  assumes "tenant_ok d" "\<And>d. tenant_ok d \<Longrightarrow> ok d \<Longrightarrow> tenant_ok (snd (f d)) \<and> tenant_view v (snd (f d)) = tenant_view v d"
    "ok d" "\<And>d fs. ok (d\<lparr>db_faults := fs\<rparr>) = ok d"
  shows "tenant_ok (snd (query f d)) \<and> tenant_view v (snd (query f d)) = tenant_view v d"
proof -
  obtain res d' where q: "query f d = (res, d')" by (metis surj_pair)
  then show ?thesis
  proof (cases rule: query_cases)
    case (runs fs)
    with assms(2) [of "d\<lparr>db_faults := fs\<rparr>"] assms(1,3,4) q show ?thesis by simp
  qed (use assms q in simp)
qed

lemma tenant_scoped:
  assumes "tenant_ok d" "\<And>d. tenant_ok d \<Longrightarrow> tenant_ok (snd (f d)) \<and> tenant_view v (snd (f d)) = tenant_view v d"
  shows "tenant_ok (snd (scoped u f d)) \<and> tenant_view v (snd (scoped u f d)) = tenant_view v d"
  using assms tenant_query [of d "\<lambda>_. True" f v] by (simp add: scoped_def)

lemma snd_result_case [simp]:
  "snd (case p of (Inl e, d') \<Rightarrow> (f e d', d') | (Inr x, d') \<Rightarrow> (g x d', d')) = snd p"
  by (cases p) (auto split: sum.splits)

lemma mop_step_tenant:
  assumes "tenant_ok d" "mop_allowed u op d" "u \<noteq> v"
  shows "tenant_ok (mop_step m u op d) \<and> tenant_view v (mop_step m u op d) = tenant_view v d"
proof (cases op)
  case (MAddAccount rnd a)
  have *: "tenant_ok d \<Longrightarrow> tenant_ok (snd (sql_insert_account b d)) \<and>
      tenant_view v (snd (sql_insert_account b d)) = tenant_view v d" if "a_UserID b = u" for b d
    using tenant_insert_account [OF _ that] assms(3) by blast
  show ?thesis
    using tenant_query [OF assms(1), of "\<lambda>_. True", OF *] assms(1)
    by (simp add: MAddAccount mop_step_def m_AddAccount_def split: sum.splits)
next
  case (MRemoveAccount label)
  show ?thesis unfolding MRemoveAccount mop_step_def m_RemoveAccount_def mop.case snd_result_case
    by (rule tenant_scoped [OF assms(1)], intro conjI)
      (rule tenant_delete_accounts [where u = u]; use assms(3) in simp)+
next
  case (MUpdateAccountQuota i limit usage now)
  show ?thesis unfolding MUpdateAccountQuota mop_step_def m_UpdateAccountQuota_def mop.case snd_result_case
    by (rule tenant_scoped [OF assms(1)], intro conjI)
      (rule tenant_update_accounts [where u = u]; use assms(3) in simp)+
next
  case (MCreateVirtualFile now vf)
  have *: "tenant_ok d \<Longrightarrow> tenant_ok (snd (sql_insert_vfile w d)) \<and>
      tenant_view v (snd (sql_insert_vfile w d)) = tenant_view v d" if "vf_UserID w = u" for w d
    using tenant_insert_vfile [OF _ that] assms(3) by blast
  show ?thesis unfolding MCreateVirtualFile mop_step_def m_CreateVirtualFile_def Let_def mop.case snd_result_case
    by (rule tenant_query [OF assms(1), of "\<lambda>_. True", OF *]) simp_all
next
  case (MSetVirtualFileStatus now i status)
  show ?thesis unfolding MSetVirtualFileStatus mop_step_def m_SetVirtualFileStatus_def mop.case snd_result_case
    by (rule tenant_scoped [OF assms(1)], intro conjI)
      (rule tenant_update_vfiles [where u = u]; use assms(3) in simp)+
next
  case (MDeleteVirtualFile now name purge)
  show ?thesis
  proof (cases purge)
    case True
    show ?thesis unfolding MDeleteVirtualFile mop_step_def m_DeleteVirtualFile_def mop.case if_P [OF True] snd_result_case
      by (rule tenant_scoped [OF assms(1)], intro conjI)
        (rule tenant_delete_vfiles [where u = u]; use assms(3) in simp)+
  next
    case False
    show ?thesis unfolding MDeleteVirtualFile mop_step_def m_DeleteVirtualFile_def mop.case if_not_P [OF False] snd_result_case
      by (rule tenant_scoped [OF assms(1)], intro conjI)
        (rule tenant_update_vfiles [where u = u]; use assms(3) in simp)+
  qed
next
  case (MAddChunk now c)
  let ?c = "c\<lparr>c_UserID := u, c_UploadedAt := now\<rparr>"
  have "mop_allowed u (MAddChunk now ?c) = mop_allowed u op" by (simp add: MAddChunk mop_allowed_def fun_eq_iff)
  with tenant_query [OF assms(1), of "mop_allowed u op" "sql_insert_chunk ?c" v] assms(2,3)
    tenant_insert_chunk(1) [of _ ?c u now] tenant_insert_chunk(2) [of _ ?c u now v]
  show ?thesis by (simp add: MAddChunk mop_step_def m_AddChunk_def)
qed

text \<open>An allowed step keeps the invariant whoever issues it (pick another user as the observer).\<close>
interpretation tenants: tenant_store "mop_step m" mop_allowed tenant_ok tenant_view for m
proof
  fix s u op
  assume a: "tenant_ok s" "mop_allowed u op s"
  have "u \<noteq> CHR ''x'' # u" by simp
  from mop_step_tenant [OF a this] show "tenant_ok (mop_step m u op s)" by blast
next
  fix s u op v
  assume "tenant_ok s" "mop_allowed u op s" "u \<noteq> v"
  then show "tenant_view v (mop_step m u op s) = tenant_view v s" using mop_step_tenant by blast
qed

subsection \<open>What the reading operations return\<close>

lemma sql_first_None_iff: "sql_first pk Q rows = None \<longleftrightarrow> (\<forall>r \<in> set rows. \<not> Q r)"
proof -
  have "sort_key pk (filter Q rows) = [] \<longleftrightarrow> filter Q rows = []"
    by (metis length_0_conv length_sort)
  then show ?thesis by (auto simp: sql_first_def filter_empty_conv split: list.splits)
qed

lemma sql_first_SomeD:
  assumes "sql_first pk Q rows = Some r"
  shows "r \<in> set rows \<and> Q r"
proof -
  obtain rs where "sort_key pk (filter Q rows) = r # rs"
    using assms by (auto simp: sql_first_def split: list.splits)
  then have "r \<in> set (sort_key pk (filter Q rows))" by (metis list.set_intros(1))
  then show ?thesis by simp
qed

lemma sql_first_uniq:
  assumes "r \<in> set rows" "Q r" "\<And>s. s \<in> set rows \<Longrightarrow> Q s \<Longrightarrow> s = r"
  shows "sql_first pk Q rows = Some r"
proof (cases "sql_first pk Q rows")
  case None
  with assms(1,2) show ?thesis by (simp add: sql_first_None_iff)
next
  case (Some s)
  with sql_first_SomeD [OF this] assms(3) show ?thesis by simp
qed

lemma sql_first_filter: "sql_first pk (\<lambda>r. R r \<and> Q r) rows = sql_first pk Q (filter R rows)"
  by (simp add: sql_first_def conj_commute)

lemma m_GetVirtualFile_eq:
  "u \<noteq> [] \<Longrightarrow> db_faults d = [] \<Longrightarrow> m_GetVirtualFile u name d =
    (case sql_first vf_ID (\<lambda>v. vf_UserID v = u \<and> vf_Name v = name) (db_vfiles d) of
       None \<Rightarrow> Inl ErrNotFound | Some v \<Rightarrow> Inr v, d)"
  by (simp add: m_GetVirtualFile_def scoped_def)

lemma m_GetVirtualFile_found:
  assumes "db_ok d" "u \<noteq> []" "db_faults d = []" "v \<in> set (db_vfiles d)" "vf_UserID v = u" "vf_Name v = name"
  shows "m_GetVirtualFile u name d = (Inr v, d)"
proof -
  have "sql_first vf_ID (\<lambda>v. vf_UserID v = u \<and> vf_Name v = name) (db_vfiles d) = Some v"
    using assms uniq_on_inj [OF db_okD(6) [OF assms(1)]] by (intro sql_first_uniq) auto
  with assms show ?thesis by (simp add: m_GetVirtualFile_eq)
qed

lemma m_GetVirtualFile_missing:
  "u \<noteq> [] \<Longrightarrow> db_faults d = [] \<Longrightarrow> \<forall>v \<in> set (db_vfiles d). \<not> (vf_UserID v = u \<and> vf_Name v = name) \<Longrightarrow>
    m_GetVirtualFile u name d = (Inl ErrNotFound, d)"
  using sql_first_None_iff [of vf_ID "\<lambda>v. vf_UserID v = u \<and> vf_Name v = name" "db_vfiles d"]
  by (simp add: m_GetVirtualFile_eq)

lemma m_ListChunks_eq:
  "u \<noteq> [] \<Longrightarrow> db_faults d = [] \<Longrightarrow> m_ListChunks u i d =
    (Inr (sort_key c_Index (filter (\<lambda>c. c_UserID c = u \<and> c_VirtualFileID c = i) (db_chunks d))), d)"
  by (simp add: m_ListChunks_def scoped_def)

lemma m_ListVirtualFiles_eq:
  "u \<noteq> [] \<Longrightarrow> db_faults d = [] \<Longrightarrow> m_ListVirtualFiles m u pre d =
    (Inr (sort_key (m_collate m \<circ> vf_Name) (filter (\<lambda>v. vf_UserID v = u
       \<and> sql_like (pre @ ''%'') (vf_Name v) \<and> vf_Status v \<noteq> StatusDeleted) (db_vfiles d))), d)"
  by (simp add: m_ListVirtualFiles_def scoped_def)

lemma m_ListAccounts_eq:
  "u \<noteq> [] \<Longrightarrow> db_faults d = [] \<Longrightarrow> m_ListAccounts m u d =
    (Inr (map (with_token m) (sort_key (m_collate m \<circ> a_Label) (filter (\<lambda>a. a_UserID a = u) (db_accounts d)))), d)"
  by (simp add: m_ListAccounts_def scoped_def)

lemma m_GetAccount_eq:
  "u \<noteq> [] \<Longrightarrow> db_faults d = [] \<Longrightarrow> m_GetAccount m u label d =
    (case sql_first a_ID (\<lambda>a. a_UserID a = u \<and> a_Label a = label) (db_accounts d) of
       None \<Rightarrow> Inl ErrNotFound
     | Some a \<Rightarrow> (case decryptToken m (a_TokenCiphertext a) of
          Inl e \<Rightarrow> Inl e | Inr tok \<Rightarrow> Inr (a\<lparr>a_Token := Some tok\<rparr>)), d)"
  by (simp add: m_GetAccount_def scoped_def split: option.splits sum.splits)

lemmas m_read_eq = m_GetVirtualFile_eq m_ListChunks_eq m_ListVirtualFiles_eq m_ListAccounts_eq m_GetAccount_eq

lemma m_GetAccount_found:
  assumes "db_ok d" "u \<noteq> []" "db_faults d = []" "a \<in> set (db_accounts d)" "a_UserID a = u" "a_Label a = label"
  shows "m_GetAccount m u label d = (case decryptToken m (a_TokenCiphertext a) of
     Inl e \<Rightarrow> Inl e | Inr tok \<Rightarrow> Inr (a\<lparr>a_Token := Some tok\<rparr>), d)"
proof -
  have "sql_first a_ID (\<lambda>a. a_UserID a = u \<and> a_Label a = label) (db_accounts d) = Some a"
    using assms uniq_on_inj [OF db_okD(4) [OF assms(1)]] by (intro sql_first_uniq) auto
  with assms show ?thesis by (simp add: m_GetAccount_eq)
qed

text \<open>The reads of a user depend on that user's view only.\<close>
lemma reads_by_view:
  assumes "tenant_view u d = tenant_view u d'" "u \<noteq> []" "db_faults d = []" "db_faults d' = []"
  shows "fst (m_GetVirtualFile u name d) = fst (m_GetVirtualFile u name d')"
    and "fst (m_ListVirtualFiles m u pre d) = fst (m_ListVirtualFiles m u pre d')"
    and "fst (m_ListChunks u i d) = fst (m_ListChunks u i d')"
    and "fst (m_ListAccounts m u d) = fst (m_ListAccounts m u d')"
    and "fst (m_GetAccount m u label d) = fst (m_GetAccount m u label d')"
proof -
  have v: "filter (\<lambda>a. a_UserID a = u) (db_accounts d) = filter (\<lambda>a. a_UserID a = u) (db_accounts d')"
    "filter (\<lambda>v. vf_UserID v = u) (db_vfiles d) = filter (\<lambda>v. vf_UserID v = u) (db_vfiles d')"
    "filter (\<lambda>c. c_UserID c = u) (db_chunks d) = filter (\<lambda>c. c_UserID c = u) (db_chunks d')"
    using assms(1) by (simp_all add: tenant_view_def)
  show "fst (m_GetVirtualFile u name d) = fst (m_GetVirtualFile u name d')"
    "fst (m_ListAccounts m u d) = fst (m_ListAccounts m u d')"
    "fst (m_GetAccount m u label d) = fst (m_GetAccount m u label d')"
    using assms(2-4) by (simp_all add: m_read_eq sql_first_filter v)
  have "filter (\<lambda>v. vf_UserID v = u \<and> Q v) (db_vfiles d) = filter (\<lambda>v. vf_UserID v = u \<and> Q v) (db_vfiles d')" for Q
    using arg_cong [OF v(2), of "filter Q"] by (simp add: conj_commute)
  then show "fst (m_ListVirtualFiles m u pre d) = fst (m_ListVirtualFiles m u pre d')"
    using assms(2-4) by (simp add: m_read_eq)
  have "filter (\<lambda>c. c_UserID c = u \<and> Q c) (db_chunks d) = filter (\<lambda>c. c_UserID c = u \<and> Q c) (db_chunks d')" for Q
    using arg_cong [OF v(3), of "filter Q"] by (simp add: conj_commute)
  then show "fst (m_ListChunks u i d) = fst (m_ListChunks u i d')"
    using assms(2-4) by (simp add: m_read_eq)
qed

text \<open>
  The join of \<open>CountActiveChunks\<close> counts every chunk once, because a chunk has exactly one file.
\<close>
lemma m_CountActiveChunks_zero_iff:
  assumes "db_ok d" "db_faults d = []"
  shows "fst (m_CountActiveChunks u i d) = Inr 0 \<longleftrightarrow>
    (\<forall>c \<in> set (db_chunks d). \<forall>v \<in> set (db_vfiles d). vf_ID v = c_VirtualFileID c \<longrightarrow>
       c_UserID c = u \<longrightarrow> c_AccountID c = Some i \<longrightarrow> vf_Status v = StatusDeleted)"
  using assms(2) by (auto simp: m_CountActiveChunks_def filter_empty_conv)

subsection \<open>Properties\<close>

text \<open>
  C4. Tenant isolation: whatever sequence of writes other users perform (each adding chunks only
  to their own files on their own accounts), the database keeps its integrity and a user's
  \<open>GetVirtualFile\<close>, \<open>ListVirtualFiles\<close>, \<open>ListChunks\<close>, \<open>ListAccounts\<close> and \<open>GetAccount\<close> return
  what they returned before.
\<close>
theorem tenant_isolation:
  assumes "tenant_ok d" "all_allowed (mop_step m) mop_allowed ops d" "u \<notin> fst ` set ops" "u \<noteq> []"
    and d': "d' = (run_steps (mop_step m) ops d)\<lparr>db_faults := []\<rparr>" and "db_faults d = []"
  shows "tenant_ok d'
    \<and> fst (m_GetVirtualFile u name d') = fst (m_GetVirtualFile u name d)
    \<and> fst (m_ListVirtualFiles m' u pre d') = fst (m_ListVirtualFiles m' u pre d)
    \<and> fst (m_ListChunks u i d') = fst (m_ListChunks u i d)
    \<and> fst (m_ListAccounts m' u d') = fst (m_ListAccounts m' u d)
    \<and> fst (m_GetAccount m' u label d') = fst (m_GetAccount m' u label d)"
proof -
  have "tenant_view u d' = tenant_view u d" "db_faults d' = []"
    using tenants.run_view [OF assms(1-3)] by (simp_all add: d')
  moreover have "tenant_ok d'" using tenants.run_inv [OF assms(1,2)] by (simp add: d')
  ultimately show ?thesis using reads_by_view [of u d' d] assms(4,6) by simp
qed

text \<open>
  A registered account comes back with its token: after \<open>AddAccount\<close>, \<open>GetAccount\<close> decrypts
  the stored ciphertext to the token that was given, and the row never holds the token itself.
\<close>
theorem account_token_roundtrip:
  assumes "db_ok d" "db_faults d = []" "u \<noteq> []"
    and "m_AddAccount m rnd u a d = (Inr (), d')"
    and "a_Token a = Some tok" "m_marshal m (Some tok) = Inr j" "m_unmarshal m j = Inr tok"
  shows "\<exists>row. m_GetAccount m u (a_Label a) d' = (Inr row, d')
    \<and> a_ID row = a_ID a \<and> a_UserID row = u \<and> a_Label row = a_Label a \<and> a_Token row = Some tok
    \<and> (\<forall>r \<in> set (db_accounts d'). r \<notin> set (db_accounts d) \<longrightarrow> a_Token r = None
         \<and> length (a_TokenCiphertext r) = 16 + length j)"
proof -
  obtain c where c: "encrypt_buffer (m_prims m) (m_tokenKey m) rnd j = Inr c"
    and ins: "query (sql_insert_account (a\<lparr>a_UserID := u, a_TokenCiphertext := c\<rparr>)) d = (Inr (), d')"
    using assms(4-6) by (auto simp: m_AddAccount_def encryptToken_def split: sum.splits)
  define row where "row = a\<lparr>a_UserID := u, a_TokenCiphertext := c, a_Token := None\<rparr>"
  have d': "db_accounts d' = db_accounts d @ [row]" "db_faults d' = []" "db_ok d'"
    using ins assms(1,2) sql_insert_account_ok [OF assms(1), of "a\<lparr>a_UserID := u, a_TokenCiphertext := c\<rparr>"]
    by (auto simp: sql_insert_account_def row_def split: if_splits)
  have "decryptToken m c = Inr tok"
    using aes_ctr.dec_enc_bytes [OF c] assms(7) by (simp add: decryptToken_def)
  then have "m_GetAccount m u (a_Label a) d' = (Inr (row\<lparr>a_Token := Some tok\<rparr>), d')"
    using m_GetAccount_found [OF d'(3) assms(3) d'(2), of row] d'(1) by (simp add: row_def)
  then show ?thesis
    using d'(1) aes_ctr.enc_length [OF c] by (auto simp: row_def)
qed

text \<open>
  \<open>CreateVirtualFile\<close> for a known user has exactly two outcomes: \<open>ErrNameExists\<close>, precisely
  when the user already has a row of that name (a soft-deleted one included), leaving every table
  as it was; or a new row with a fresh identifier, the user's ownership and the defaults filled
  in, which \<open>GetVirtualFile\<close> then finds and which has no chunks yet.
\<close>
theorem create_virtual_file:
  assumes "db_ok d" "db_faults d = []" "u \<noteq> []" "u \<in> u_ID ` set (db_users d)"
  shows "case m_CreateVirtualFile now u vf d of
      (Inl e, d') \<Rightarrow> e = ErrNameExists \<and> (u, vf_Name vf) \<in> (\<lambda>v. (vf_UserID v, vf_Name v)) ` set (db_vfiles d)
        \<and> d' = d\<lparr>db_vfseq := db_vfseq d + 1\<rparr>
    | (Inr row, d') \<Rightarrow> (u, vf_Name vf) \<notin> (\<lambda>v. (vf_UserID v, vf_Name v)) ` set (db_vfiles d)
        \<and> db_ok d' \<and> vf_ID row \<notin> vf_ID ` set (db_vfiles d) \<and> vf_UserID row = u
        \<and> vf_Replicas row \<noteq> 0 \<and> vf_Version row \<noteq> 0
        \<and> m_GetVirtualFile u (vf_Name vf) d' = (Inr row, d')
        \<and> fst (m_ListChunks u (vf_ID row) d') = Inr []"
proof -
  define v1 where "v1 = vf\<lparr>vf_UserID := u, vf_CreatedAt := now, vf_ModifiedAt := now\<rparr>"
  define v2 where "v2 = (if vf_Replicas v1 = 0 then v1\<lparr>vf_Replicas := 1\<rparr> else v1)"
  define w where "w = (if vf_Version v2 = 0 then v2\<lparr>vf_Version := 1\<rparr> else v2)"
  have w: "vf_UserID w = u" "vf_Name w = vf_Name vf" "vf_Replicas w \<noteq> 0" "vf_Version w \<noteq> 0"
    by (simp_all add: w_def v2_def v1_def)
  have eq: "m_CreateVirtualFile now u vf d = (case sql_insert_vfile w d of
      (Inl e, d') \<Rightarrow> (Inl (if IsUniqueViolation e then ErrNameExists else e), d')
    | (Inr row, d') \<Rightarrow> (Inr row, d'))"
    using assms(2) by (simp add: m_CreateVirtualFile_def w_def v2_def v1_def Let_def)
  have user: "list_ex (\<lambda>x. u_ID x = u) (db_users d)" using assms(4) by (simp add: list_ex_image)
  show ?thesis
  proof (cases "list_ex (\<lambda>v. vf_UserID v = u \<and> vf_Name v = vf_Name vf) (db_vfiles d)")
    case True
    then show ?thesis unfolding eq
      by (auto simp: sql_insert_vfile_def Let_def w IsUniqueViolation_def list_ex_iff image_iff)
  next
    case False
    define row where "row = w\<lparr>vf_ID := db_vfseq d + 1\<rparr>"
    define d' where "d' = d\<lparr>db_vfseq := db_vfseq d + 1, db_vfiles := db_vfiles d @ [row]\<rparr>"
    have ins: "sql_insert_vfile w d = (Inr row, d')"
      using False user by (simp add: sql_insert_vfile_def Let_def w row_def d'_def)
    have ok: "db_ok d'" using sql_insert_vfile_ok [OF assms(1), of w] by (simp add: ins)
    have fresh: "vf_ID row \<notin> vf_ID ` set (db_vfiles d)"
      using db_okD(9) [OF assms(1)] by (fastforce simp: row_def)
    then have "filter (\<lambda>c. c_UserID c = u \<and> c_VirtualFileID c = vf_ID row) (db_chunks d') = []"
      using db_okD(10) [OF assms(1)] by (simp add: filter_empty_conv d'_def) metis
    moreover have "m_GetVirtualFile u (vf_Name vf) d' = (Inr row, d')"
      using ok assms(2,3) w by (intro m_GetVirtualFile_found) (simp_all add: d'_def row_def)
    ultimately show ?thesis
      using False ok fresh w assms(2,3) unfolding eq ins
      by (auto simp: m_ListChunks_eq d'_def row_def list_ex_iff)
  qed
qed

text \<open>
  \<open>ListVirtualFiles\<close> returns, sorted by the collation, exactly the user's files that are not
  deleted and whose name starts with the prefix, provided the prefix has none of the pattern
  characters of \<open>LIKE\<close>.
\<close>
theorem list_virtual_files:
  assumes "u \<noteq> []" "db_faults d = []" "set pre \<inter> {CHR ''%'', CHR ''_'', CHR 0x5C} = {}"
  shows "\<exists>vs. m_ListVirtualFiles m u pre d = (Inr vs, d)
    \<and> sorted (map (m_collate m \<circ> vf_Name) vs)
    \<and> mset vs = mset (filter (\<lambda>v. vf_UserID v = u \<and> prefix pre (vf_Name v) \<and> vf_Status v \<noteq> StatusDeleted) (db_vfiles d))"
  using assms by (simp add: m_ListVirtualFiles_eq sql_like_prefix)

text \<open>
  The pattern characters are not escaped: whatever name of the right length a user's live
  file has, a listing whose prefix is a run of underscores returns it.
\<close>
theorem list_prefix_wildcard:
  assumes "u \<noteq> []" "db_faults d = []" "v \<in> set (db_vfiles d)" "vf_UserID v = u"
    and "vf_Status v \<noteq> StatusDeleted" "n \<le> length (vf_Name v)"
  shows "\<exists>vs. m_ListVirtualFiles m u (replicate n (CHR ''_'')) d = (Inr vs, d) \<and> v \<in> set vs"
proof -
  have "sql_like (replicate n (CHR ''_'') @ ''%'') s" if "n \<le> length s" for s
    using that
  proof (induction n arbitrary: s)
    case (Suc n)
    then show ?case by (cases s) simp_all
  qed simp
  with assms show ?thesis by (simp add: m_ListVirtualFiles_eq)
qed

text \<open>The two ways of deleting a file, on the tables.\<close>
lemma delete_purges:
  assumes "db_ok d" "db_faults d = []" "u \<noteq> []" "v \<in> set (db_vfiles d)" "vf_UserID v = u" "vf_Name v = name"
    and del: "m_DeleteVirtualFile now u name True d = (res, d')"
  shows "res = Inr ()" "db_ok d'" "db_faults d' = []"
    "db_vfiles d' = filter (\<lambda>w. \<not> (vf_UserID w = u \<and> vf_Name w = name)) (db_vfiles d)"
    "db_chunks d' = filter (\<lambda>c. c_VirtualFileID c \<noteq> vf_ID v) (db_chunks d)"
proof -
  let ?Q = "\<lambda>w. vf_UserID w = u \<and> vf_Name w = name"
  have d': "res = Inr ()" "d' = snd (sql_delete_vfiles ?Q d)"
    using del assms(2,3) by (simp_all add: m_DeleteVirtualFile_def scoped_def sql_delete_vfiles_def Let_def)
  have only: "w = v" if "w \<in> set (db_vfiles d)" "?Q w" for w
    using uniq_on_inj [OF db_okD(6) [OF assms(1)], of w v] that assms(4-6) by simp
  have "{w \<in> set (db_vfiles d). ?Q w} = {v}" using assms(4-6) by (intro equalityI subsetI) (simp_all add: only)
  then have "vf_ID ` {w \<in> set (db_vfiles d). ?Q w} = {vf_ID v}" by simp
  with d' assms(2) sql_delete_vfiles_ok [OF assms(1), of ?Q]
  show "res = Inr ()" "db_ok d'" "db_faults d' = []" "db_vfiles d' = filter (\<lambda>w. \<not> ?Q w) (db_vfiles d)"
    "db_chunks d' = filter (\<lambda>c. c_VirtualFileID c \<noteq> vf_ID v) (db_chunks d)"
    by (simp_all add: sql_delete_vfiles_def Let_def)
qed

lemma delete_hides:
  assumes "db_ok d" "db_faults d = []" "u \<noteq> []" "v \<in> set (db_vfiles d)" "vf_UserID v = u" "vf_Name v = name"
    and del: "m_DeleteVirtualFile now u name False d = (res, d')"
  shows "res = Inr ()" "db_ok d'" "db_faults d' = []" "db_chunks d' = db_chunks d"
    "db_vfiles d' = map (\<lambda>w. if vf_UserID w = u \<and> vf_Name w = name
       then w\<lparr>vf_Status := StatusDeleted, vf_ModifiedAt := now\<rparr> else w) (db_vfiles d)"
proof -
  let ?Q = "\<lambda>w. vf_UserID w = u \<and> vf_Name w = name" and ?f = "\<lambda>w. w\<lparr>vf_Status := StatusDeleted, vf_ModifiedAt := now\<rparr>"
  have "filter ?Q (db_vfiles d) \<noteq> []" using assms(4-6) by (auto simp: filter_empty_conv)
  then have "res = Inr ()" "d' = snd (sql_update_vfiles ?Q ?f d)"
    using del assms(2,3) by (auto simp: m_DeleteVirtualFile_def scoped_def sql_update_vfiles_def)
  with assms(2) sql_update_vfiles_ok [OF assms(1), of ?f ?Q]
  show "res = Inr ()" "db_ok d'" "db_faults d' = []" "db_chunks d' = db_chunks d"
    "db_vfiles d' = map (\<lambda>w. if ?Q w then ?f w else w) (db_vfiles d)"
    by (simp_all add: sql_update_vfiles_def)
qed

text \<open>
  Deletion. A soft delete hides the file from listings and keeps its row (marked deleted)
  and its chunks, so \<open>GetVirtualFile\<close> still returns it; a purge removes the row and, by cascade,
  its chunks; either way no other file of any user is touched.
\<close>
theorem delete_virtual_file:
  assumes "db_ok d" "db_faults d = []" "u \<noteq> []" "v \<in> set (db_vfiles d)" "vf_UserID v = u" "vf_Name v = name"
    and del: "m_DeleteVirtualFile now u name purge d = (res, d')"
  shows "res = Inr () \<and> db_ok d'
    \<and> (\<forall>w. w \<noteq> v \<longrightarrow> w \<in> set (db_vfiles d) \<longrightarrow> w \<in> set (db_vfiles d')
         \<and> filter (\<lambda>c. c_VirtualFileID c = vf_ID w) (db_chunks d')
           = filter (\<lambda>c. c_VirtualFileID c = vf_ID w) (db_chunks d))
    \<and> (purge \<longrightarrow> fst (m_GetVirtualFile u name d') = Inl ErrNotFound
         \<and> fst (m_ListChunks u (vf_ID v) d') = Inr [])
    \<and> (\<not> purge \<longrightarrow> fst (m_GetVirtualFile u name d') = Inr (v\<lparr>vf_Status := StatusDeleted, vf_ModifiedAt := now\<rparr>)
         \<and> db_chunks d' = db_chunks d
         \<and> (\<forall>vs. fst (m_ListVirtualFiles m u pre d') = Inr vs \<longrightarrow> name \<notin> vf_Name ` set vs))"
proof -
  let ?Q = "\<lambda>w. vf_UserID w = u \<and> vf_Name w = name"
  have other: "\<not> ?Q w \<and> vf_ID w \<noteq> vf_ID v" if "w \<in> set (db_vfiles d)" "w \<noteq> v" for w
    using uniq_on_inj [OF db_okD(6) [OF assms(1)], of w v] uniq_on_inj [OF db_okD(5) [OF assms(1)], of w v] that assms(4-6) by auto
  show ?thesis
  proof (cases purge)
    case True
    with del have "m_DeleteVirtualFile now u name True d = (res, d')" by simp
    note tabs = delete_purges [OF assms(1-6) this]
    have "fst (m_GetVirtualFile u name d') = Inl ErrNotFound"
      using m_GetVirtualFile_missing [OF assms(3) tabs(3), of name] by (simp add: tabs(4))
    moreover have "filter (\<lambda>c. c_UserID c = u \<and> c_VirtualFileID c = vf_ID v) (db_chunks d') = []"
      by (simp add: tabs(5) filter_empty_conv)
    then have "fst (m_ListChunks u (vf_ID v) d') = Inr []" using assms(3) tabs(3) by (simp add: m_ListChunks_eq)
    moreover have "filter (\<lambda>c. c_VirtualFileID c = vf_ID w) (db_chunks d') = filter (\<lambda>c. c_VirtualFileID c = vf_ID w) (db_chunks d)"
      if "w \<in> set (db_vfiles d)" "w \<noteq> v" for w
      unfolding tabs(5) filter_filter using other [OF that] by (intro filter_cong) auto
    ultimately show ?thesis using True tabs(1,2,4) other by auto
  next
    case False
    let ?f = "\<lambda>w. w\<lparr>vf_Status := StatusDeleted, vf_ModifiedAt := now\<rparr>"
    from del False have "m_DeleteVirtualFile now u name False d = (res, d')" by simp
    note tabs = delete_hides [OF assms(1-6) this]
    have "?f v \<in> set (db_vfiles d')" using assms(4-6) by (force simp: tabs(5))
    then have "fst (m_GetVirtualFile u name d') = Inr (?f v)"
      using m_GetVirtualFile_found [OF tabs(2) assms(3) tabs(3), of "?f v"] assms(5,6) by simp
    moreover have "name \<notin> vf_Name ` set vs" if "fst (m_ListVirtualFiles m u pre d') = Inr vs" for vs
    proof
      have "set vs \<subseteq> {w \<in> set (db_vfiles d'). vf_UserID w = u \<and> vf_Status w \<noteq> StatusDeleted}"
        using that assms(3) tabs(3) by (auto simp: m_ListVirtualFiles_eq)
      moreover assume "name \<in> vf_Name ` set vs"
      ultimately obtain w where "w \<in> set (db_vfiles d')" and w: "?Q w" "vf_Status w \<noteq> StatusDeleted" by auto
      then obtain x where "w = (if ?Q x then ?f x else x)" unfolding tabs(5) set_map by blast
      with w show False by (cases "?Q x") simp_all
    qed
    moreover have "w \<in> set (db_vfiles d')" if "w \<in> set (db_vfiles d)" "w \<noteq> v" for w
      using that other [OF that] by (force simp: tabs(5))
    ultimately show ?thesis using False tabs(1,2,4) by simp
  qed
qed

subsection \<open>Witnesses\<close>

text \<open>A manifest of two users, the first with an account, a file and a chunk of it.\<close>

definition toy_token :: token where
  "toy_token = \<lparr>tok_AccessToken = ''at'', tok_TokenType = ''Bearer'', tok_RefreshToken = ''rt'', tok_Expiry = 7\<rparr>"

definition toy_mcfg :: mcfg where
  "toy_mcfg = \<lparr>m_prims = toy_prims, m_tokenKey = replicate 32 5, m_marshal = (\<lambda>t. Inr [123, 125]),
     m_unmarshal = (\<lambda>b. if b = [123, 125] then Inr toy_token else Inl ''bad''), m_collate = id\<rparr>"

definition toy_account :: "string \<Rightarrow> string \<Rightarrow> string \<Rightarrow> account_row" where
  "toy_account i u label = \<lparr>a_ID = i, a_UserID = u, a_Label = label, a_TokenCiphertext = [],
     a_AddedAt = 0, a_QuotaLimit = None, a_QuotaUsage = None, a_QuotaCheckedAt = None, a_Token = None\<rparr>"

definition toy_vfile :: "int \<Rightarrow> string \<Rightarrow> string \<Rightarrow> virtual_file" where
  "toy_vfile i u name = \<lparr>vf_ID = i, vf_UserID = u, vf_Name = name, vf_Size = 3, vf_ContentHash = [],
     vf_ChunkSize = 4, vf_FileKey = [], vf_Replicas = 0, vf_Version = 0, vf_Status = StatusComplete,
     vf_CreatedAt = 0, vf_ModifiedAt = 0\<rparr>"

definition toy_chunk :: "string \<Rightarrow> int \<Rightarrow> int \<Rightarrow> string \<Rightarrow> chunk" where
  "toy_chunk u vf i acc = \<lparr>c_ID = 0, c_UserID = u, c_VirtualFileID = vf, c_Index = i, c_AccountID = Some acc,
     c_RemoteFileID = ''r'', c_RemoteFolderID = ''f'', c_PlaintextSize = 3, c_PlaintextSHA256 = [],
     c_CiphertextMD5 = [], c_CompressionAlgo = CompressionNone, c_CompressedSize = 3, c_UploadedAt = 0\<rparr>"

definition toy_user :: "string \<Rightarrow> user_row" where
  "toy_user u = \<lparr>u_ID = u, u_Username = u, u_PasswordHash = [], u_CreatedAt = 0\<rparr>"

definition toy_db :: db where
  "toy_db = \<lparr>db_users = [toy_user ''u'', toy_user ''w''], db_accounts = [toy_account ''A'' ''u'' ''work''],
     db_vfiles = [toy_vfile 1 ''u'' ''abc''], db_chunks = [toy_chunk ''u'' 1 0 ''A''], db_vfseq = 1,
     db_chunkseq = 1, db_faults = []\<rparr>"

lemmas toy_db_defs = toy_db_def toy_user_def toy_account_def toy_vfile_def toy_chunk_def

lemma toy_db_ok: "db_ok toy_db"
  by (simp add: db_ok_def toy_db_defs uniq_on_def)

lemma toy_tenant_ok: "tenant_ok toy_db"
  using toy_db_ok by (simp add: tenant_ok_def toy_db_defs)

theorem tenant_isolation_witness:
  "fst (m_GetVirtualFile ''u'' ''abc'' ((run_steps (mop_step toy_mcfg)
      [(''w'', MCreateVirtualFile 9 (toy_vfile 0 [] ''abc'')), (''w'', MDeleteVirtualFile 9 ''abc'' True),
       (''w'', MRemoveAccount ''work'')] toy_db)\<lparr>db_faults := []\<rparr>)) = Inr (toy_vfile 1 ''u'' ''abc'')"
proof -
  let ?ops = "[(''w'', MCreateVirtualFile 9 (toy_vfile 0 [] ''abc'')), (''w'', MDeleteVirtualFile 9 ''abc'' True),
       (''w'', MRemoveAccount ''work'')]"
  have "all_allowed (mop_step toy_mcfg) mop_allowed ?ops toy_db" by (simp add: mop_allowed_def)
  moreover have "m_GetVirtualFile ''u'' ''abc'' toy_db = (Inr (toy_vfile 1 ''u'' ''abc''), toy_db)"
    by (rule m_GetVirtualFile_found [OF toy_db_ok]) (simp_all add: toy_db_defs)
  ultimately show ?thesis
    using tenant_isolation [OF toy_tenant_ok, of toy_mcfg ?ops "''u''" _ "''abc''" toy_mcfg "[]" 0 "[]"]
    by (simp add: toy_db_def)
qed

theorem account_token_roundtrip_witness:
  "\<exists>d' row. m_AddAccount toy_mcfg toy_rnd ''w'' ((toy_account ''B'' [] ''home'')\<lparr>a_Token := Some toy_token\<rparr>) toy_db
      = (Inr (), d') \<and> m_GetAccount toy_mcfg ''w'' ''home'' d' = (Inr row, d') \<and> a_Token row = Some toy_token"
proof -
  let ?a = "(toy_account ''B'' [] ''home'')\<lparr>a_Token := Some toy_token\<rparr>"
  obtain d' where d': "m_AddAccount toy_mcfg toy_rnd ''w'' ?a toy_db = (Inr (), d')"
    by (simp add: m_AddAccount_def encryptToken_def toy_mcfg_def encrypt_buffer_eq aes_key_ok_def
        toy_db_defs sql_insert_account_def)
  have "\<exists>row. m_GetAccount toy_mcfg ''w'' (a_Label ?a) d' = (Inr row, d') \<and> a_ID row = a_ID ?a
      \<and> a_UserID row = ''w'' \<and> a_Label row = a_Label ?a \<and> a_Token row = Some toy_token
      \<and> (\<forall>r \<in> set (db_accounts d'). r \<notin> set (db_accounts toy_db) \<longrightarrow> a_Token r = None
         \<and> length (a_TokenCiphertext r) = 16 + length ([123, 125] :: bytes))"
    by (rule account_token_roundtrip [OF toy_db_ok _ _ d'])
      (simp_all add: toy_mcfg_def toy_db_def)
  with d' show ?thesis by (auto simp: toy_account_def)
qed

theorem create_virtual_file_witness:
  "fst (m_CreateVirtualFile 9 ''u'' (toy_vfile 0 [] ''abc'') toy_db) = Inl ErrNameExists
    \<and> (\<exists>row d'. m_CreateVirtualFile 9 ''u'' (toy_vfile 0 [] ''x'') toy_db = (Inr row, d')
        \<and> m_GetVirtualFile ''u'' ''x'' d' = (Inr row, d') \<and> vf_Version row \<noteq> 0)"
proof -
  have p: "db_faults toy_db = []" "''u'' \<noteq> []" "''u'' \<in> u_ID ` set (db_users toy_db)"
    by (simp_all add: toy_db_defs)
  have t: "(''u'', vf_Name (toy_vfile 0 [] ''abc'')) \<in> (\<lambda>v. (vf_UserID v, vf_Name v)) ` set (db_vfiles toy_db)"
    "(''u'', vf_Name (toy_vfile 0 [] ''x'')) \<notin> (\<lambda>v. (vf_UserID v, vf_Name v)) ` set (db_vfiles toy_db)"
    "vf_Name (toy_vfile 0 [] ''x'') = ''x''"
    by (simp_all add: toy_db_defs)
  show ?thesis
    using create_virtual_file [OF toy_db_ok p, of "toy_vfile 0 [] ''abc''" 9]
      create_virtual_file [OF toy_db_ok p, of "toy_vfile 0 [] ''x''" 9] t
    by (auto split: prod.splits sum.splits)
qed

theorem list_virtual_files_witness:
  "\<exists>vs. m_ListVirtualFiles toy_mcfg ''u'' ''ab'' toy_db = (Inr vs, toy_db) \<and> mset vs = {#toy_vfile 1 ''u'' ''abc''#}"
  using list_virtual_files [of "''u''" toy_db "''ab''" toy_mcfg] by (simp add: toy_db_defs)

theorem list_prefix_wildcard_witness:
  "\<exists>vs. m_ListVirtualFiles toy_mcfg ''u'' ''__'' toy_db = (Inr vs, toy_db) \<and> toy_vfile 1 ''u'' ''abc'' \<in> set vs"
  using list_prefix_wildcard [of "''u''" toy_db "toy_vfile 1 ''u'' ''abc''" 2 toy_mcfg]
  by (simp add: toy_db_defs numeral_2_eq_2)

theorem delete_virtual_file_witness:
  "\<exists>d'. m_DeleteVirtualFile 9 ''u'' ''abc'' False toy_db = (Inr (), d')
     \<and> fst (m_GetVirtualFile ''u'' ''abc'' d') =
         Inr ((toy_vfile 1 ''u'' ''abc'')\<lparr>vf_Status := StatusDeleted, vf_ModifiedAt := 9\<rparr>)"
proof -
  obtain res d' where d': "m_DeleteVirtualFile 9 ''u'' ''abc'' False toy_db = (res, d')" by (metis surj_pair)
  have p: "toy_vfile 1 ''u'' ''abc'' \<in> set (db_vfiles toy_db)" "db_faults toy_db = []"
    "vf_UserID (toy_vfile 1 ''u'' ''abc'') = ''u''" "vf_Name (toy_vfile 1 ''u'' ''abc'') = ''abc''"
    by (simp_all add: toy_db_defs)
  from delete_virtual_file [OF toy_db_ok p(2) _ p(1,3,4) d'] d' show ?thesis by simp
qed

end
