(* ===== verification/GDrive.thy ===== *)
theory GDrive
  imports Storage_Crypto
begin

text \<open>
  \<open>drivepool/gdrive/client.go\<close>: the \<open>RemoteStore\<close> interface and its implementation \<open>Client\<close> over
  the Google Drive v3 service. The service is not part of the repository: it is the record
  \<open>drive_service\<close> of the five API calls the client makes, acting on a state \<open>'d\<close> of one Drive
  account. What the program relies on is stated twice: of the service (locale \<open>drive_api\<close>, the
  documented behaviour of the API) and of the interface (locale \<open>remote_contract\<close>, what the pool
  uses), and the second is derived from the first through the client.
\<close>

datatype api_error = GoogleAPI int string | Transport string

datatype gerror =
    GNotFound string  \<comment> \<open>wraps \<open>ErrNotFound\<close>\<close>
  | GQuota api_error | GListFolder string api_error | GCreateFolder string api_error
  | GUpload string api_error | GDownload string api_error | GDelete string api_error

definition StatusNotFound :: int where
  "StatusNotFound = 404"

definition isNotFoundErr :: "api_error \<Rightarrow> bool" where
  "isNotFoundErr e = (case e of GoogleAPI code msg \<Rightarrow> code = StatusNotFound | Transport msg \<Rightarrow> False)"

record quota_info =
  Limit :: int
  Usage :: int
  Unlimited :: bool
  PhotoURL :: string

definition Available :: "quota_info \<Rightarrow> int" where
  "Available q =
     (if Unlimited q then 2 ^ 63 - 1
      else if Limit q \<le> Usage q then 0
      else i64 (Limit q - Usage q))"

subsection \<open>The interface and the service behind it\<close>

record 'd remote_store =
  rs_EnsureFolder :: "string \<Rightarrow> 'd \<Rightarrow> (gerror, string) result \<times> 'd"
  rs_Upload :: "string \<Rightarrow> string \<Rightarrow> bytes \<Rightarrow> 'd \<Rightarrow> (gerror, string \<times> string) result \<times> 'd"
  rs_Download :: "string \<Rightarrow> 'd \<Rightarrow> (gerror, reader) result"
  rs_Delete :: "string \<Rightarrow> 'd \<Rightarrow> gerror option \<times> 'd"
  rs_Quota :: "'d \<Rightarrow> (gerror, quota_info) result"

record drive_file =
  df_Name :: string
  df_MimeType :: string
  df_Parents :: "string list"

record drive_about =
  ab_PhotoLink :: "string option"  \<comment> \<open>\<open>about.User.PhotoLink\<close>, \<open>None\<close> for a nil user\<close>
  ab_StorageQuota :: "(int \<times> int) option"  \<comment> \<open>limit and usage, \<open>None\<close> for a nil quota\<close>

record 'd drive_service =
  About_Get :: "'d \<Rightarrow> (api_error, drive_about) result"
  Files_List :: "string \<Rightarrow> 'd \<Rightarrow> (api_error, string list) result"
  Files_Create :: "drive_file \<Rightarrow> 'd \<Rightarrow> (api_error, string) result \<times> 'd"
  Files_Create_Media :: "drive_file \<Rightarrow> bytes \<Rightarrow> 'd \<Rightarrow> (api_error, string \<times> string) result \<times> 'd"
  Files_Get_Media :: "string \<Rightarrow> 'd \<Rightarrow> (api_error, reader) result"
  Files_Delete :: "string \<Rightarrow> 'd \<Rightarrow> api_error option \<times> 'd"

definition folder_mime :: string where
  "folder_mime = ''application/vnd.google-apps.folder''"

text \<open>\<open>fmt.Sprintf("%q", s)\<close> on the printable ASCII names the pool passes.\<close>
definition go_quote :: "string \<Rightarrow> string" where
  "go_quote s = CHR 0x22 # concat (map (\<lambda>c. if c = CHR 0x22 \<or> c = CHR 0x5C then [CHR 0x5C, c] else [c]) s) @ [CHR 0x22]"

subsection \<open>Client\<close>

definition client_Quota :: "'d drive_service \<Rightarrow> 'd \<Rightarrow> (gerror, quota_info) result" where
  "client_Quota svc d = (case About_Get svc d of
     Inl e \<Rightarrow> Inl (GQuota e)
   | Inr about \<Rightarrow>
      (let photo = (case ab_PhotoLink about of None \<Rightarrow> [] | Some p \<Rightarrow> p) in
       case ab_StorageQuota about of
         None \<Rightarrow> Inr \<lparr>Limit = 0, Usage = 0, Unlimited = True, PhotoURL = photo\<rparr>
       | Some (limit, usage) \<Rightarrow>
           if limit = 0 then Inr \<lparr>Limit = 0, Usage = 0, Unlimited = True, PhotoURL = photo\<rparr>
           else Inr \<lparr>Limit = limit, Usage = usage, Unlimited = False, PhotoURL = photo\<rparr>))"

definition folder_query :: "string \<Rightarrow> string" where
  "folder_query name = ''name = '' @ go_quote name @ '' and mimeType = '' @ [CHR 0x27] @ folder_mime
     @ [CHR 0x27] @ '' and trashed = false''"

definition client_EnsureFolder :: "'d drive_service \<Rightarrow> string \<Rightarrow> 'd \<Rightarrow> (gerror, string) result \<times> 'd" where
  "client_EnsureFolder svc name d =
     (case Files_List svc (folder_query name) d of
        Inl e \<Rightarrow> (Inl (GListFolder name e), d)
      | Inr (fid # _) \<Rightarrow> (Inr fid, d)
      | Inr [] \<Rightarrow>
         (case Files_Create svc \<lparr>df_Name = name, df_MimeType = folder_mime, df_Parents = []\<rparr> d of
            (Inl e, d') \<Rightarrow> (Inl (GCreateFolder name e), d')
          | (Inr fid, d') \<Rightarrow> (Inr fid, d')))"

definition client_Upload ::
  "'d drive_service \<Rightarrow> string \<Rightarrow> string \<Rightarrow> bytes \<Rightarrow> 'd \<Rightarrow> (gerror, string \<times> string) result \<times> 'd"
where
  "client_Upload svc name folderID b d =
     (case Files_Create_Media svc \<lparr>df_Name = name, df_MimeType = [], df_Parents = [folderID]\<rparr> b d of
        (Inl e, d') \<Rightarrow> (Inl (GUpload name e), d')
      | (Inr (fid, md5), d') \<Rightarrow> (Inr (fid, md5), d'))"

definition client_Download :: "'d drive_service \<Rightarrow> string \<Rightarrow> 'd \<Rightarrow> (gerror, reader) result" where
  "client_Download svc rid d = (case Files_Get_Media svc rid d of
     Inl e \<Rightarrow> Inl (GDownload rid e) | Inr body \<Rightarrow> Inr body)"

definition client_Delete :: "'d drive_service \<Rightarrow> string \<Rightarrow> 'd \<Rightarrow> gerror option \<times> 'd" where
  "client_Delete svc rid d = (case Files_Delete svc rid d of
     (None, d') \<Rightarrow> (None, d')
   | (Some e, d') \<Rightarrow> (Some (if isNotFoundErr e then GNotFound rid else GDelete rid e), d'))"

text \<open>\<open>var _ RemoteStore = (*Client)(nil)\<close>: the client is a remote store.\<close>
definition client_store :: "'d drive_service \<Rightarrow> 'd remote_store" where
  "client_store svc =
     \<lparr>rs_EnsureFolder = client_EnsureFolder svc, rs_Upload = client_Upload svc,
      rs_Download = client_Download svc, rs_Delete = client_Delete svc, rs_Quota = client_Quota svc\<rparr>"

subsection \<open>Contracts\<close>

definition rs_holds :: "'d remote_store \<Rightarrow> 'd \<Rightarrow> string \<Rightarrow> bytes \<Rightarrow> bool" where
  "rs_holds rs d rid b \<longleftrightarrow> (\<exists>r. rs_Download rs rid d = Inr r \<and> content r = b \<and> end_err r = EOF)"

definition svc_holds :: "'d drive_service \<Rightarrow> 'd \<Rightarrow> string \<Rightarrow> bytes \<Rightarrow> bool" where
  "svc_holds svc d rid b \<longleftrightarrow> (\<exists>r. Files_Get_Media svc rid d = Inr r \<and> content r = b \<and> end_err r = EOF)"

text \<open>
  The contract of a remote store: an uploaded file can be downloaded, its checksum is absent or
  the MD5 of its bytes, no upload or folder call disturbs a stored file, a deleted file is gone
  and deleting a file leaves the others.
\<close>
locale remote_contract =
  fixes rs :: "'d remote_store" and md5 :: "bytes \<Rightarrow> bytes"
  assumes upload_holds: "rs_Upload rs nm fid b d = (Inr (rid, md), d') \<Longrightarrow> rs_holds rs d' rid b"
    and upload_md5: "rs_Upload rs nm fid b d = (Inr (rid, md), d') \<Longrightarrow> md = [] \<or> md = hex_encode (md5 b)"
    and upload_keeps: "rs_Upload rs nm fid b d = (res, d') \<Longrightarrow> rs_holds rs d x c \<Longrightarrow> rs_holds rs d' x c"
    and folder_keeps: "rs_EnsureFolder rs nm d = (res', d') \<Longrightarrow> rs_holds rs d x c \<Longrightarrow> rs_holds rs d' x c"
    and delete_gone: "rs_Delete rs x d = (None, d') \<Longrightarrow> \<not> rs_holds rs d' x c"
    and delete_other: "rs_holds rs d x b \<Longrightarrow> rs_Delete rs x d = (e, d') \<Longrightarrow> x \<noteq> y \<Longrightarrow>
      rs_holds rs d y c \<Longrightarrow> rs_holds rs d' y c"

text \<open>The same behaviour as the Drive API documents it, on the service calls.\<close>
locale drive_api =
  fixes svc :: "'d drive_service" and md5 :: "bytes \<Rightarrow> bytes"
  assumes create_media_holds: "Files_Create_Media svc f b d = (Inr (rid, md), d') \<Longrightarrow> svc_holds svc d' rid b"
    and create_media_md5: "Files_Create_Media svc f b d = (Inr (rid, md), d') \<Longrightarrow> md = [] \<or> md = hex_encode (md5 b)"
    and create_media_keeps: "Files_Create_Media svc f b d = (res, d') \<Longrightarrow> svc_holds svc d x c \<Longrightarrow> svc_holds svc d' x c"
    and create_keeps: "Files_Create svc f d = (res', d') \<Longrightarrow> svc_holds svc d x c \<Longrightarrow> svc_holds svc d' x c"
    and files_delete_gone: "Files_Delete svc x d = (None, d') \<Longrightarrow> \<not> svc_holds svc d' x c"
    and files_delete_other: "svc_holds svc d x b \<Longrightarrow> Files_Delete svc x d = (e, d') \<Longrightarrow> x \<noteq> y \<Longrightarrow>
      svc_holds svc d y c \<Longrightarrow> svc_holds svc d' y c"

text \<open>
  The two contracts with exact effects: an upload adds one new file or nothing, no other call adds
  a file, and a deletion that finds nothing means there is nothing.
\<close>
locale precise_remote = remote_contract +
  assumes upload_fresh: "rs_Upload rs nm fid b d = (Inr (rid, md), d') \<Longrightarrow> \<not> rs_holds rs d rid c"
    and upload_only: "rs_Upload rs nm fid b d = (res, d') \<Longrightarrow> rs_holds rs d' x c \<Longrightarrow>
      rs_holds rs d x c \<or> (\<exists>md. res = Inr (x, md))"
    and folder_only: "rs_EnsureFolder rs nm d = (res', d') \<Longrightarrow> rs_holds rs d' x c \<Longrightarrow> rs_holds rs d x c"
    and delete_only: "rs_Delete rs y d = (e, d') \<Longrightarrow> rs_holds rs d' x c \<Longrightarrow> rs_holds rs d x c"
    and delete_notfound: "rs_Delete rs x d = (Some (GNotFound y), d') \<Longrightarrow> \<not> rs_holds rs d' x c"

locale precise_api = drive_api +
  assumes create_media_fresh: "Files_Create_Media svc f b d = (Inr (rid, md), d') \<Longrightarrow> \<not> svc_holds svc d rid c"
    and create_media_only: "Files_Create_Media svc f b d = (res, d') \<Longrightarrow> svc_holds svc d' x c \<Longrightarrow>
      svc_holds svc d x c \<or> (\<exists>md. res = Inr (x, md))"
    and create_only: "Files_Create svc f d = (res', d') \<Longrightarrow> svc_holds svc d' x c \<Longrightarrow> svc_holds svc d x c"
    and files_delete_only: "Files_Delete svc y d = (e, d') \<Longrightarrow> svc_holds svc d' x c \<Longrightarrow> svc_holds svc d x c"
    and files_delete_404: "Files_Delete svc x d = (Some (GoogleAPI 404 msg), d') \<Longrightarrow> \<not> svc_holds svc d' x c"

lemma client_store_sel [simp]:
  "rs_EnsureFolder (client_store svc) = client_EnsureFolder svc"
  "rs_Upload (client_store svc) = client_Upload svc"
  "rs_Download (client_store svc) = client_Download svc"
  "rs_Delete (client_store svc) = client_Delete svc"
  "rs_Quota (client_store svc) = client_Quota svc"
  by (simp_all add: client_store_def)

lemma client_holds [simp]: "rs_holds (client_store svc) d rid b = svc_holds svc d rid b"
  by (auto simp: rs_holds_def svc_holds_def client_Download_def split: sum.splits)

text \<open>A law-abiding service makes the client a law-abiding remote store.\<close>
sublocale drive_api \<subseteq> client: remote_contract "client_store svc" md5
proof
  fix nm fid b d rid md d'
  assume "rs_Upload (client_store svc) nm fid b d = (Inr (rid, md), d')"
  then obtain f where "Files_Create_Media svc f b d = (Inr (rid, md), d')"
    by (auto simp: client_Upload_def split: prod.splits sum.splits)
  then show "rs_holds (client_store svc) d' rid b" "md = [] \<or> md = hex_encode (md5 b)"
    by (auto dest: create_media_holds create_media_md5)
next
  fix nm fid b d res d' x c
  assume "rs_Upload (client_store svc) nm fid b d = (res, d')" "rs_holds (client_store svc) d x c"
  then show "rs_holds (client_store svc) d' x c"
    by (auto simp: client_Upload_def dest: create_media_keeps split: prod.splits sum.splits)
next
  fix nm d res' d' x c
  assume "rs_EnsureFolder (client_store svc) nm d = (res', d')" "rs_holds (client_store svc) d x c"
  then show "rs_holds (client_store svc) d' x c"
    by (auto simp: client_EnsureFolder_def dest: create_keeps split: prod.splits sum.splits list.splits)
next
  fix x d d' c
  assume "rs_Delete (client_store svc) x d = (None, d')"
  then show "\<not> rs_holds (client_store svc) d' x c"
    by (auto simp: client_Delete_def dest: files_delete_gone split: prod.splits option.splits)
next
  fix d x b e d' y c
  assume "rs_holds (client_store svc) d x b" "rs_Delete (client_store svc) x d = (e, d')" "x \<noteq> y"
    "rs_holds (client_store svc) d y c"
  then show "rs_holds (client_store svc) d' y c"
    by (auto simp: client_Delete_def dest: files_delete_other split: prod.splits option.splits)
qed

context drive_api
begin

lemma client_contract: "remote_contract (client_store svc) md5"
  by (rule client.remote_contract_axioms)

end

sublocale precise_api \<subseteq> client_precise: precise_remote "client_store svc" md5
proof
  fix nm fid b d rid md d' c
  assume "rs_Upload (client_store svc) nm fid b d = (Inr (rid, md), d')"
  then show "\<not> rs_holds (client_store svc) d rid c"
    by (auto simp: client_Upload_def dest: create_media_fresh split: prod.splits sum.splits)
next
  fix nm fid b d res d' x c
  assume "rs_Upload (client_store svc) nm fid b d = (res, d')" "rs_holds (client_store svc) d' x c"
  then show "rs_holds (client_store svc) d x c \<or> (\<exists>md. res = Inr (x, md))"
    by (auto simp: client_Upload_def dest: create_media_only split: prod.splits sum.splits)
next
  fix nm d res' d' x c
  assume "rs_EnsureFolder (client_store svc) nm d = (res', d')" "rs_holds (client_store svc) d' x c"
  then show "rs_holds (client_store svc) d x c"
    by (auto simp: client_EnsureFolder_def dest: create_only split: prod.splits sum.splits list.splits)
next
  fix y d e d' x c
  assume "rs_Delete (client_store svc) y d = (e, d')" "rs_holds (client_store svc) d' x c"
  then show "rs_holds (client_store svc) d x c"
    by (auto simp: client_Delete_def dest: files_delete_only split: prod.splits option.splits)
next
  fix x d y d' c
  assume "rs_Delete (client_store svc) x d = (Some (GNotFound y), d')"
  then show "\<not> rs_holds (client_store svc) d' x c"
    by (auto simp: client_Delete_def isNotFoundErr_def StatusNotFound_def dest: files_delete_404
        split: prod.splits option.splits api_error.splits if_splits)
qed

context precise_api
begin

lemma client_precise_contract: "precise_remote (client_store svc) md5"
  by (rule client_precise.precise_remote_axioms)

end

subsection \<open>A reference Drive\<close>

text \<open>
  An executable Drive account that obeys the documented behaviour: identifiers are fresh, a
  folder takes its children with it when it is deleted, a listed name can be made to refuse
  uploads. It shows that the contracts can be met and serves the witnesses of the pool.
\<close>

record mem_file =
  mf_meta :: drive_file
  mf_data :: "bytes option"  \<comment> \<open>\<open>None\<close> for a folder\<close>

record mem_drive =
  md_files :: "(string \<times> mem_file) list"
  md_limit :: int
  md_refuse :: "string list"

definition fresh_id :: "(string \<times> 'a) list \<Rightarrow> string" where
  "fresh_id fs = replicate (Suc (sum_list (map (length \<circ> fst) fs))) (CHR ''x'')"

definition mem_usage :: "mem_drive \<Rightarrow> int" where
  "mem_usage d = sum_list (map (\<lambda>(i, f). case mf_data f of None \<Rightarrow> 0 | Some b \<Rightarrow> int (length b)) (md_files d))"

definition mem_add :: "mem_file \<Rightarrow> mem_drive \<Rightarrow> string \<times> mem_drive" where
  "mem_add f d = (let i = fresh_id (md_files d) in (i, d\<lparr>md_files := md_files d @ [(i, f)]\<rparr>))"

definition mem_get :: "string \<Rightarrow> mem_drive \<Rightarrow> (api_error, reader) result" where
  "mem_get rid d = (case map_of (md_files d) rid of
     Some f \<Rightarrow> (case mf_data f of Some b \<Rightarrow> Inr (bytes_reader b) | None \<Rightarrow> Inl (GoogleAPI 403 ''folder''))
   | None \<Rightarrow> Inl (GoogleAPI 404 ''missing''))"

definition mem_delete :: "string \<Rightarrow> mem_drive \<Rightarrow> api_error option \<times> mem_drive" where
  "mem_delete rid d = (case map_of (md_files d) rid of
     None \<Rightarrow> (Some (GoogleAPI 404 ''missing''), d)
   | Some f \<Rightarrow> (None, d\<lparr>md_files := filter ((\<lambda>i. i \<noteq> rid \<and> \<not> (mf_data f = None
        \<and> rid \<in> set (df_Parents (mf_meta (the (map_of (md_files d) i)))))) \<circ> fst) (md_files d)\<rparr>))"

definition mem_service :: "(bytes \<Rightarrow> bytes) \<Rightarrow> mem_drive drive_service" where
  "mem_service md5 =
     \<lparr>About_Get = (\<lambda>d. Inr \<lparr>ab_PhotoLink = None, ab_StorageQuota = Some (md_limit d, mem_usage d)\<rparr>),
      Files_List = (\<lambda>q d. Inr (map fst (filter (\<lambda>(i, f). mf_data f = None
          \<and> folder_query (df_Name (mf_meta f)) = q) (md_files d)))),
      Files_Create = (\<lambda>f d. let (i, d') = mem_add \<lparr>mf_meta = f, mf_data = None\<rparr> d in (Inr i, d')),
      Files_Create_Media = (\<lambda>f b d. if df_Name f \<in> set (md_refuse d)
          then (Inl (GoogleAPI 403 ''refused''), d)
          else let (i, d') = mem_add \<lparr>mf_meta = f, mf_data = Some b\<rparr> d in (Inr (i, hex_encode (md5 b)), d')),
      Files_Get_Media = mem_get,
      Files_Delete = mem_delete\<rparr>"

lemma fresh_id_notin: "(fresh_id fs, f) \<notin> set fs"
proof
  assume "(fresh_id fs, f) \<in> set fs"
  then have "length (fresh_id fs) \<in> set (map (length \<circ> fst) fs)" by (auto simp: image_iff) force
  then have "length (fresh_id fs) \<le> sum_list (map (length \<circ> fst) fs)" by (rule member_le_sum_list) simp
  then show False by (simp add: fresh_id_def)
qed

lemma mem_service_holds:
  "svc_holds (mem_service md5) d rid b \<longleftrightarrow>
    (\<exists>f. map_of (md_files d) rid = Some f \<and> mf_data f = Some b)"
  by (auto simp: svc_holds_def mem_service_def mem_get_def split: option.splits)

lemma map_of_snoc: "map_of (fs @ [(i, f)]) x = (case map_of fs x of None \<Rightarrow> (if x = i then Some f else None) | Some y \<Rightarrow> Some y)"
  by (auto simp: map_add_def split: option.splits)

lemma map_of_fresh: "map_of fs (fresh_id fs) = None"
  using fresh_id_notin by (metis map_of_SomeD option.exhaust)

lemma map_of_filter_key: "map_of (filter (Q \<circ> fst) fs) y = (if Q y then map_of fs y else None)"
  by (induction fs) auto

interpretation mem: drive_api "mem_service md5" md5 for md5
proof
  fix f b d rid md d'
  assume "Files_Create_Media (mem_service md5) f b d = (Inr (rid, md), d')"
  then show "svc_holds (mem_service md5) d' rid b" "md = [] \<or> md = hex_encode (md5 b)"
    unfolding mem_service_holds
    by (auto simp: mem_service_def mem_add_def Let_def map_of_snoc map_of_fresh simp del: map_of_append split: if_splits)
next
  fix f b d res d' x c
  assume "Files_Create_Media (mem_service md5) f b d = (res, d')" "svc_holds (mem_service md5) d x c"
  then show "svc_holds (mem_service md5) d' x c"
    unfolding mem_service_holds
    by (auto simp: mem_service_def mem_add_def Let_def map_of_snoc simp del: map_of_append split: if_splits)
next
  fix f d res' d' x c
  assume "Files_Create (mem_service md5) f d = (res', d')" "svc_holds (mem_service md5) d x c"
  then show "svc_holds (mem_service md5) d' x c"
    unfolding mem_service_holds by (auto simp: mem_service_def mem_add_def Let_def map_of_snoc simp del: map_of_append)
next
  fix x d d' c
  assume "Files_Delete (mem_service md5) x d = (None, d')"
  then have "x \<notin> fst ` set (md_files d')"
    by (auto simp: mem_service_def mem_delete_def split: option.splits)
  then show "\<not> svc_holds (mem_service md5) d' x c"
    unfolding mem_service_holds by (metis map_of_eq_None_iff option.distinct(1))
next
  fix d x b e d' y c
  assume "svc_holds (mem_service md5) d x b" "Files_Delete (mem_service md5) x d = (e, d')" "x \<noteq> y"
    "svc_holds (mem_service md5) d y c"
  then show "svc_holds (mem_service md5) d' y c"
    unfolding mem_service_holds
    by (auto simp: mem_service_def mem_delete_def map_of_filter_key split: option.splits)
qed

interpretation mem_precise: precise_api "mem_service md5" md5 for md5
proof
  fix f b d rid md d' c
  assume "Files_Create_Media (mem_service md5) f b d = (Inr (rid, md), d')"
  then show "\<not> svc_holds (mem_service md5) d rid c"
    unfolding mem_service_holds by (auto simp: mem_service_def mem_add_def Let_def map_of_fresh split: if_splits)
next
  fix f b d res d' x c
  assume "Files_Create_Media (mem_service md5) f b d = (res, d')" "svc_holds (mem_service md5) d' x c"
  then show "svc_holds (mem_service md5) d x c \<or> (\<exists>md. res = Inr (x, md))"
    unfolding mem_service_holds
    by (auto simp: mem_service_def mem_add_def Let_def map_of_snoc simp del: map_of_append split: if_splits option.splits)
next
  fix f d res' d' x c
  assume "Files_Create (mem_service md5) f d = (res', d')" "svc_holds (mem_service md5) d' x c"
  then show "svc_holds (mem_service md5) d x c"
    unfolding mem_service_holds
    by (auto simp: mem_service_def mem_add_def Let_def map_of_snoc simp del: map_of_append split: if_splits option.splits)
next
  fix y d e d' x c
  assume "Files_Delete (mem_service md5) y d = (e, d')" "svc_holds (mem_service md5) d' x c"
  then show "svc_holds (mem_service md5) d x c"
    unfolding mem_service_holds
    by (auto simp: mem_service_def mem_delete_def map_of_filter_key split: option.splits if_splits)
next
  fix x d msg d' c
  assume "Files_Delete (mem_service md5) x d = (Some (GoogleAPI 404 msg), d')"
  then show "\<not> svc_holds (mem_service md5) d' x c"
    unfolding mem_service_holds
    by (auto simp: mem_service_def mem_delete_def map_of_filter_key split: option.splits if_splits)
qed

lemma mem_store_precise: "precise_remote (client_store (mem_service md5)) md5"
  by (rule mem_precise.client_precise_contract)

subsection \<open>Properties\<close>

text \<open>
  The free space the placement compares lies in the \<open>int64\<close> range and is never negative; it is
  the maximum for an unlimited account, and never more than the limit for the others.
\<close>
theorem available_bounds:
  assumes "in_i64 (Limit q)" "0 \<le> Usage q"
  shows "0 \<le> Available q \<and> Available q \<le> max_i64
    \<and> (Unlimited q \<longrightarrow> Available q = max_i64)
    \<and> (\<not> Unlimited q \<longrightarrow> Available q = max 0 (Limit q - Usage q))"
proof -
  have "i64 (Limit q - Usage q) = Limit q - Usage q" if "Usage q < Limit q"
    using assms that by (intro i64_id) (auto simp: in_i64_def max_i64_def)
  with assms show ?thesis by (auto simp: Available_def in_i64_def max_i64_def)
qed


theorem available_bounds_witness:
  "Available \<lparr>Limit = 10, Usage = 4, Unlimited = False, PhotoURL = []\<rparr> = 6
    \<and> Available \<lparr>Limit = 10, Usage = 14, Unlimited = False, PhotoURL = []\<rparr> = 0"
  using available_bounds [of "\<lparr>Limit = 10, Usage = 4, Unlimited = False, PhotoURL = []\<rparr>"]
    available_bounds [of "\<lparr>Limit = 10, Usage = 14, Unlimited = False, PhotoURL = []\<rparr>"]
  by (simp add: in_i64_def max_i64_def)


end
