(* ===== verification/Placement.thy ===== *)
theory Placement
  imports GDrive "HOL-Library.AList" "HOL-Library.Char_ord" "HOL-Library.List_Lexorder"
begin

text \<open>
  \<open>drivepool/placement.go\<close>: which account receives a chunk. The live accounts act on a world of
  drives, a function from handles to the states of the remote stores (two accounts may share a
  handle: the same Google account connected twice). Go iterates over a map in an unspecified
  order: an iteration is \<open>map_iter rank keys\<close>, the keys sorted by an arbitrary \<open>rank\<close>, so that
  every order is the order of some \<open>rank\<close> and the theorems hold for all of them.
\<close>

datatype init_err = TokenUndecryptable | InitClientErr string

text \<open>\<open>Account\<close>: exactly one of \<open>initErr\<close> (\<open>Inl\<close>) and \<open>Store\<close> (\<open>Inr\<close>, its handle) is set.\<close>
record account =
  acc_ID :: string
  acc_Label :: string
  acc_Store :: "(init_err, nat) result"

datatype place_err = NoHealthyAccounts

type_synonym 'd drives = "nat \<Rightarrow> 'd"
text \<open>The quota of an account that can be used: its client was built and the query succeeds.\<close>
definition live_quota :: "'d remote_store \<Rightarrow> 'd drives \<Rightarrow> account \<Rightarrow> quota_info option" where
  "live_quota rs ds a = (case acc_Store a of
     Inl e \<Rightarrow> None
   | Inr h \<Rightarrow> (case rs_Quota rs (ds h) of Inl e \<Rightarrow> None | Inr q \<Rightarrow> Some q))"

text \<open>
  \<open>pickAccount\<close>: candidates sorted by descending free space, the first one taken. \<open>sort.Slice\<close>
  leaves ties in an unspecified order, which the order of \<open>accounts\<close> already is.
\<close>
definition pickAccount :: "'d remote_store \<Rightarrow> 'd drives \<Rightarrow> account list \<Rightarrow> (place_err, account) result" where
  "pickAccount rs ds accounts =
     (let candidates = List.map_filter (\<lambda>a. case live_quota rs ds a of
            None \<Rightarrow> None | Some q \<Rightarrow> Some (a, Available q)) accounts
      in case sort_key (\<lambda>c. - snd c) candidates of
           [] \<Rightarrow> Inl NoHealthyAccounts
         | c # _ \<Rightarrow> Inr (fst c))"

record placementTracker =
  pt_available :: "(string \<times> int) list"  \<comment> \<open>accountID to remaining budget\<close>
  pt_unlimited :: "(string \<times> bool) list"

fun track_accounts ::
  "'d remote_store \<Rightarrow> 'd drives \<Rightarrow> account list \<Rightarrow> nat \<Rightarrow> placementTracker \<Rightarrow> nat \<times> placementTracker"
where
  "track_accounts rs ds [] healthy t = (healthy, t)"
| "track_accounts rs ds (a # as) healthy t = (case live_quota rs ds a of
     None \<Rightarrow> track_accounts rs ds as healthy t
   | Some q \<Rightarrow> track_accounts rs ds as (Suc healthy)
       (if Unlimited q then t\<lparr>pt_unlimited := AList.update (acc_ID a) True (pt_unlimited t)\<rparr>
        else t\<lparr>pt_available := AList.update (acc_ID a) (Available q) (pt_available t)\<rparr>))"

definition newPlacementTracker ::
  "'d remote_store \<Rightarrow> 'd drives \<Rightarrow> account list \<Rightarrow> (place_err, placementTracker) result"
where
  "newPlacementTracker rs ds accounts =
     (let (healthy, t) = track_accounts rs ds accounts 0 \<lparr>pt_available = [], pt_unlimited = []\<rparr> in
      if healthy = 0 then Inl NoHealthyAccounts else Inr t)"

text \<open>The scan for the largest budget, keeping the first of equals.\<close>
fun best_account :: "(string \<times> int) list \<Rightarrow> string list \<Rightarrow> string \<times> int \<Rightarrow> string \<times> int" where
  "best_account av [] best = best"
| "best_account av (i # is) best = (let avail = the (map_of av i) in
     best_account av is (if snd best < avail then (i, avail) else best))"

definition reserve ::
  "map_order \<Rightarrow> int \<Rightarrow> placementTracker \<Rightarrow> (place_err, string) result \<times> placementTracker"
where
  "reserve rank n t = (case map_iter rank (map fst (pt_unlimited t)) of
     i # _ \<Rightarrow> (Inr i, t)
   | [] \<Rightarrow>
      (let bestID = fst (best_account (pt_available t) (map_iter rank (map fst (pt_available t))) ([], -1)) in
       if bestID = [] then (Inl NoHealthyAccounts, t)
       else (Inr bestID, t\<lparr>pt_available :=
          AList.update bestID (i64 (the (map_of (pt_available t) bestID) - n)) (pt_available t)\<rparr>)))"

subsection \<open>Lemmas\<close>

lemma map_iter_Nil_iff [simp]: "map_iter rank keys = [] \<longleftrightarrow> keys = []"
  by (metis map_iter_def length_0_conv length_sort)

lemma sort_key_hd:
  assumes "sort_key f xs = y # ys"
  shows "y \<in> set xs" and "x \<in> set xs \<Longrightarrow> f y \<le> f x"
proof -
  have "set (y # ys) = set xs" "sorted (map f (y # ys))"
    using assms by (metis set_sort, metis sorted_sort_key)
  then show "y \<in> set xs" and "x \<in> set xs \<Longrightarrow> f y \<le> f x" by auto
qed

text \<open>The scan returns its start unless some budget is larger, and then the largest.\<close>
lemma best_account_spec:
  "best_account av is best = (i, b) \<Longrightarrow> snd best \<le> b \<and> (\<forall>j \<in> set is. the (map_of av j) \<le> b)
    \<and> ((i, b) = best \<or> i \<in> set is \<and> b = the (map_of av i) \<and> snd best < b)"
proof (induction "is" arbitrary: best)
  case (Cons k ks)
  show ?case
  proof (cases "snd best < the (map_of av k)")
    case True
    with Cons.prems have "best_account av ks (k, the (map_of av k)) = (i, b)" by (simp add: Let_def)
    from Cons.IH [OF this] True show ?thesis by auto
  next
    case False
    with Cons.prems have "best_account av ks best = (i, b)" by (simp add: Let_def)
    from Cons.IH [OF this] False show ?thesis by auto
  qed
qed simp

definition tracker_ids :: "placementTracker \<Rightarrow> string set" where
  "tracker_ids t = fst ` set (pt_available t) \<union> fst ` set (pt_unlimited t)"

lemma set_keys_update: "fst ` set (AList.update k v al) = insert k (fst ` set al)"
  using dom_update [of k v al] by (simp add: dom_map_of_conv_image_fst)

text \<open>The budgets a tracker starts with are the live quotas of the usable accounts.\<close>
lemma track_accounts_spec:
  assumes "track_accounts rs ds as h t = (h', t')"
  shows "tracker_ids t' = tracker_ids t \<union> acc_ID ` {a \<in> set as. live_quota rs ds a \<noteq> None}"
    and "h' = h + length (filter (\<lambda>a. live_quota rs ds a \<noteq> None) as)"
  using assms
proof (induction as arbitrary: h t)
  case (Cons a as)
  {
    case 1
    show ?case
    proof (cases "live_quota rs ds a")
      case None
      with 1 Cons.IH(1) show ?thesis by auto
    next
      case (Some q)
      with 1 Cons.IH(1) show ?thesis
        by (cases "Unlimited q") (auto simp: tracker_ids_def set_keys_update)
    qed
  next
    case 2
    then show ?case using Cons.IH(2) by (fastforce split: option.splits)
  }
qed simp_all

lemma newPlacementTracker_spec:
  assumes "newPlacementTracker rs ds as = Inr t"
  shows "tracker_ids t = acc_ID ` {a \<in> set as. live_quota rs ds a \<noteq> None}"
  using assms track_accounts_spec(1) [of rs ds as 0 "\<lparr>pt_available = [], pt_unlimited = []\<rparr>"]
  by (auto simp: newPlacementTracker_def tracker_ids_def split: prod.splits if_splits)

lemma newPlacementTracker_error:
  "newPlacementTracker rs ds as = Inl e \<longleftrightarrow> (\<forall>a \<in> set as. live_quota rs ds a = None)"
proof -
  obtain h t where t: "track_accounts rs ds as 0 \<lparr>pt_available = [], pt_unlimited = []\<rparr> = (h, t)"
    by (metis surj_pair)
  from track_accounts_spec(2) [OF this] t show ?thesis
    by (cases e) (simp add: newPlacementTracker_def filter_empty_conv)
qed

lemma reserve_best:
  assumes "reserve rank n t = (res, t')" "pt_unlimited t = []"
    "[] \<notin> fst ` set (pt_available t)"
  shows "case res of
      Inl e \<Rightarrow> t' = t \<and> (\<forall>i \<in> fst ` set (pt_available t). the (map_of (pt_available t) i) < 0)
    | Inr i \<Rightarrow> i \<in> fst ` set (pt_available t) \<and> 0 \<le> the (map_of (pt_available t) i)
        \<and> (\<forall>j \<in> fst ` set (pt_available t). the (map_of (pt_available t) j) \<le> the (map_of (pt_available t) i))
        \<and> t' = t\<lparr>pt_available := AList.update i (i64 (the (map_of (pt_available t) i) - n)) (pt_available t)\<rparr>"
proof -
  let ?av = "pt_available t"
  obtain i b where i: "best_account ?av (map_iter rank (map fst ?av)) ([], -1) = (i, b)" by (metis surj_pair)
  note spec = best_account_spec [OF i]
  have "reserve rank n t = (if i = [] then (Inl NoHealthyAccounts, t)
      else (Inr i, t\<lparr>pt_available := AList.update i (i64 (the (map_of ?av i) - n)) ?av\<rparr>))"
    using assms(2) i by (simp add: reserve_def map_iter_def)
  moreover have "\<forall>j \<in> fst ` set ?av. the (map_of ?av j) < 0" if "i = []"
    using spec assms(3) that by fastforce
  moreover have "i \<in> fst ` set ?av \<and> 0 \<le> b \<and> b = the (map_of ?av i)" if "i \<noteq> []"
    using spec that by auto
  ultimately show ?thesis using assms(1) spec by (auto split: if_splits)
qed

lemma reserve_ids:
  assumes "reserve rank n t = (res, t')"
  shows "tracker_ids t' = tracker_ids t" and "res = Inr i \<Longrightarrow> i \<in> tracker_ids t"
proof -
  have "tracker_ids t' = tracker_ids t \<and> (res = Inr i \<longrightarrow> i \<in> tracker_ids t)" for i
  proof (cases "map_iter rank (map fst (pt_unlimited t))")
    case (Cons j js)
    then have "j \<in> fst ` set (pt_unlimited t)"
      by (metis list.set_intros(1) list.set_map set_map_iter)
    with assms Cons show ?thesis by (auto simp: reserve_def tracker_ids_def)
  next
    case Nil
    obtain k b where k: "best_account (pt_available t) (map_iter rank (map fst (pt_available t))) ([], -1) = (k, b)"
      by (metis surj_pair)
    show ?thesis
    proof (cases "k = []")
      case True
      with assms Nil k show ?thesis by (auto simp: reserve_def)
    next
      case False
      then have in_k: "k \<in> fst ` set (pt_available t)" using best_account_spec [OF k] by auto
      have "res = Inr k" and t': "t' = t\<lparr>pt_available :=
          AList.update k (i64 (the (map_of (pt_available t) k) - n)) (pt_available t)\<rparr>"
        using assms Nil k False by (simp_all add: reserve_def)
      moreover have "tracker_ids t' = tracker_ids t"
        by (simp add: t' tracker_ids_def set_keys_update insert_absorb [OF in_k])
      ultimately show ?thesis using in_k by (auto simp: tracker_ids_def)
    qed
  qed
  then show "tracker_ids t' = tracker_ids t" "res = Inr i \<Longrightarrow> i \<in> tracker_ids t" by blast+
qed

subsection \<open>The placement interface\<close>

text \<open>
  What \<open>PutStream\<close> relies on, whichever way it places chunks: a placement only ever names an
  account of the set it was built from, and stays within that set.
\<close>
locale placement =
  fixes place :: "int \<Rightarrow> 's \<Rightarrow> (place_err, string) result \<times> 's" and ids :: "'s \<Rightarrow> string set"
  assumes place_ids: "place n s = (res, s') \<Longrightarrow> ids s' = ids s"
    and place_in: "place n s = (Inr i, s') \<Longrightarrow> i \<in> ids s"

text \<open>One file on one account: the account was picked before the first chunk.\<close>
definition place_single :: "int \<Rightarrow> account \<Rightarrow> (place_err, string) result \<times> account" where
  "place_single n a = (Inr (acc_ID a), a)"

interpretation single: placement place_single "\<lambda>a. {acc_ID a}"
  by unfold_locales (auto simp: place_single_def)

interpretation tracked: placement "reserve rank" tracker_ids for rank
  by unfold_locales (auto dest: reserve_ids)

text \<open>Placing a whole file: the accounts chosen for a list of chunk sizes.\<close>
fun reserve_all ::
  "(nat \<Rightarrow> map_order) \<Rightarrow> nat \<Rightarrow> int list \<Rightarrow> placementTracker \<Rightarrow> (string \<times> int) list \<times> placementTracker"
where
  "reserve_all ranks k [] t = ([], t)"
| "reserve_all ranks k (n # ns) t = (case reserve (ranks k) n t of
     (Inl e, t') \<Rightarrow> ([], t')
   | (Inr i, t') \<Rightarrow> (let (ps, t'') = reserve_all ranks (Suc k) ns t' in ((i, n) # ps, t'')))"

definition assigned :: "string \<Rightarrow> (string \<times> int) list \<Rightarrow> int" where
  "assigned i ps = sum_list (map snd (filter (\<lambda>p. fst p = i) ps))"

definition budgets_in :: "int \<Rightarrow> placementTracker \<Rightarrow> bool" where
  "budgets_in s t \<longleftrightarrow> pt_unlimited t = [] \<and> [] \<notin> fst ` set (pt_available t)
     \<and> (\<forall>i b. map_of (pt_available t) i = Some b \<longrightarrow> - s \<le> b \<and> b \<le> max_i64)"

lemma map_of_key: "i \<in> fst ` set al \<Longrightarrow> map_of al i = Some (the (map_of al i))"
  by (metis map_of_eq_None_iff option.collapse)

lemma reserve_step:
  assumes "budgets_in s t" "0 \<le> n" "n \<le> s" "s \<le> max_i64" "reserve rank n t = (Inr i, t')"
  shows "budgets_in s t'"
    and "map_of (pt_available t') j = map_option (\<lambda>b. b - (if j = i then n else 0)) (map_of (pt_available t) j)"
proof -
  let ?b = "the (map_of (pt_available t) i)"
  have "pt_unlimited t = []" "[] \<notin> fst ` set (pt_available t)" using assms(1) by (auto simp: budgets_in_def)
  from reserve_best [OF assms(5) this] have i: "i \<in> fst ` set (pt_available t)" "0 \<le> ?b"
    and t': "t' = t\<lparr>pt_available := AList.update i (i64 (?b - n)) (pt_available t)\<rparr>" by auto
  have b: "map_of (pt_available t) i = Some ?b" using i(1) by (rule map_of_key)
  then have "?b \<le> max_i64" using assms(1) by (auto simp: budgets_in_def)
  then have w: "i64 (?b - n) = ?b - n"
    using i(2) assms(2-4) by (intro i64_id) (auto simp: in_i64_def max_i64_def)
  show "map_of (pt_available t') j = map_option (\<lambda>b. b - (if j = i then n else 0)) (map_of (pt_available t) j)"
  proof (cases "j = i")
    case True
    moreover obtain x where "map_of (pt_available t) i = Some x" using b by blast
    ultimately show ?thesis using w by (simp add: t' update_conv')
  qed (simp add: t' w update_conv' option.map_id [unfolded id_def])
  show "budgets_in s t'"
    using assms(1-3) i \<open>?b \<le> max_i64\<close>
    by (auto simp: budgets_in_def t' w update_conv' set_keys_update split: if_splits)
qed

lemma reserve_all_budgets:
  assumes "budgets_in s t" "\<forall>n \<in> set ns. 0 \<le> n \<and> n \<le> s" "s \<le> max_i64" "reserve_all ranks k ns t = (ps, t')"
  shows "budgets_in s t' \<and>
    map_of (pt_available t') j = map_option (\<lambda>b. b - assigned j ps) (map_of (pt_available t) j)"
  using assms
proof (induction ns arbitrary: k t ps)
  case Nil
  then show ?case by (simp add: assigned_def option.map_id [unfolded id_def])
next
  case (Cons n ns)
  obtain res t1 where r: "reserve (ranks k) n t = (res, t1)" by (metis surj_pair)
  show ?case
  proof (cases res)
    case (Inl e)
    have "pt_unlimited t = []" "[] \<notin> fst ` set (pt_available t)"
      using Cons.prems(1) by (auto simp: budgets_in_def)
    from reserve_best [OF r this] Inl have "t1 = t" by simp
    with Cons.prems r Inl show ?thesis by (auto simp: assigned_def option.map_id [unfolded id_def])
  next
    case (Inr i)
    then obtain qs where qs: "reserve_all ranks (Suc k) ns t1 = (qs, t')" "ps = (i, n) # qs"
      using Cons.prems(4) r by (auto split: prod.splits)
    have n: "0 \<le> n" "n \<le> s" using Cons.prems(2) by auto
    note step = reserve_step [OF Cons.prems(1) n Cons.prems(3) r [unfolded Inr]]
    show ?thesis using Cons.IH [OF step(1) _ Cons.prems(3) qs(1)] Cons.prems(2) step(2) qs(2)
      by (auto simp: assigned_def option.map_comp comp_def algebra_simps)
  qed
qed

lemma pick_account_spec:
  "case pickAccount rs ds accounts of
      Inl e \<Rightarrow> \<forall>a \<in> set accounts. live_quota rs ds a = None
    | Inr a \<Rightarrow> a \<in> set accounts \<and> (\<exists>q. live_quota rs ds a = Some q
        \<and> (\<forall>a' q'. a' \<in> set accounts \<longrightarrow> live_quota rs ds a' = Some q' \<longrightarrow> Available q' \<le> Available q))"
proof -
  let ?f = "\<lambda>a. case live_quota rs ds a of None \<Rightarrow> None | Some q \<Rightarrow> Some (a, Available q)"
  let ?cs = "List.map_filter ?f accounts"
  have mem: "c \<in> set ?cs \<longleftrightarrow> (\<exists>q. fst c \<in> set accounts \<and> live_quota rs ds (fst c) = Some q \<and> snd c = Available q)" for c
    by (cases c) (auto simp: set_map_filter split: option.splits)
  show ?thesis
  proof (cases "sort_key (\<lambda>c. - snd c) ?cs")
    case Nil
    then have "set ?cs = {}" using set_sort [of "\<lambda>c. - snd c" ?cs] by simp
    then have "live_quota rs ds a = None" if "a \<in> set accounts" for a
      using that mem [of "(a, Available (the (live_quota rs ds a)))"] by (cases "live_quota rs ds a") auto
    with Nil show ?thesis by (simp add: pickAccount_def)
  next
    case (Cons c cs)
    obtain q where q: "fst c \<in> set accounts" "live_quota rs ds (fst c) = Some q" "snd c = Available q"
      using sort_key_hd(1) [OF Cons] mem by blast
    have "Available q' \<le> Available q" if "a' \<in> set accounts" "live_quota rs ds a' = Some q'" for a' q'
      using sort_key_hd(2) [OF Cons, of "(a', Available q')"] mem that q(3) by auto
    with q Cons show ?thesis by (simp add: pickAccount_def)
  qed
qed

subsection \<open>Properties\<close>

text \<open>
  \<open>pickAccount\<close> fails exactly when no account answers a quota query; otherwise it returns one
  of the accounts that do, and none of them has more free space.
\<close>
theorem pick_account_max:
  "case pickAccount rs ds accounts of
      Inl e \<Rightarrow> \<forall>a \<in> set accounts. live_quota rs ds a = None
    | Inr a \<Rightarrow> a \<in> set accounts \<and> (\<exists>q. live_quota rs ds a = Some q
        \<and> (\<forall>a' q'. a' \<in> set accounts \<longrightarrow> live_quota rs ds a' = Some q' \<longrightarrow> Available q' \<le> Available q))"
  by (rule pick_account_spec)

text \<open>
  C27. Placing the chunks of a file with a tracker never overflows a budget and overcommits an
  account by at most one chunk: after any number of reservations of sizes up to \<open>s\<close>, the budget
  of every account is its quota minus what was placed on it, and at least \<open>-s\<close>.
\<close>
theorem reserve_overcommit_bound:
  assumes "budgets_in 0 t" "\<forall>n \<in> set ns. 0 \<le> n \<and> n \<le> s" "0 \<le> s" "s \<le> max_i64"
    and "reserve_all ranks k ns t = (ps, t')" "map_of (pt_available t) j = Some b"
  shows "map_of (pt_available t') j = Some (b - assigned j ps) \<and> assigned j ps \<le> b + s"
proof -
  have "- s \<le> c" if "map_of (pt_available t) i = Some c" for i c
  proof -
    have "0 \<le> c" using assms(1) that by (auto simp: budgets_in_def)
    with assms(3) show ?thesis by simp
  qed
  with assms(1) have "budgets_in s t" by (simp add: budgets_in_def)
  from reserve_all_budgets [OF this assms(2,4,5), of j] assms(6)
  have t': "map_of (pt_available t') j = Some (b - assigned j ps)" and ok: "budgets_in s t'" by simp_all
  then have "- s \<le> b - assigned j ps" unfolding budgets_in_def by blast
  with t' show ?thesis by simp
qed

text \<open>
  A reservation looks at the remaining budgets only, never at the size: the account it names
  (or its failure) is the same for every size, so a chunk can be placed where it does not fit.
\<close>
theorem reserve_ignores_size:
  "fst (reserve rank n t) = fst (reserve rank n' t)
    \<and> (pt_unlimited t = [] \<longrightarrow> [] \<notin> fst ` set (pt_available t) \<longrightarrow> fst (reserve rank n t) = Inl NoHealthyAccounts \<longrightarrow>
        (\<forall>i \<in> fst ` set (pt_available t). the (map_of (pt_available t) i) < 0))"
proof -
  have "fst (reserve rank n t) = fst (reserve rank n' t)"
    unfolding reserve_def Let_def by (cases "map_iter rank (map fst (pt_unlimited t))") (simp_all del: map_iter_Nil_iff)
  moreover have "\<forall>i \<in> fst ` set (pt_available t). the (map_of (pt_available t) i) < 0"
    if "pt_unlimited t = []" "[] \<notin> fst ` set (pt_available t)" "fst (reserve rank n t) = Inl NoHealthyAccounts"
    using reserve_best [OF surjective_pairing that(1,2), of rank n] that(3) by simp
  ultimately show ?thesis by blast
qed

subsection \<open>Witnesses\<close>

text \<open>Two accounts with room for 10 and 6 bytes on drives of their own, one that cannot be opened.\<close>

definition toy_rs :: "mem_drive remote_store" where
  "toy_rs = client_store (mem_service (md5_sum toy_prims))"

definition toy_drives :: "mem_drive drives" where
  "toy_drives h = \<lparr>md_files = [], md_limit = (if h = 0 then 10 else 6), md_refuse = []\<rparr>"

definition toy_acc :: "string \<Rightarrow> (init_err, nat) result \<Rightarrow> account" where
  "toy_acc i s = \<lparr>acc_ID = i, acc_Label = i, acc_Store = s\<rparr>"

lemma toy_live_quota [simp]:
  "live_quota toy_rs toy_drives (toy_acc i (Inr h)) =
    Some \<lparr>Limit = (if h = 0 then 10 else 6), Usage = 0, Unlimited = False, PhotoURL = []\<rparr>"
  "live_quota toy_rs toy_drives (toy_acc i (Inl e)) = None"
  by (simp_all add: live_quota_def toy_rs_def toy_acc_def toy_drives_def client_Quota_def mem_service_def
      mem_usage_def Let_def)

theorem pick_account_max_witness:
  "\<exists>a. pickAccount toy_rs toy_drives [toy_acc ''B'' (Inr 1), toy_acc ''C'' (Inl TokenUndecryptable),
      toy_acc ''A'' (Inr 0)] = Inr a \<and> a = toy_acc ''A'' (Inr 0)"
proof -
  let ?as = "[toy_acc ''B'' (Inr 1), toy_acc ''C'' (Inl TokenUndecryptable), toy_acc ''A'' (Inr 0)]"
  have "Available \<lparr>Limit = 10, Usage = 0, Unlimited = False, PhotoURL = []\<rparr> = 10"
    "Available \<lparr>Limit = 6, Usage = 0, Unlimited = False, PhotoURL = []\<rparr> = 6"
    by (simp_all add: Available_def i64_def)
  then show ?thesis
    using pick_account_max [where rs = toy_rs and ds = toy_drives and accounts = ?as]
    by (cases "pickAccount toy_rs toy_drives ?as") auto
qed

definition toy_tracker :: placementTracker where
  "toy_tracker = \<lparr>pt_available = [(''A'', 10), (''B'', 6)], pt_unlimited = []\<rparr>"

theorem reserve_overcommit_bound_witness:
  "\<exists>ps t'. reserve_all (\<lambda>_ _. 0) 0 [7, 7, 7] toy_tracker = (ps, t')
     \<and> ps = [(''A'', 7), (''B'', 7), (''A'', 7)] \<and> map_of (pt_available t') ''A'' = Some (-4)"
proof -
  have ps: "fst (reserve_all (\<lambda>_ _. 0) 0 [7, 7, 7] toy_tracker) = [(''A'', 7), (''B'', 7), (''A'', 7)]"
    by (simp add: toy_tracker_def reserve_def map_iter_def Let_def i64_def)
  obtain t' where r: "reserve_all (\<lambda>_ _. 0) 0 [7, 7, 7] toy_tracker = ([(''A'', 7), (''B'', 7), (''A'', 7)], t')"
    using ps by (metis prod.collapse)
  have "budgets_in 0 toy_tracker" by (simp add: budgets_in_def toy_tracker_def max_i64_def)
  from reserve_overcommit_bound [OF this _ _ _ r, of 7 "''A''" 10] r show ?thesis
    by (simp add: max_i64_def toy_tracker_def assigned_def)
qed

theorem reserve_ignores_size_witness:
  "fst (reserve (\<lambda>_. 0) 1000 toy_tracker) = Inr ''A''
    \<and> fst (reserve (\<lambda>_. 0) 1000 toy_tracker) = fst (reserve (\<lambda>_. 0) 3 toy_tracker)"
proof -
  have "fst (reserve (\<lambda>_. 0) 3 toy_tracker) = Inr ''A''"
    by (simp add: reserve_def toy_tracker_def map_iter_def Let_def)
  then show ?thesis using reserve_ignores_size [of "\<lambda>_. 0" 1000 toy_tracker 3] by simp
qed

end
