(* ===== verification/Pool_Accounts.thy ===== *)
theory Pool_Accounts
  imports Manifest Placement
begin

text \<open>
  The first half of \<open>drivepool/pool.go\<close>: the pool of one user, the accounts it is opened with,
  and how accounts are connected, disconnected and reported. A pool acts on a \<open>world\<close>, the shared
  database and the remote drives. What lies outside the repository comes with the environment
  \<open>penv\<close>: the manifest's parameters, the remote store behind every handle and the construction of
  a client from a token. The outcome of Google's consent page is an argument.
\<close>

datatype perror =
    PManifest merror  \<comment> \<open>an error of the manifest, handed on unchanged\<close>
  | PListAccounts merror | PConsentFlow string | PExchange string
  | PLabelTaken string | PCheckExisting merror | PNoRefreshToken string | PInitClient string
  | PQueryQuota gerror | PRegister merror | PRecordQuota merror
  | PCheckUsage merror | ErrAccountInUse string nat
  | ErrNoHealthyAccounts
  | PReadChunk nat ioerr | PEncryptChunk nat crypt_err | PEnsureFolder nat gerror
  | PUpload nat gerror | PIntegrity nat string string
  | PRecordFile merror | PRecordChunk nat merror
  | PNoChunks string | PUnavailable int | PDownload int gerror | PDecrypt int crypt_err
  | PDecompress int ioerr | PChunkHash int string string
  | PWrite ioerr | PContentHash string string string
  | PDeleteChunk int gerror | PDeleteFolder string gerror
  | PPanic string

text \<open>An error of the manifest is wrapped by its caller; a panic passes through every caller.\<close>
definition m_err :: "(merror \<Rightarrow> perror) \<Rightarrow> merror \<Rightarrow> perror" where
  "m_err wrap e = (if e = PanicEmptyUser then PPanic ''scoped called with empty userID'' else wrap e)"

record 'd penv =
  e_mcfg :: mcfg
  e_rs :: "'d remote_store"
  e_newClient :: "token \<Rightarrow> (string, nat) result"

record 'd world =
  w_db :: db
  w_drives :: "'d drives"

record pool =
  p_userID :: string
  p_accounts :: "(string \<times> account) list"  \<comment> \<open>keyed by the manifest's account ID\<close>
  p_ChunkSize :: int
  p_MaxParallelUploads :: int

definition DefaultChunkSize :: int where
  "DefaultChunkSize = 128 * 2 ^ 20"

definition defaultMaxParallelUploads :: int where
  "defaultMaxParallelUploads = 4"

definition chunkSize :: "pool \<Rightarrow> int" where
  "chunkSize p = (if p_ChunkSize p > 0 then p_ChunkSize p else DefaultChunkSize)"

definition maxParallelUploads :: "pool \<Rightarrow> int" where
  "maxParallelUploads p = (if p_MaxParallelUploads p > 0 then p_MaxParallelUploads p else defaultMaxParallelUploads)"

definition buildAccount :: "'d penv \<Rightarrow> account_row \<Rightarrow> account" where
  "buildAccount E row = \<lparr>acc_ID = a_ID row, acc_Label = a_Label row, acc_Store = (case a_Token row of
     None \<Rightarrow> Inl TokenUndecryptable
   | Some tok \<Rightarrow> (case e_newClient E tok of Inl e \<Rightarrow> Inl (InitClientErr e) | Inr h \<Rightarrow> Inr h))\<rparr>"

fun build_accounts :: "'d penv \<Rightarrow> account_row list \<Rightarrow> (string \<times> account) list \<Rightarrow> (string \<times> account) list" where
  "build_accounts E [] m = m"
| "build_accounts E (row # rows) m = build_accounts E rows (AList.update (a_ID row) (buildAccount E row) m)"

definition Open :: "'d penv \<Rightarrow> string \<Rightarrow> db \<Rightarrow> (perror, pool) result \<times> db" where
  "Open E userID d = (case m_ListAccounts (e_mcfg E) userID d of
     (Inl e, d') \<Rightarrow> (Inl (m_err PListAccounts e), d')
   | (Inr rows, d') \<Rightarrow> (Inr \<lparr>p_userID = userID, p_accounts = build_accounts E rows [],
        p_ChunkSize = 0, p_MaxParallelUploads = 0\<rparr>, d'))"

subsection \<open>Connecting an account\<close>

definition checkLabelAvailable :: "'d penv \<Rightarrow> pool \<Rightarrow> string \<Rightarrow> db \<Rightarrow> perror option \<times> db" where
  "checkLabelAvailable E p label d = (case m_GetAccount (e_mcfg E) (p_userID p) label d of
     (Inr row, d') \<Rightarrow> (Some (PLabelTaken label), d')
   | (Inl e, d') \<Rightarrow> (if e = ErrNotFound then None else Some (m_err PCheckExisting e), d'))"

text \<open>\<open>idr\<close> and \<open>ivr\<close> are the random bytes of the identifier and of the token's IV.\<close>
definition finishAddAccount ::
  "'d penv \<Rightarrow> entropy \<Rightarrow> entropy \<Rightarrow> int \<Rightarrow> string \<Rightarrow> token \<Rightarrow> pool \<Rightarrow> 'd world
     \<Rightarrow> (perror, account) result \<times> pool \<times> 'd world"
where
  "finishAddAccount E idr ivr now label tok p w =
     (if tok_RefreshToken tok = [] then (Inl (PNoRefreshToken label), p, w)
      else (case e_newClient E tok of
          Inl e \<Rightarrow> (Inl (PInitClient e), p, w)
        | Inr h \<Rightarrow> (case rs_Quota (e_rs E) (w_drives w h) of
            Inl e \<Rightarrow> (Inl (PQueryQuota e), p, w)
          | Inr q \<Rightarrow>
             (let i = GenerateID idr;
                  row = \<lparr>a_ID = i, a_UserID = [], a_Label = label, a_TokenCiphertext = [], a_AddedAt = now,
                         a_QuotaLimit = None, a_QuotaUsage = None, a_QuotaCheckedAt = None, a_Token = Some tok\<rparr>
              in case m_AddAccount (e_mcfg E) ivr (p_userID p) row (w_db w) of
                   (Inl e, d1) \<Rightarrow> (Inl (m_err PRegister e), p, w\<lparr>w_db := d1\<rparr>)
                 | (Inr _, d1) \<Rightarrow>
                    (case m_UpdateAccountQuota (p_userID p) i (Limit q) (Usage q) now d1 of
                       (Inl e, d2) \<Rightarrow> (Inl (m_err PRecordQuota e), p, w\<lparr>w_db := d2\<rparr>)
                     | (Inr _, d2) \<Rightarrow>
                        (let a = \<lparr>acc_ID = i, acc_Label = label, acc_Store = Inr h\<rparr> in
                         (Inr a, p\<lparr>p_accounts := AList.update i a (p_accounts p)\<rparr>, w\<lparr>w_db := d2\<rparr>)))))))"

text \<open>\<open>AddAccount\<close> with the outcome of the loopback consent flow.\<close>
definition AddAccount ::
  "'d penv \<Rightarrow> entropy \<Rightarrow> entropy \<Rightarrow> int \<Rightarrow> (string, token) result \<Rightarrow> string \<Rightarrow> pool \<Rightarrow> 'd world
     \<Rightarrow> (perror, account) result \<times> pool \<times> 'd world"
where
  "AddAccount E idr ivr now consent label p w = (case checkLabelAvailable E p label (w_db w) of
     (Some e, d) \<Rightarrow> (Inl e, p, w\<lparr>w_db := d\<rparr>)
   | (None, d) \<Rightarrow> (case consent of
        Inl e \<Rightarrow> (Inl (PConsentFlow e), p, w\<lparr>w_db := d\<rparr>)
      | Inr tok \<Rightarrow> finishAddAccount E idr ivr now label tok p (w\<lparr>w_db := d\<rparr>)))"

text \<open>\<open>CompleteConsent\<close> with the answer of Google's token endpoint to a code and redirect URL.\<close>
definition CompleteConsent ::
  "'d penv \<Rightarrow> (string \<Rightarrow> string \<Rightarrow> (string, token) result) \<Rightarrow> entropy \<Rightarrow> entropy \<Rightarrow> int \<Rightarrow> string \<Rightarrow> string
     \<Rightarrow> string \<Rightarrow> pool \<Rightarrow> 'd world \<Rightarrow> (perror, account) result \<times> pool \<times> 'd world"
where
  "CompleteConsent E exchange idr ivr now redirectURL code label p w =
     (case checkLabelAvailable E p label (w_db w) of
        (Some e, d) \<Rightarrow> (Inl e, p, w\<lparr>w_db := d\<rparr>)
      | (None, d) \<Rightarrow> (case exchange redirectURL code of
           Inl e \<Rightarrow> (Inl (PExchange e), p, w\<lparr>w_db := d\<rparr>)
         | Inr tok \<Rightarrow> finishAddAccount E idr ivr now label tok p (w\<lparr>w_db := d\<rparr>)))"

subsection \<open>Disconnecting an account\<close>

definition RemoveAccount :: "'d penv \<Rightarrow> string \<Rightarrow> bool \<Rightarrow> pool \<Rightarrow> db \<Rightarrow> (perror, unit) result \<times> pool \<times> db" where
  "RemoveAccount E label force p d = (case m_GetAccount (e_mcfg E) (p_userID p) label d of
     (Inl e, d1) \<Rightarrow> (Inl (m_err PManifest e), p, d1)
   | (Inr row, d1) \<Rightarrow>
      (let removal = (\<lambda>d. case m_RemoveAccount (p_userID p) label d of
             (Inl e, d') \<Rightarrow> (Inl (m_err PManifest e), p, d')
           | (Inr _, d') \<Rightarrow> (Inr (), p\<lparr>p_accounts := AList.delete (a_ID row) (p_accounts p)\<rparr>, d'))
       in if force then removal d1
          else (case m_CountActiveChunks (p_userID p) (a_ID row) d1 of
             (Inl e, d2) \<Rightarrow> (Inl (m_err PCheckUsage e), p, d2)
           | (Inr n, d2) \<Rightarrow> if n > 0 then (Inl (ErrAccountInUse label n), p, d2) else removal d2)))"

subsection \<open>Reporting the accounts\<close>

datatype status_err = StatusInit init_err | StatusQuota gerror

record account_status =
  st_Label :: string
  st_Available :: int
  st_Unlimited :: bool
  st_Limit :: int
  st_Usage :: int
  st_PhotoURL :: string
  st_Err :: "status_err option"

definition blank_status :: "string \<Rightarrow> account_status" where
  "blank_status label = \<lparr>st_Label = label, st_Available = 0, st_Unlimited = False, st_Limit = 0,
     st_Usage = 0, st_PhotoURL = [], st_Err = None\<rparr>"

text \<open>
  One row of \<open>ListAccountStatus\<close>. For a row the pool does not know, the lookup yields a nil
  account whose \<open>initErr\<close> is read: a nil dereference.
\<close>
definition account_status_of :: "'d penv \<Rightarrow> 'd drives \<Rightarrow> pool \<Rightarrow> account_row \<Rightarrow> (perror, account_status) result" where
  "account_status_of E ds p row = (let st = blank_status (a_Label row) in
     case map_of (p_accounts p) (a_ID row) of
       None \<Rightarrow> Inl (PPanic ''nil pointer dereference'')
     | Some a \<Rightarrow> (case acc_Store a of
          Inl e \<Rightarrow> Inr (st\<lparr>st_Err := Some (StatusInit e)\<rparr>)
        | Inr h \<Rightarrow> (case rs_Quota (e_rs E) (ds h) of
             Inl e \<Rightarrow> Inr (st\<lparr>st_Err := Some (StatusQuota e)\<rparr>)
           | Inr q \<Rightarrow> Inr (st\<lparr>st_Limit := Limit q, st_Usage := Usage q, st_Unlimited := Unlimited q,
                st_Available := Available q, st_PhotoURL := PhotoURL q\<rparr>))))"

fun all_results :: "('e, 'a) result list \<Rightarrow> ('e, 'a list) result" where
  "all_results [] = Inr []"
| "all_results (r # rs) = (case r of Inl e \<Rightarrow> Inl e
     | Inr x \<Rightarrow> (case all_results rs of Inl e \<Rightarrow> Inl e | Inr xs \<Rightarrow> Inr (x # xs)))"

definition ListAccountStatus ::
  "'d penv \<Rightarrow> pool \<Rightarrow> 'd world \<Rightarrow> (perror, account_status list) result \<times> 'd world"
where
  "ListAccountStatus E p w = (case m_ListAccounts (e_mcfg E) (p_userID p) (w_db w) of
     (Inl e, d) \<Rightarrow> (Inl (m_err PManifest e), w\<lparr>w_db := d\<rparr>)
   | (Inr rows, d) \<Rightarrow> (all_results (map (account_status_of E (w_drives w) p) rows), w\<lparr>w_db := d\<rparr>))"

subsection \<open>The pool and the manifest\<close>

text \<open>A pool is in step with the manifest when it knows exactly the accounts of its user.\<close>
definition pool_sync :: "pool \<Rightarrow> db \<Rightarrow> bool" where
  "pool_sync p d \<longleftrightarrow>
     (\<forall>i. map_of (p_accounts p) i \<noteq> None \<longleftrightarrow> i \<in> a_ID ` {a \<in> set (db_accounts d). a_UserID a = p_userID p})
   \<and> (\<forall>i a. map_of (p_accounts p) i = Some a \<longrightarrow> acc_ID a = i)"

lemma with_token_sel [simp]:
  "a_ID (with_token m a) = a_ID a" "a_UserID (with_token m a) = a_UserID a" "a_Label (with_token m a) = a_Label a"
  by (simp_all add: with_token_def split: sum.splits)

lemma buildAccount_sel [simp]:
  "acc_ID (buildAccount E row) = a_ID row" "acc_Label (buildAccount E row) = a_Label row"
  by (simp_all add: buildAccount_def)

lemma build_accounts_lookup:
  "map_of (build_accounts E rows m) i =
    (case find (\<lambda>r. a_ID r = i) (rev rows) of None \<Rightarrow> map_of m i | Some row \<Rightarrow> Some (buildAccount E row))"
  by (induction rows arbitrary: m) (auto simp: find_append update_conv' split: option.splits)

lemma find_rev_None: "find Q (rev xs) = None \<longleftrightarrow> (\<forall>x \<in> set xs. \<not> Q x)"
  by (auto simp: find_None_iff)

lemma pool_sync_lookup:
  "pool_sync p d \<Longrightarrow> a \<in> set (db_accounts d) \<Longrightarrow> a_UserID a = p_userID p \<Longrightarrow>
    \<exists>acc. map_of (p_accounts p) (a_ID a) = Some acc \<and> acc_ID acc = a_ID a"
  by (fastforce simp: pool_sync_def)

lemma all_results_map_Inr [simp]: "all_results (map Inr xs) = Inr xs"
  by (induction xs) simp_all

lemma all_results_error: "Inl e \<in> set rs \<Longrightarrow> \<exists>e'. all_results rs = Inl e' \<and> Inl e' \<in> set rs"
proof (induction rs)
  case (Cons r rs)
  show ?case
  proof (cases r)
    case (Inr x)
    with Cons.prems have "Inl e \<in> set rs" by simp
    from Cons.IH [OF this] Inr show ?thesis by auto
  qed auto
qed simp

lemma all_results_total:
  "(\<And>x. x \<in> set xs \<Longrightarrow> \<exists>y. f x = Inr y \<and> Q x y) \<Longrightarrow> \<exists>ys. all_results (map f xs) = Inr ys \<and> list_all2 Q xs ys"
proof (induction xs)
  case (Cons x xs)
  then obtain y ys where "f x = Inr y" "Q x y" "all_results (map f xs) = Inr ys" "list_all2 Q xs ys"
    by (meson list.set_intros)
  then show ?case by auto
qed simp

lemma status_of_known:
  "map_of (p_accounts p) (a_ID row) = Some a \<Longrightarrow>
    \<exists>st. account_status_of E ds p row = Inr st \<and> st_Label st = a_Label row"
  by (auto simp: account_status_of_def Let_def blank_status_def split: sum.splits)

lemma status_of_unknown:
  "account_status_of E ds p row = Inl e \<longleftrightarrow>
    map_of (p_accounts p) (a_ID row) = None \<and> e = PPanic ''nil pointer dereference''"
  by (auto simp: account_status_of_def Let_def split: sum.splits option.splits)

text \<open>A row of its user that the pool does not know makes \<open>ListAccountStatus\<close> dereference a nil account.\<close>
lemma unknown_row_panics:
  assumes "r \<in> set (db_accounts (w_db w))" "a_UserID r = p_userID p" "map_of (p_accounts p) (a_ID r) = None"
    and "db_faults (w_db w) = []" "p_userID p \<noteq> []"
  shows "ListAccountStatus E p w = (Inl (PPanic ''nil pointer dereference''), w)"
proof -
  let ?rows = "map (with_token (e_mcfg E)) (sort_key (m_collate (e_mcfg E) \<circ> a_Label)
      (filter (\<lambda>a. a_UserID a = p_userID p) (db_accounts (w_db w))))"
  have "with_token (e_mcfg E) r \<in> set ?rows" using assms(1,2) by simp
  moreover have "account_status_of E (w_drives w) p (with_token (e_mcfg E) r) = Inl (PPanic ''nil pointer dereference'')"
    using assms(3) by (simp add: account_status_of_def Let_def)
  ultimately have "Inl (PPanic ''nil pointer dereference'') \<in> set (map (account_status_of E (w_drives w) p) ?rows)"
    by (metis image_eqI list.set_map)
  from all_results_error [OF this] have "all_results (map (account_status_of E (w_drives w) p) ?rows) = Inl (PPanic ''nil pointer dereference'')"
    by (auto simp: status_of_unknown dest!: sym [of "Inl _"])
  with assms(4,5) show ?thesis by (simp add: ListAccountStatus_def m_ListAccounts_eq)
qed

text \<open>What connecting an account does to the manifest, branch by branch.\<close>
lemma finishAddAccount_cases:
  assumes fin: "finishAddAccount E idr ivr now label tok p w = (res, p', w')"
    and "db_faults (w_db w) = []" "p_userID p \<noteq> []"
  shows "case res of
      Inl e \<Rightarrow> p' = p \<and> w' = w
    | Inr a \<Rightarrow> acc_ID a = GenerateID idr \<and> p' = p\<lparr>p_accounts := AList.update (acc_ID a) a (p_accounts p)\<rparr>
        \<and> tok_RefreshToken tok \<noteq> [] \<and> acc_ID a \<notin> a_ID ` set (db_accounts (w_db w))
        \<and> (\<exists>row. a_ID row = acc_ID a \<and> a_UserID row = p_userID p \<and> a_Label row = label
            \<and> db_accounts (w_db w') = db_accounts (w_db w) @ [row])"
proof (cases res)
  case (Inl e)
  with assms show ?thesis
    by (auto simp: finishAddAccount_def m_AddAccount_def sql_insert_account_def m_UpdateAccountQuota_def
        scoped_def sql_update_accounts_def Let_def split: if_splits sum.splits)
next
  case (Inr a)
  let ?i = "GenerateID idr"
  obtain h q c where h: "e_newClient E tok = Inr h" "rs_Quota (e_rs E) (w_drives w h) = Inr q"
    and tok: "tok_RefreshToken tok \<noteq> []" and c: "encryptToken (e_mcfg E) ivr (Some tok) = Inr c"
    using fin Inr by (auto simp: finishAddAccount_def m_AddAccount_def Let_def split: if_splits sum.splits)
  have new: "\<not> list_ex (\<lambda>b. a_ID b = ?i \<or> a_UserID b = p_userID p \<and> a_Label b = label) (db_accounts (w_db w))"
    using fin Inr h tok c assms(2)
    by (auto simp: finishAddAccount_def m_AddAccount_def sql_insert_account_def Let_def split: if_splits)
  then have fresh: "?i \<notin> a_ID ` set (db_accounts (w_db w))" by (auto simp: list_ex_iff)
  have "map (\<lambda>b. if a_UserID b = p_userID p \<and> a_ID b = ?i then f b else b) (db_accounts (w_db w))
      = db_accounts (w_db w)" for f
  proof (rule map_idI)
    fix b assume "b \<in> set (db_accounts (w_db w))"
    then have "a_ID b \<noteq> ?i" using fresh by (metis imageI)
    then show "(if a_UserID b = p_userID p \<and> a_ID b = ?i then f b else b) = b" by simp
  qed
  with fin Inr h tok c assms(2,3) new fresh show ?thesis
    by (auto simp: finishAddAccount_def m_AddAccount_def sql_insert_account_def m_UpdateAccountQuota_def
        scoped_def sql_update_accounts_def Let_def split: if_splits)
qed

lemma pool_sync_add:
  assumes "pool_sync p d" "db_accounts d' = db_accounts d @ [row]" "a_UserID row = p_userID p" "a_ID row = i" "acc_ID a = i"
  shows "pool_sync (p\<lparr>p_accounts := AList.update i a (p_accounts p)\<rparr>) d'"
proof -
  have "{x \<in> set (db_accounts d'). a_UserID x = p_userID p} =
      insert row {x \<in> set (db_accounts d). a_UserID x = p_userID p}"
    using assms(2,3) by auto
  with assms show ?thesis by (auto simp: pool_sync_def update_conv')
qed

text \<open>Everything about a non-forced removal that succeeds.\<close>
lemma RemoveAccount_success:
  assumes "RemoveAccount E label force p d = (Inr (), p', d')" "db_faults d = []" "p_userID p \<noteq> []" "db_ok d"
  obtains row where "row \<in> set (db_accounts d)" "a_UserID row = p_userID p" "a_Label row = label"
    and "p' = p\<lparr>p_accounts := AList.delete (a_ID row) (p_accounts p)\<rparr>"
    and "db_accounts d' = filter (\<lambda>a. a \<noteq> row) (db_accounts d)" "db_vfiles d' = db_vfiles d"
    and "db_chunks d' = map (unlink {a_ID row}) (db_chunks d)"
    and "\<not> force \<Longrightarrow> fst (m_CountActiveChunks (p_userID p) (a_ID row) d) = Inr 0"
proof -
  let ?Q = "\<lambda>a. a_UserID a = p_userID p \<and> a_Label a = label"
  obtain row tok where r: "sql_first a_ID ?Q (db_accounts d) = Some row"
      "decryptToken (e_mcfg E) (a_TokenCiphertext row) = Inr tok"
    using assms(1-3) by (auto simp: RemoveAccount_def m_GetAccount_eq split: option.splits sum.splits)
  have row: "row \<in> set (db_accounts d)" "?Q row" using sql_first_SomeD [OF r(1)] by auto
  have only: "?Q a \<longleftrightarrow> a = row" if "a \<in> set (db_accounts d)" for a
    using uniq_on_inj [OF db_okD(4) [OF assms(4)], of a row] that row by auto
  have g: "m_GetAccount (e_mcfg E) (p_userID p) label d = (Inr (row\<lparr>a_Token := Some tok\<rparr>), d)"
    using assms(2,3) r by (simp add: m_GetAccount_eq)
  have "set (filter ?Q (db_accounts d)) = {row}" using row only by auto
  then have del: "m_RemoveAccount (p_userID p) label d = (Inr (), d\<lparr>db_accounts := filter (\<lambda>a. \<not> ?Q a) (db_accounts d),
      db_chunks := map (unlink {a_ID row}) (db_chunks d)\<rparr>)"
    using assms(2,3) row by (auto simp: m_RemoveAccount_def scoped_def sql_delete_accounts_def filter_empty_conv)
  have "filter (\<lambda>a. \<not> ?Q a) (db_accounts d) = filter (\<lambda>a. a \<noteq> row) (db_accounts d)"
    using only by (intro filter_cong) auto
  moreover have "\<exists>n. m_CountActiveChunks (p_userID p) (a_ID row) d = (Inr n, d)"
    using assms(2) by (simp add: m_CountActiveChunks_def)
  ultimately show thesis
    using assms(1) g del row that [of row]
    by (auto simp: RemoveAccount_def Let_def split: if_splits)
qed

subsection \<open>Properties\<close>

text \<open>
  C30. \<open>Open\<close> never fails because of an account: it returns a pool in step with the manifest, and
  an account is unusable in it exactly when its token does not decrypt or its client cannot be
  built.
\<close>
theorem open_pool:
  assumes "db_ok d" "db_faults d = []" "u \<noteq> []"
  shows "\<exists>p. Open E u d = (Inr p, d) \<and> p_userID p = u \<and> pool_sync p d
    \<and> (\<forall>a \<in> set (db_accounts d). a_UserID a = u \<longrightarrow>
         (\<exists>acc. map_of (p_accounts p) (a_ID a) = Some acc \<and> acc_Label acc = a_Label a
           \<and> (case acc_Store acc of
                Inl e \<Rightarrow> (case decryptToken (e_mcfg E) (a_TokenCiphertext a) of
                    Inl e' \<Rightarrow> a_Token a = None \<longrightarrow> e = TokenUndecryptable
                  | Inr tok \<Rightarrow> \<exists>e'. e_newClient E tok = Inl e')
              | Inr h \<Rightarrow> a_Token a = None \<longrightarrow> (\<exists>tok. decryptToken (e_mcfg E) (a_TokenCiphertext a) = Inr tok
                  \<and> e_newClient E tok = Inr h))))"
proof -
  let ?rows = "map (with_token (e_mcfg E)) (sort_key (m_collate (e_mcfg E) \<circ> a_Label)
    (filter (\<lambda>a. a_UserID a = u) (db_accounts d)))"
  define p where "p = \<lparr>p_userID = u, p_accounts = build_accounts E ?rows [], p_ChunkSize = 0, p_MaxParallelUploads = 0\<rparr>"
  have o: "Open E u d = (Inr p, d)"
    using assms by (simp add: Open_def m_ListAccounts_eq p_def)
  have look: "map_of (p_accounts p) i =
      (case find (\<lambda>r. a_ID r = i) (rev ?rows) of None \<Rightarrow> None | Some row \<Rightarrow> Some (buildAccount E row))" for i
    using build_accounts_lookup [of E ?rows "[]" i] by (simp only: p_def pool.simps map_of.simps)
  have rows: "x \<in> set (rev ?rows) \<longleftrightarrow>
      (\<exists>a \<in> set (db_accounts d). a_UserID a = u \<and> x = with_token (e_mcfg E) a)" for x
    by auto
  have found: "map_of (p_accounts p) (a_ID a) = Some (buildAccount E (with_token (e_mcfg E) a))"
    if a: "a \<in> set (db_accounts d)" "a_UserID a = u" for a
  proof -
    have "find (\<lambda>r. a_ID r = a_ID a) (rev ?rows) \<noteq> None"
      unfolding find_None_iff using a rows by fastforce
    then obtain r where r: "find (\<lambda>r. a_ID r = a_ID a) (rev ?rows) = Some r" by blast
    then obtain b where "b \<in> set (db_accounts d)" "r = with_token (e_mcfg E) b" "a_ID b = a_ID a"
      using find_Some_iff_in [OF r] rows by auto
    moreover from this have "b = a" using uniq_on_inj [OF db_okD(3) [OF assms(1)]] a by blast
    ultimately show ?thesis using r by (simp add: look)
  qed
  have "pool_sync p d"
  proof -
    have "i \<in> a_ID ` {a \<in> set (db_accounts d). a_UserID a = u} \<and> acc_ID acc = i"
      if known: "map_of (p_accounts p) i = Some acc" for i acc
    proof -
      obtain r where r: "find (\<lambda>r. a_ID r = i) (rev ?rows) = Some r" and acc: "acc = buildAccount E r"
        using known unfolding look by (cases "find (\<lambda>r. a_ID r = i) (rev ?rows)") simp_all
      from find_Some_iff_in [OF r] acc show ?thesis unfolding rows by auto
    qed
    moreover have "p_userID p = u" by (simp add: p_def)
    ultimately show ?thesis using found by (auto simp: pool_sync_def)
  qed
  with o found show ?thesis
    by (auto simp: p_def buildAccount_def with_token_def split: sum.splits option.splits)
qed

text \<open>
  While a pool is in step with the manifest, \<open>ListAccountStatus\<close> answers with one status per
  account of the user, in label order, whatever errors the quota queries report.
\<close>
theorem list_account_status:
  assumes "pool_sync p (w_db w)" "db_faults (w_db w) = []" "p_userID p \<noteq> []"
  shows "\<exists>sts. ListAccountStatus E p w = (Inr sts, w)
    \<and> map st_Label sts = map a_Label (sort_key (m_collate (e_mcfg E) \<circ> a_Label)
        (filter (\<lambda>a. a_UserID a = p_userID p) (db_accounts (w_db w))))"
proof -
  let ?rows = "map (with_token (e_mcfg E)) (sort_key (m_collate (e_mcfg E) \<circ> a_Label)
    (filter (\<lambda>a. a_UserID a = p_userID p) (db_accounts (w_db w))))"
  have "\<exists>st. account_status_of E (w_drives w) p row = Inr st \<and> st_Label st = a_Label row" if row: "row \<in> set ?rows" for row
  proof -
    obtain a where "a \<in> set (db_accounts (w_db w))" "a_UserID a = p_userID p" "row = with_token (e_mcfg E) a"
      using row by auto
    with pool_sync_lookup [OF assms(1)] have "\<exists>acc. map_of (p_accounts p) (a_ID row) = Some acc" by fastforce
    then show ?thesis using status_of_known by blast
  qed
  then obtain sts where "all_results (map (account_status_of E (w_drives w) p) ?rows) = Inr sts"
    "list_all2 (\<lambda>row st. st_Label st = a_Label row) ?rows sts"
    using all_results_total [of ?rows "account_status_of E (w_drives w) p" "\<lambda>row st. st_Label st = a_Label row"] by blast
  moreover from this(2) have "map st_Label sts = map a_Label ?rows"
    by (induction rule: list_all2_induct) simp_all
  ultimately show ?thesis
    using assms(2,3) by (simp add: ListAccountStatus_def m_ListAccounts_eq comp_def)
qed


text \<open>
  C7. Disconnecting an account without \<open>force\<close> never loses data: when it succeeds, every chunk of
  every file that is not deleted, of any user, still refers to the account that holds it, and no
  file row changes.
\<close>
theorem remove_account_keeps_live_files:
  assumes "tenant_ok d" "db_faults d = []" "p_userID p \<noteq> []"
    and "RemoveAccount E label False p d = (Inr (), p', d')"
    and "v \<in> set (db_vfiles d)" "vf_Status v \<noteq> StatusDeleted"
  shows "v \<in> set (db_vfiles d')
    \<and> filter (\<lambda>c. c_VirtualFileID c = vf_ID v) (db_chunks d') = filter (\<lambda>c. c_VirtualFileID c = vf_ID v) (db_chunks d)"
proof -
  have ok: "db_ok d" using assms(1) by (simp add: tenant_ok_def)
  obtain row where row: "row \<in> set (db_accounts d)" "a_UserID row = p_userID p"
    and d': "db_vfiles d' = db_vfiles d" "db_chunks d' = map (unlink {a_ID row}) (db_chunks d)"
    and cnt: "fst (m_CountActiveChunks (p_userID p) (a_ID row) d) = Inr 0"
    by (rule RemoveAccount_success [OF assms(4,2,3) ok]) blast
  have "unlink {a_ID row} c = c" if c: "c \<in> set (db_chunks d)" "c_VirtualFileID c = vf_ID v" for c
  proof (rule unlink_id, rule ccontr)
    assume "\<not> (c_AccountID c = None \<or> the (c_AccountID c) \<notin> {a_ID row})"
    then have a: "c_AccountID c = Some (a_ID row)" by auto
    then have "c_UserID c = p_userID p" using assms(1) c(1) row by (auto simp: tenant_ok_def)
    with a c assms(5,6) cnt show False unfolding m_CountActiveChunks_zero_iff [OF ok assms(2)] by auto
  qed
  then have "filter (\<lambda>c. c_VirtualFileID c = vf_ID v) (map (unlink {a_ID row}) (db_chunks d))
      = filter (\<lambda>c. c_VirtualFileID c = vf_ID v) (db_chunks d)"
    by (auto simp: filter_map comp_def intro: map_idI)
  with d' assms(5) show ?thesis by simp
qed

text \<open>
  A connection that fails only while recording the quota leaves the account registered but
  unknown to the pool, and from then on \<open>ListAccountStatus\<close> of this pool dereferences a nil account.
\<close>
theorem failed_quota_record_breaks_status:
  assumes "finishAddAccount E idr ivr now label tok p w = (Inl (PRecordQuota e), p', w')"
    and "p_userID p \<noteq> []" "map_of (p_accounts p) (GenerateID idr) = None"
  shows "p' = p \<and> fst (ListAccountStatus E p' (w'\<lparr>w_db := (w_db w')\<lparr>db_faults := []\<rparr>\<rparr>)) = Inl (PPanic ''nil pointer dereference'')"
proof -
  let ?i = "GenerateID idr" and ?u = "p_userID p"
  define row where "row = \<lparr>a_ID = ?i, a_UserID = [], a_Label = label, a_TokenCiphertext = [], a_AddedAt = now,
    a_QuotaLimit = None, a_QuotaUsage = None, a_QuotaCheckedAt = None, a_Token = Some tok\<rparr>"
  then have row: "a_ID row = ?i" by simp
  obtain q :: quota_info and d1 d2 where p': "p' = p" "w_db w' = d2" "w_drives w' = w_drives w"
    and add: "m_AddAccount (e_mcfg E) ivr ?u row (w_db w) = (Inr (), d1)"
    and upd: "m_UpdateAccountQuota ?u ?i (Limit q) (Usage q) now d1 = (Inl e, d2)"
    using assms(1) unfolding row_def
    by (auto simp: finishAddAccount_def Let_def m_err_def split: if_splits sum.splits prod.splits)
  obtain c where c: "query (sql_insert_account (row\<lparr>a_UserID := ?u, a_TokenCiphertext := c\<rparr>)) (w_db w) = (Inr (), d1)"
    using add by (auto simp: m_AddAccount_def split: sum.splits)
  define r where "r = row\<lparr>a_UserID := ?u, a_TokenCiphertext := c, a_Token := None\<rparr>"
  have "r \<in> set (db_accounts d1)" using c
    by (cases rule: query_cases) (auto simp: sql_insert_account_def r_def split: if_splits)
  moreover have "scoped ?u (sql_update_accounts (\<lambda>a. a_UserID a = ?u \<and> a_ID a = ?i)
       (\<lambda>a. a\<lparr>a_QuotaLimit := Some (Limit q), a_QuotaUsage := Some (Usage q), a_QuotaCheckedAt := Some now\<rparr>)) d1 = (Inl e, d2)"
    using upd by (auto simp: m_UpdateAccountQuota_def split: prod.splits sum.splits)
  then have "query (sql_update_accounts (\<lambda>a. a_UserID a = ?u \<and> a_ID a = ?i)
       (\<lambda>a. a\<lparr>a_QuotaLimit := Some (Limit q), a_QuotaUsage := Some (Usage q), a_QuotaCheckedAt := Some now\<rparr>)) d1 = (Inl e, d2)"
    using assms(2) by (simp add: scoped_def)
  then have "db_accounts d2 = db_accounts d1"
    by (cases rule: query_cases) (auto simp: sql_update_accounts_def)
  ultimately have "r \<in> set (db_accounts d2)" by simp
  then show ?thesis
    using p' assms(2,3) unknown_row_panics [of r "w'\<lparr>w_db := d2\<lparr>db_faults := []\<rparr>\<rparr>" p E] row by (simp add: r_def)
qed

subsection \<open>Witnesses\<close>

definition toy_penv :: "mem_drive penv" where
  "toy_penv = \<lparr>e_mcfg = toy_mcfg, e_rs = toy_rs, e_newClient = (\<lambda>tok. Inr 0)\<rparr>"

text \<open>A user with one readable account, opened as a pool, and one file of two bytes per chunk.\<close>
definition toy_cipher :: bytes where
  "toy_cipher = map toy_rnd [0..<16] @ xor_at (ctr_stream toy_prims (replicate 32 5) (map toy_rnd [0..<16])) 0 [123, 125]"

definition toy_row :: account_row where
  "toy_row = (toy_account ''A'' ''u'' ''work'')\<lparr>a_TokenCiphertext := toy_cipher\<rparr>"

definition toy_db2 :: db where
  "toy_db2 = \<lparr>db_users = [toy_user ''u''], db_accounts = [toy_row], db_vfiles = [toy_vfile 1 ''u'' ''abc''],
     db_chunks = [], db_vfseq = 1, db_chunkseq = 0, db_faults = []\<rparr>"

definition toy_world :: "mem_drive world" where
  "toy_world = \<lparr>w_db = toy_db2, w_drives = toy_drives\<rparr>"

definition toy_pool :: pool where
  "toy_pool = \<lparr>p_userID = ''u'', p_accounts = [(''A'', \<lparr>acc_ID = ''A'', acc_Label = ''work'', acc_Store = Inr 0\<rparr>)],
     p_ChunkSize = 2, p_MaxParallelUploads = 0\<rparr>"

lemma toy_decrypt: "decryptToken toy_mcfg toy_cipher = Inr toy_token"
proof -
  have "encrypt_buffer toy_prims (replicate 32 5) toy_rnd [123, 125] = Inr toy_cipher"
    by (simp add: encrypt_buffer_eq aes_key_ok_def toy_cipher_def)
  from aes_ctr.dec_enc_bytes [OF this] show ?thesis by (simp add: decryptToken_def toy_mcfg_def)
qed

lemma toy_db2_ok: "db_ok toy_db2" "tenant_ok toy_db2"
  by (simp_all add: db_ok_def tenant_ok_def toy_db2_def toy_row_def toy_db_defs uniq_on_def)

lemma toy_sync: "pool_sync toy_pool toy_db2"
proof -
  have "{a \<in> set (db_accounts toy_db2). a_UserID a = p_userID toy_pool} = {toy_row}" "a_ID toy_row = ''A''"
    by (auto simp: toy_pool_def toy_db2_def toy_row_def toy_account_def)
  then show ?thesis unfolding pool_sync_def by (simp only: image_insert image_empty) (simp add: toy_pool_def)
qed

lemma toy_simple [simp]:
  "db_faults toy_db2 = []" "p_userID toy_pool = ''u''" "w_db toy_world = toy_db2" "w_drives toy_world = toy_drives"
  by (simp_all add: toy_db2_def toy_pool_def toy_world_def)

theorem open_pool_witness:
  "\<exists>p. Open toy_penv ''u'' toy_db2 = (Inr p, toy_db2) \<and> pool_sync p toy_db2
     \<and> (\<exists>acc. map_of (p_accounts p) ''A'' = Some acc \<and> acc_Label acc = ''work'')"
proof -
  have "toy_row \<in> set (db_accounts toy_db2)" "a_UserID toy_row = ''u''" "a_ID toy_row = ''A''" "a_Label toy_row = ''work''"
    by (simp_all add: toy_db2_def toy_row_def toy_account_def)
  with open_pool [OF toy_db2_ok(1), of "''u''" toy_penv] show ?thesis by fastforce
qed

theorem list_account_status_witness:
  "\<exists>sts. ListAccountStatus toy_penv toy_pool toy_world = (Inr sts, toy_world) \<and> map st_Label sts = [''work'']"
  using list_account_status [of toy_pool toy_world toy_penv] toy_sync
  by (simp add: toy_db2_def toy_row_def toy_account_def)


theorem remove_account_keeps_live_files_witness:
  "\<exists>p' d'. RemoveAccount toy_penv ''work'' False toy_pool toy_db2 = (Inr (), p', d')
     \<and> toy_vfile 1 ''u'' ''abc'' \<in> set (db_vfiles d')"
proof -
  have g: "m_GetAccount toy_mcfg ''u'' ''work'' toy_db2 = (Inr (toy_row\<lparr>a_Token := Some toy_token\<rparr>), toy_db2)"
    using m_GetAccount_found [OF toy_db2_ok(1), of "''u''" toy_row "''work''" toy_mcfg]
    by (simp add: toy_decrypt toy_db2_def toy_row_def toy_account_def)
  obtain p' d' where r: "RemoveAccount toy_penv ''work'' False toy_pool toy_db2 = (Inr (), p', d')"
  proof -
    have "m_CountActiveChunks ''u'' (a_ID toy_row) toy_db2 = (Inr 0, toy_db2)"
      by (simp add: m_CountActiveChunks_def) (simp add: toy_db2_def)
    moreover have "\<exists>d'. m_RemoveAccount ''u'' ''work'' toy_db2 = (Inr (), d')"
      by (simp add: m_RemoveAccount_def scoped_def sql_delete_accounts_def)
        (simp add: toy_db2_def toy_row_def toy_account_def)
    ultimately show thesis using g that by (auto simp: RemoveAccount_def toy_penv_def)
  qed
  have "toy_vfile 1 ''u'' ''abc'' \<in> set (db_vfiles toy_db2)"
    "vf_Status (toy_vfile 1 ''u'' ''abc'') \<noteq> StatusDeleted"
    by (simp_all add: toy_db2_def toy_vfile_def)
  from remove_account_keeps_live_files [OF toy_db2_ok(2) _ _ r this] r show ?thesis by simp
qed

theorem failed_quota_record_breaks_status_witness:
  "\<exists>p' w'. finishAddAccount toy_penv toy_rnd toy_rnd 5 ''home'' toy_token toy_pool
        (toy_world\<lparr>w_db := toy_db2\<lparr>db_faults := [None, Some ''down'']\<rparr>\<rparr>) = (Inl (PRecordQuota (DBErr ''down'')), p', w')
     \<and> fst (ListAccountStatus toy_penv p' (w'\<lparr>w_db := (w_db w')\<lparr>db_faults := []\<rparr>\<rparr>)) = Inl (PPanic ''nil pointer dereference'')"
proof -
  have i: "length (GenerateID toy_rnd) \<noteq> length ''A''" by (simp add: GenerateID_def)
  then have id_ne: "GenerateID toy_rnd \<noteq> ''A''" "''A'' \<noteq> GenerateID toy_rnd" by metis+
  have q: "\<exists>q. rs_Quota toy_rs (toy_drives 0) = Inr q"
    using toy_live_quota(1) [of "''A''" 0] unfolding live_quota_def
    by (auto simp: toy_acc_def split: sum.splits)
  obtain p' w' where f: "finishAddAccount toy_penv toy_rnd toy_rnd 5 ''home'' toy_token toy_pool
        (toy_world\<lparr>w_db := toy_db2\<lparr>db_faults := [None, Some ''down'']\<rparr>\<rparr>) = (Inl (PRecordQuota (DBErr ''down'')), p', w')"
    using q id_ne
    by (auto simp: finishAddAccount_def toy_penv_def toy_token_def m_AddAccount_def encryptToken_def toy_mcfg_def
        encrypt_buffer_eq aes_key_ok_def query_def sql_insert_account_def toy_db2_def toy_row_def toy_account_def
        toy_user_def m_UpdateAccountQuota_def scoped_def Let_def m_err_def)
  from failed_quota_record_breaks_status [OF f] f id_ne show ?thesis by (auto simp: toy_pool_def)
qed

end
