(* ===== verification/Pool_Put.thy ===== *)
theory Pool_Put
  imports Pool_Accounts
begin

text \<open>
  \<open>PutStream\<close> of \<open>drivepool/pool.go\<close> and what it calls. The calling goroutine reads the chunks in
  order and places each on an account (\<open>plan_loop\<close>); what it decides does not depend on the
  goroutines it starts. Those run concurrently and share the folder resolver, the results, the
  first error and the drives. Each has two atomic actions, resolving the folder (under the
  resolver's mutex) and sending the ciphertext; an interleaving is a list of chunk indices, each
  advancing that chunk's goroutine by one action, and \<open>run_uploads\<close> finishes whatever such a
  schedule leaves undone, as \<open>wg.Wait\<close> does. The theorems hold for every schedule.
\<close>

record uploadedChunk =
  uc_index :: nat
  uc_accountID :: string
  uc_remoteFileID :: string
  uc_remoteFolderID :: string
  uc_plaintextSize :: int
  uc_plaintextSHA256 :: string
  uc_ciphertextMD5 :: string
  uc_compressionAlgo :: compression
  uc_compressedSize :: int

type_synonym folderResolver = "(string \<times> string) list"  \<comment> \<open>accountID to folderID\<close>

text \<open>A nil store, which placement never hands out, would be a nil dereference.\<close>
definition resolve ::
  "'d remote_store \<Rightarrow> account \<Rightarrow> string \<Rightarrow> folderResolver \<Rightarrow> 'd drives \<Rightarrow> (gerror, string) result \<times> folderResolver \<times> 'd drives"
where
  "resolve rs acc name fr ds = (case map_of fr (acc_ID acc) of
     Some i \<Rightarrow> (Inr i, fr, ds)
   | None \<Rightarrow> (let h = projr (acc_Store acc) in
       case rs_EnsureFolder rs name (ds h) of
         (Inl e, d) \<Rightarrow> (Inl e, fr, ds(h := d))
       | (Inr i, d) \<Rightarrow> (Inr i, AList.update (acc_ID acc) i fr, ds(h := d))))"

subsection \<open>uploadChunk\<close>

text \<open>The decimal digits of \<open>%d\<close> and the zero padding of \<open>%04d\<close>.\<close>
fun dec_digits :: "nat \<Rightarrow> string" where
  "dec_digits n = (if n < 10 then [char_of (48 + n)] else dec_digits (n div 10) @ [char_of (48 + n mod 10)])"

declare dec_digits.simps [simp del]

definition chunk_name :: "nat \<Rightarrow> string" where
  "chunk_name idx = (let s = dec_digits idx in ''chunk-'' @ replicate (4 - length s) (CHR ''0'') @ s)"

definition chunk_payload :: "prims \<Rightarrow> bytes \<Rightarrow> bytes \<times> compression" where
  "chunk_payload P plaintext = (case CompressBytes P plaintext of
     Inr compressed \<Rightarrow> if length compressed < length plaintext then (compressed, CompressionFlate)
       else (plaintext, CompressionNone)
   | Inl e \<Rightarrow> (plaintext, CompressionNone))"

definition seal_chunk :: "prims \<Rightarrow> entropy \<Rightarrow> bytes \<Rightarrow> nat \<Rightarrow> bytes \<Rightarrow> (perror, bytes) result" where
  "seal_chunk P iv fileKey idx plaintext =
     (case encrypt_buffer P fileKey iv (fst (chunk_payload P plaintext)) of
        Inl e \<Rightarrow> Inl (PEncryptChunk idx e) | Inr c \<Rightarrow> Inr c)"

text \<open>The part of \<open>uploadChunk\<close> up to and including \<open>folders.resolve\<close>.\<close>
definition start_upload ::
  "'d penv \<Rightarrow> entropy \<Rightarrow> bytes \<Rightarrow> string \<Rightarrow> account \<Rightarrow> nat \<Rightarrow> bytes \<Rightarrow> folderResolver \<Rightarrow> 'd drives
     \<Rightarrow> (perror, string) result \<times> folderResolver \<times> 'd drives"
where
  "start_upload E iv fileKey fileID acc idx plaintext fr ds =
     (case seal_chunk (m_prims (e_mcfg E)) iv fileKey idx plaintext of
        Inl e \<Rightarrow> (Inl e, fr, ds)
      | Inr c \<Rightarrow> (case resolve (e_rs E) acc fileID fr ds of
           (Inl e, fr', ds') \<Rightarrow> (Inl (PEnsureFolder idx e), fr', ds')
         | (Inr folderID, fr', ds') \<Rightarrow> (Inr folderID, fr', ds')))"

text \<open>The part of \<open>uploadChunk\<close> from \<open>Store.Upload\<close> on.\<close>
definition send_upload ::
  "'d penv \<Rightarrow> entropy \<Rightarrow> bytes \<Rightarrow> account \<Rightarrow> nat \<Rightarrow> bytes \<Rightarrow> string \<Rightarrow> 'd drives
     \<Rightarrow> (perror, uploadedChunk) result \<times> 'd drives"
where
  "send_upload E iv fileKey acc idx plaintext folderID ds =
     (let P = m_prims (e_mcfg E); (payload, algo) = chunk_payload P plaintext in
      case seal_chunk P iv fileKey idx plaintext of
        Inl e \<Rightarrow> (Inl e, ds)
      | Inr ciphertext \<Rightarrow>
         (let h = projr (acc_Store acc);
              ciphertextMD5 = hex_encode (md5_sum P ciphertext)
          in case rs_Upload (e_rs E) (chunk_name idx) folderID ciphertext (ds h) of
               (Inl e, d) \<Rightarrow> (Inl (PUpload idx e), ds(h := d))
             | (Inr (remoteFileID, remoteMD5), d) \<Rightarrow>
                 (if remoteMD5 \<noteq> [] \<and> remoteMD5 \<noteq> ciphertextMD5
                  then (Inl (PIntegrity idx ciphertextMD5 remoteMD5), ds(h := d))
                  else (Inr \<lparr>uc_index = idx, uc_accountID = acc_ID acc, uc_remoteFileID = remoteFileID,
                     uc_remoteFolderID = folderID, uc_plaintextSize = int (length plaintext),
                     uc_plaintextSHA256 = hex_encode (sha256_sum P plaintext), uc_ciphertextMD5 = ciphertextMD5,
                     uc_compressionAlgo = algo, uc_compressedSize = int (length payload)\<rparr>, ds(h := d)))))"

definition uploadChunk ::
  "'d penv \<Rightarrow> entropy \<Rightarrow> account \<Rightarrow> string \<Rightarrow> bytes \<Rightarrow> nat \<Rightarrow> bytes \<Rightarrow> folderResolver \<Rightarrow> 'd drives
     \<Rightarrow> (perror, uploadedChunk) result \<times> folderResolver \<times> 'd drives"
where
  "uploadChunk E iv acc fileID fileKey idx plaintext fr ds =
     (case start_upload E iv fileKey fileID acc idx plaintext fr ds of
        (Inl e, fr', ds') \<Rightarrow> (Inl e, fr', ds')
      | (Inr folderID, fr', ds') \<Rightarrow>
         (case send_upload E iv fileKey acc idx plaintext folderID ds' of (res, ds'') \<Rightarrow> (res, fr', ds'')))"

subsection \<open>The goroutines\<close>

datatype task_pc = Started | Resolved string | Finished

record upload_task =
  t_plain :: bytes
  t_acc :: account
  t_pc :: task_pc

record 'd put_state =
  ps_drives :: "'d drives"
  ps_folders :: folderResolver
  ps_tasks :: "upload_task list"  \<comment> \<open>one per chunk, at the chunk's index\<close>
  ps_results :: "uploadedChunk option list"
  ps_firstErr :: "perror option"

text \<open>The end of a goroutine, under \<open>mu\<close>: record the result or the first error.\<close>
definition finish_task :: "nat \<Rightarrow> (perror, uploadedChunk) result \<Rightarrow> 'd put_state \<Rightarrow> 'd put_state" where
  "finish_task i res s = (let s1 = s\<lparr>ps_tasks := (ps_tasks s)[i := (ps_tasks s ! i)\<lparr>t_pc := Finished\<rparr>]\<rparr> in
     case res of
       Inl e \<Rightarrow> (if ps_firstErr s = None then s1\<lparr>ps_firstErr := Some e\<rparr> else s1)
     | Inr uc \<Rightarrow> s1\<lparr>ps_results := (ps_results s)[i := Some uc]\<rparr>)"

definition task_step :: "'d penv \<Rightarrow> (nat \<Rightarrow> entropy) \<Rightarrow> bytes \<Rightarrow> string \<Rightarrow> nat \<Rightarrow> 'd put_state \<Rightarrow> 'd put_state" where
  "task_step E ivs fileKey fileID i s =
     (if length (ps_tasks s) \<le> i then s
      else let t = ps_tasks s ! i in
        (case t_pc t of
           Started \<Rightarrow>
             (case start_upload E (ivs i) fileKey fileID (t_acc t) i (t_plain t) (ps_folders s) (ps_drives s) of
                (Inl e, fr, ds) \<Rightarrow> finish_task i (Inl e) (s\<lparr>ps_folders := fr, ps_drives := ds\<rparr>)
              | (Inr folderID, fr, ds) \<Rightarrow> s\<lparr>ps_folders := fr, ps_drives := ds,
                   ps_tasks := (ps_tasks s)[i := t\<lparr>t_pc := Resolved folderID\<rparr>]\<rparr>)
         | Resolved folderID \<Rightarrow>
             (case send_upload E (ivs i) fileKey (t_acc t) i (t_plain t) folderID (ps_drives s) of
                (res, ds) \<Rightarrow> finish_task i res (s\<lparr>ps_drives := ds\<rparr>))
         | Finished \<Rightarrow> s))"

definition run_uploads ::
  "'d penv \<Rightarrow> (nat \<Rightarrow> entropy) \<Rightarrow> bytes \<Rightarrow> string \<Rightarrow> nat list \<Rightarrow> 'd put_state \<Rightarrow> 'd put_state"
where
  "run_uploads E ivs fileKey fileID sched s =
     (let n = length (ps_tasks s) in
      fold (task_step E ivs fileKey fileID) (sched @ [0..<n] @ [0..<n]) s)"

subsection \<open>The calling goroutine\<close>

datatype placer = SingleAccount account | Tracked placementTracker

definition place_chunk :: "pool \<Rightarrow> map_order \<Rightarrow> int \<Rightarrow> placer \<Rightarrow> (perror, account) result \<times> placer" where
  "place_chunk p rank n pl = (case pl of
     SingleAccount a \<Rightarrow> (Inr a, pl)
   | Tracked t \<Rightarrow> (case reserve rank n t of
        (Inl e, t') \<Rightarrow> (Inl ErrNoHealthyAccounts, Tracked t')
      | (Inr i, t') \<Rightarrow> (case map_of (p_accounts p) i of
           None \<Rightarrow> Inl (PPanic ''nil pointer dereference'') | Some a \<Rightarrow> Inr a, Tracked t')))"

text \<open>
  The read loop with \<open>k\<close> iterations to go: the tasks it starts, the bytes it hashes and the error
  that stops it.
\<close>
fun plan_loop ::
  "pool \<Rightarrow> (nat \<Rightarrow> map_order) \<Rightarrow> int \<Rightarrow> nat \<Rightarrow> nat \<Rightarrow> int \<Rightarrow> reader \<Rightarrow> placer \<Rightarrow> upload_task list \<times> bytes \<times> perror option"
where
  "plan_loop p ranks cs 0 idx remaining r pl = ([], [], None)"
| "plan_loop p ranks cs (Suc k) idx remaining r pl =
     (let n = (if remaining < cs then remaining else cs) in
      if n < 0 then ([], [], Some (PPanic ''makeslice: len out of range''))
      else (case (if n > 0 then io_ReadFull (nat n) r else (Inr [], r)) of
          (Inl e, r') \<Rightarrow> ([], [], Some (PReadChunk idx e))
        | (Inr buf, r') \<Rightarrow> (case place_chunk p (ranks idx) n pl of
             (Inl e, pl') \<Rightarrow> ([], buf, Some e)
           | (Inr a, pl') \<Rightarrow>
               (let (ts, hashed, err) = plan_loop p ranks cs k (Suc idx) (remaining - n) r' pl' in
                (\<lparr>t_plain = buf, t_acc = a, t_pc = Started\<rparr> # ts, buf @ hashed, err)))))"

fun cleanupChunks :: "'d penv \<Rightarrow> pool \<Rightarrow> uploadedChunk list \<Rightarrow> 'd drives \<Rightarrow> 'd drives" where
  "cleanupChunks E p [] ds = ds"
| "cleanupChunks E p (c # cs) ds = (case map_of (p_accounts p) (uc_accountID c) of
     None \<Rightarrow> cleanupChunks E p cs ds
   | Some acc \<Rightarrow> (case acc_Store acc of
        Inl e \<Rightarrow> cleanupChunks E p cs ds
      | Inr h \<Rightarrow> (case rs_Delete (e_rs E) (uc_remoteFileID c) (ds h) of
           (e, d) \<Rightarrow> cleanupChunks E p cs (ds(h := d)))))"

definition chunk_row :: "int \<Rightarrow> uploadedChunk \<Rightarrow> chunk" where
  "chunk_row vfid uc = \<lparr>c_ID = 0, c_UserID = [], c_VirtualFileID = vfid, c_Index = int (uc_index uc),
     c_AccountID = Some (uc_accountID uc), c_RemoteFileID = uc_remoteFileID uc,
     c_RemoteFolderID = uc_remoteFolderID uc, c_PlaintextSize = uc_plaintextSize uc,
     c_PlaintextSHA256 = uc_plaintextSHA256 uc, c_CiphertextMD5 = uc_ciphertextMD5 uc,
     c_CompressionAlgo = uc_compressionAlgo uc, c_CompressedSize = uc_compressedSize uc, c_UploadedAt = 0\<rparr>"

fun record_chunks :: "int \<Rightarrow> string \<Rightarrow> int \<Rightarrow> uploadedChunk list \<Rightarrow> db \<Rightarrow> perror option \<times> db" where
  "record_chunks now u vfid [] d = (None, d)"
| "record_chunks now u vfid (uc # ucs) d = (case m_AddChunk now u (chunk_row vfid uc) d of
     (Inl e, d') \<Rightarrow> (Some (m_err (PRecordChunk (uc_index uc)) e), d')
   | (Inr _, d') \<Rightarrow> record_chunks now u vfid ucs d')"

text \<open>
  The number of chunks in \<open>int64\<close> arithmetic, as written: the sum can wrap around.
\<close>
definition num_chunks :: "int \<Rightarrow> int \<Rightarrow> int" where
  "num_chunks n cs = (if n > 0 then go_quot (i64 (i64 (n + cs) - 1)) cs else 1)"

text \<open>The choices the environment makes for one call.\<close>
record put_env =
  pe_key :: entropy
  pe_id :: entropy
  pe_ivs :: "nat \<Rightarrow> entropy"
  pe_now :: int
  pe_order :: map_order  \<comment> \<open>the iteration over \<open>p.accounts\<close>\<close>
  pe_ranks :: "nat \<Rightarrow> map_order"  \<comment> \<open>the iterations in each \<open>reserve\<close>\<close>
  pe_sched :: "nat list"

definition candidates :: "pool \<Rightarrow> map_order \<Rightarrow> account list" where
  "candidates p rank = map (\<lambda>i. the (map_of (p_accounts p) i)) (map_iter rank (map fst (p_accounts p)))"

definition choose_placer :: "'d penv \<Rightarrow> 'd drives \<Rightarrow> account list \<Rightarrow> int \<Rightarrow> (perror, placer) result" where
  "choose_placer E ds accs numChunks =
     (if numChunks = 1 then (case pickAccount (e_rs E) ds accs of
          Inl e \<Rightarrow> Inl ErrNoHealthyAccounts | Inr a \<Rightarrow> Inr (SingleAccount a))
      else (case newPlacementTracker (e_rs E) ds accs of
          Inl e \<Rightarrow> Inl ErrNoHealthyAccounts | Inr t \<Rightarrow> Inr (Tracked t)))"

text \<open>From \<open>wg.Wait\<close> on: collect the results, clean up after an error, record the file.\<close>
definition finish_put ::
  "'d penv \<Rightarrow> pool \<Rightarrow> int \<Rightarrow> virtual_file \<Rightarrow> perror option \<Rightarrow> 'd put_state \<Rightarrow> db \<Rightarrow> (perror, unit) result \<times> 'd world"
where
  "finish_put E p now vf readErr s d =
     (let uploaded = List.map_filter id (ps_results s);
          cleaned = cleanupChunks E p uploaded (ps_drives s)
      in case readErr of
           Some e \<Rightarrow> (Inl e, \<lparr>w_db = d, w_drives = cleaned\<rparr>)
         | None \<Rightarrow> (case ps_firstErr s of
             Some e \<Rightarrow> (Inl e, \<lparr>w_db = d, w_drives = cleaned\<rparr>)
           | None \<Rightarrow> (case m_CreateVirtualFile now (p_userID p) vf d of
               (Inl e, d1) \<Rightarrow> (Inl (m_err PRecordFile e), \<lparr>w_db = d1, w_drives = cleaned\<rparr>)
             | (Inr row, d1) \<Rightarrow> (case record_chunks now (p_userID p) (vf_ID row) uploaded d1 of
                 (Some e, d2) \<Rightarrow> (Inl e, \<lparr>w_db = d2, w_drives = ps_drives s\<rparr>)
               | (None, d2) \<Rightarrow> (case m_SetVirtualFileStatus now (p_userID p) (vf_ID row) StatusComplete d2 of
                   (Inl e, d3) \<Rightarrow> (Inl (m_err PManifest e), \<lparr>w_db = d3, w_drives = ps_drives s\<rparr>)
                 | (Inr _, d3) \<Rightarrow> (Inr (), \<lparr>w_db = d3, w_drives = ps_drives s\<rparr>))))))"

definition PutStream ::
  "'d penv \<Rightarrow> put_env \<Rightarrow> pool \<Rightarrow> reader \<Rightarrow> int \<Rightarrow> string \<Rightarrow> 'd world \<Rightarrow> (perror, unit) result \<times> 'd world"
where
  "PutStream E pe p r n virtualName w =
     (let cs = chunkSize p; numChunks = num_chunks n cs in
      case choose_placer E (w_drives w) (candidates p (pe_order pe)) numChunks of
        Inl e \<Rightarrow> (Inl e, w)
      | Inr pl \<Rightarrow>
         (if numChunks < 0 then (Inl (PPanic ''makeslice: len out of range''), w)
          else let
            fileKey = NewEncryptionKey (pe_key pe);
            fileID = GenerateID (pe_id pe);
            (tasks, hashed, readErr) = plan_loop p (pe_ranks pe) cs (nat numChunks) 0 n r pl;
            s = run_uploads E (pe_ivs pe) fileKey fileID (pe_sched pe)
                  \<lparr>ps_drives = w_drives w, ps_folders = [], ps_tasks = tasks,
                   ps_results = replicate (nat numChunks) None, ps_firstErr = None\<rparr>;
            vf = \<lparr>vf_ID = 0, vf_UserID = [], vf_Name = virtualName, vf_Size = n,
                  vf_ContentHash = hex_encode (sha256_sum (m_prims (e_mcfg E)) hashed), vf_ChunkSize = cs,
                  vf_FileKey = fileKey, vf_Replicas = 0, vf_Version = 0, vf_Status = StatusIncomplete,
                  vf_CreatedAt = 0, vf_ModifiedAt = 0\<rparr>
          in finish_put E p (pe_now pe) vf readErr s (w_db w)))"

subsection \<open>The plan\<close>

lemma map_of_mem_keys: "i \<in> fst ` set al \<Longrightarrow> \<exists>a. map_of al i = Some a"
  by (metis map_of_eq_None_iff not_Some_eq)

lemma candidates_in: "a \<in> set (candidates p rank) \<Longrightarrow> \<exists>i. map_of (p_accounts p) i = Some a"
  by (auto simp: candidates_def dest!: map_of_mem_keys)

text \<open>The accounts a placer can hand out: known to the pool, under their own identifier, with a store.\<close>
definition usable :: "pool \<Rightarrow> account \<Rightarrow> bool" where
  "usable p a \<longleftrightarrow> map_of (p_accounts p) (acc_ID a) = Some a \<and> (\<exists>h. acc_Store a = Inr h)"

definition placer_ok :: "pool \<Rightarrow> placer \<Rightarrow> bool" where
  "placer_ok p pl = (case pl of
     SingleAccount a \<Rightarrow> usable p a
   | Tracked t \<Rightarrow> \<forall>i \<in> tracker_ids t. \<exists>a. map_of (p_accounts p) i = Some a \<and> usable p a)"

definition ids_match :: "pool \<Rightarrow> bool" where
  "ids_match p \<longleftrightarrow> (\<forall>i a. map_of (p_accounts p) i = Some a \<longrightarrow> acc_ID a = i)"

lemma pool_sync_ids: "pool_sync p d \<Longrightarrow> ids_match p"
  by (simp add: pool_sync_def ids_match_def)

lemma live_quota_store: "live_quota rs ds a \<noteq> None \<Longrightarrow> \<exists>h. acc_Store a = Inr h"
  by (auto simp: live_quota_def split: sum.splits)

lemma choose_placer_ok:
  assumes "ids_match p" "choose_placer E ds (candidates p rank) n = Inr pl"
  shows "placer_ok p pl"
proof -
  have use: "usable p a" if "a \<in> set (candidates p rank)" "live_quota (e_rs E) ds a \<noteq> None" for a
    using candidates_in [OF that(1)] live_quota_store [OF that(2)] assms(1)
    by (auto simp: usable_def ids_match_def)
  show ?thesis
  proof (cases "n = 1")
    case True
    then obtain a where a: "pickAccount (e_rs E) ds (candidates p rank) = Inr a" "pl = SingleAccount a"
      using assms(2) by (auto simp: choose_placer_def split: sum.splits)
    with pick_account_spec [where rs = "e_rs E" and ds = ds and accounts = "candidates p rank"] use show ?thesis by (auto simp: placer_ok_def)
  next
    case False
    then obtain t where t: "newPlacementTracker (e_rs E) ds (candidates p rank) = Inr t" "pl = Tracked t"
      using assms(2) by (auto simp: choose_placer_def split: sum.splits)
    show ?thesis
    proof (unfold placer_ok_def t(2) placer.case, intro ballI)
      fix i assume "i \<in> tracker_ids t"
      then obtain a where "a \<in> set (candidates p rank)" "live_quota (e_rs E) ds a \<noteq> None" "i = acc_ID a"
        unfolding newPlacementTracker_spec [OF t(1)] by blast
      then show "\<exists>a. map_of (p_accounts p) i = Some a \<and> usable p a"
        using use by (auto simp: usable_def)
    qed
  qed
qed

lemma place_chunk_ok:
  assumes "placer_ok p pl" "place_chunk p rank n pl = (res, pl')"
  shows "placer_ok p pl'" and "res = Inr a \<Longrightarrow> usable p a" and "res = Inl e \<Longrightarrow> e = ErrNoHealthyAccounts"
proof -
  have "placer_ok p pl' \<and> (\<forall>a. res = Inr a \<longrightarrow> usable p a) \<and> (\<forall>e. res = Inl e \<longrightarrow> e = ErrNoHealthyAccounts)"
  proof (cases pl)
    case (SingleAccount a)
    with assms show ?thesis by (auto simp: place_chunk_def placer_ok_def)
  next
    case (Tracked t)
    obtain r t' where r: "reserve rank n t = (r, t')" by (metis surj_pair)
    note ids = tracked.place_ids [OF r] tracked.place_in [of rank n t _ t']
    show ?thesis using assms Tracked r ids
      by (cases r) (auto simp: place_chunk_def placer_ok_def)
  qed
  then show "placer_ok p pl'" "res = Inr a \<Longrightarrow> usable p a" "res = Inl e \<Longrightarrow> e = ErrNoHealthyAccounts" by blast+
qed

text \<open>
  What the read loop plans: the tasks carry consecutive pieces of the source, each on a usable
  account; if nothing stops it, they are all of the announced bytes.
\<close>
lemma plan_loop_accounts:
  assumes "placer_ok p pl" "plan_loop p ranks cs k idx rem r pl = (ts, hashed, err)" "t \<in> set ts"
  shows "usable p (t_acc t) \<and> t_pc t = Started"
  using assms
proof (induction k arbitrary: idx rem r pl ts hashed err)
  case (Suc k)
  let ?n = "if rem < cs then rem else cs"
  obtain rd r' where rd: "(if ?n > 0 then io_ReadFull (nat ?n) r else (Inr [], r)) = (rd, r')" by (metis surj_pair)
  obtain res pl' where pl: "place_chunk p (ranks idx) ?n pl = (res, pl')" by (metis surj_pair)
  from Suc.prems(2,3) rd pl obtain buf a ts' h' where "rd = Inr buf" "res = Inr a"
    and rest: "plan_loop p ranks cs k (Suc idx) (rem - ?n) r' pl' = (ts', h', err)"
      "ts = \<lparr>t_plain = buf, t_acc = a, t_pc = Started\<rparr> # ts'"
    by (auto simp: Let_def split: if_splits sum.splits prod.splits)
  with place_chunk_ok [OF Suc.prems(1) pl] Suc.IH [of pl' "Suc idx" "rem - ?n" r' ts' h' err] Suc.prems(3)
  show ?case by auto
qed simp

lemma plan_loop_complete:
  assumes "plan_loop p ranks cs k idx rem r pl = (ts, hashed, None)" "0 < cs" "0 \<le> rem" "rem \<le> int k * cs"
  shows "length ts = k \<and> concat (map t_plain ts) = hashed \<and> hashed = take (nat rem) (content r)
    \<and> length hashed = nat rem"
  using assms
proof (induction k arbitrary: idx rem r pl ts hashed)
  case 0
  then show ?case by simp
next
  case (Suc k)
  define n where "n = (if rem < cs then rem else cs)"
  have n: "0 \<le> n" "n \<le> rem" "rem - n \<le> int k * cs" "0 \<le> rem - n"
    using Suc.prems(2-4) by (auto simp: n_def algebra_simps)
  obtain rd r' where rd: "(if n > 0 then io_ReadFull (nat n) r else (Inr [], r)) = (rd, r')" by (metis surj_pair)
  obtain res pl' where pl: "place_chunk p (ranks idx) n pl = (res, pl')" by (metis surj_pair)
  obtain buf a ts' h' where buf: "rd = Inr buf" and "res = Inr a"
    and rest: "plan_loop p ranks cs k (Suc idx) (rem - n) r' pl' = (ts', h', None)"
      "ts = \<lparr>t_plain = buf, t_acc = a, t_pc = Started\<rparr> # ts'" "hashed = buf @ h'"
    using Suc.prems(1) rd pl n(1) unfolding plan_loop.simps n_def [symmetric] Let_def
    by (auto split: if_splits sum.splits prod.splits)
  have "nat n \<le> length (content r)"
  proof (cases "n > 0")
    case True
    with rd buf io_ReadFull_short [of r "nat n"] show ?thesis by (cases "nat n \<le> length (content r)") auto
  qed simp
  then have b: "buf = take (nat n) (content r)" "content r' = drop (nat n) (content r)" "length buf = nat n"
    using rd buf n(1) io_ReadFull_enough [of "nat n" r] by (auto split: if_splits)
  note IH = Suc.IH [OF rest(1) Suc.prems(2) n(4,3)]
  have sum: "nat rem = nat n + nat (rem - n)" using n by simp
  have "hashed = take (nat rem) (content r)"
    using IH b rest(3) unfolding sum take_add by simp
  moreover have "length hashed = nat rem" using IH b(3) rest(3) sum by (metis length_append)
  ultimately show ?case using IH rest(2,3) by simp
qed

subsection \<open>Every goroutine finishes\<close>

fun pc_rank :: "task_pc \<Rightarrow> nat" where
  "pc_rank Started = 0"
| "pc_rank (Resolved f) = 1"
| "pc_rank Finished = 2"

lemma pc_rank_2 [simp]: "2 \<le> pc_rank pc \<longleftrightarrow> pc = Finished"
  by (cases pc) simp_all

text \<open>What a step leaves alone: the shape of the state and the other tasks.\<close>
lemma finish_task_sel [simp]:
  "ps_drives (finish_task i res s) = ps_drives s" "ps_folders (finish_task i res s) = ps_folders s"
  "ps_tasks (finish_task i res s) = (ps_tasks s)[i := (ps_tasks s ! i)\<lparr>t_pc := Finished\<rparr>]"
  "ps_results (finish_task i res s) = (case res of Inl e \<Rightarrow> ps_results s | Inr uc \<Rightarrow> (ps_results s)[i := Some uc])"
  "ps_firstErr (finish_task i res s) = (case res of
     Inl e \<Rightarrow> if ps_firstErr s = None then Some e else ps_firstErr s | Inr uc \<Rightarrow> ps_firstErr s)"
  by (auto simp: finish_task_def Let_def split: sum.splits)

text \<open>The three things a step can be, for the proofs about runs.\<close>
lemma task_step_cases:
  obtains (idle) "task_step E ivs key fid i s = s" "length (ps_tasks s) \<le> i \<or> t_pc (ps_tasks s ! i) = Finished"
  | (start) res fr ds where "i < length (ps_tasks s)" "t_pc (ps_tasks s ! i) = Started"
      "start_upload E (ivs i) key fid (t_acc (ps_tasks s ! i)) i (t_plain (ps_tasks s ! i)) (ps_folders s) (ps_drives s)
         = (res, fr, ds)"
      "task_step E ivs key fid i s = (case res of
         Inl e \<Rightarrow> finish_task i (Inl e) (s\<lparr>ps_folders := fr, ps_drives := ds\<rparr>)
       | Inr f \<Rightarrow> s\<lparr>ps_folders := fr, ps_drives := ds, ps_tasks := (ps_tasks s)[i := (ps_tasks s ! i)\<lparr>t_pc := Resolved f\<rparr>]\<rparr>)"
  | (send) f res ds where "i < length (ps_tasks s)" "t_pc (ps_tasks s ! i) = Resolved f"
      "send_upload E (ivs i) key (t_acc (ps_tasks s ! i)) i (t_plain (ps_tasks s ! i)) f (ps_drives s) = (res, ds)"
      "task_step E ivs key fid i s = finish_task i res (s\<lparr>ps_drives := ds\<rparr>)"
proof (cases "i < length (ps_tasks s)")
  case False
  then show thesis using idle by (simp add: task_step_def)
next
  case True
  show thesis
  proof (cases "t_pc (ps_tasks s ! i)")
    case Started
    obtain res fr ds where "start_upload E (ivs i) key fid (t_acc (ps_tasks s ! i)) i (t_plain (ps_tasks s ! i))
        (ps_folders s) (ps_drives s) = (res, fr, ds)" by (metis surj_pair)
    with True Started start show thesis by (simp add: task_step_def split: sum.splits)
  next
    case (Resolved f)
    obtain res ds where "send_upload E (ivs i) key (t_acc (ps_tasks s ! i)) i (t_plain (ps_tasks s ! i)) f (ps_drives s)
        = (res, ds)" by (metis surj_pair)
    with True Resolved send show thesis by (simp add: task_step_def)
  next
    case Finished
    with idle show thesis by (simp add: task_step_def)
  qed
qed

lemma task_step_progress:
  assumes "i < length (ps_tasks s)"
  shows "min 2 (pc_rank (t_pc (ps_tasks s ! i)) + (if i = j then 1 else 0))
    \<le> pc_rank (t_pc (ps_tasks (task_step E ivs key fid j s) ! i))"
  by (rule task_step_cases [of E ivs key fid j s])
    (use assms in \<open>auto simp: nth_list_update split: sum.splits\<close>)

lemma length_task_step [simp]:
  "length (ps_tasks (task_step E ivs key fid j s)) = length (ps_tasks s)"
  "length (ps_results (task_step E ivs key fid j s)) = length (ps_results s)"
  by (rule task_step_cases [of E ivs key fid j s]; auto split: sum.splits)+

lemma fold_step_progress:
  "i < length (ps_tasks s) \<Longrightarrow>
    min 2 (pc_rank (t_pc (ps_tasks s ! i)) + count_list xs i)
      \<le> pc_rank (t_pc (ps_tasks (fold (task_step E ivs key fid) xs s) ! i))"
proof (induction xs arbitrary: s)
  case (Cons j xs)
  from Cons.IH [of "task_step E ivs key fid j s"] Cons.prems task_step_progress [OF Cons.prems, of j E ivs key fid]
  show ?case by (auto split: if_splits)
qed simp

lemma fold_step_length [simp]:
  "length (ps_tasks (fold (task_step E ivs key fid) xs s)) = length (ps_tasks s)"
  "length (ps_results (fold (task_step E ivs key fid) xs s)) = length (ps_results s)"
  by (induction xs arbitrary: s) simp_all

lemma count_list_upt: "i < n \<Longrightarrow> count_list [0..<n] i = 1"
  by (induction n) (auto simp: less_Suc_eq count_list_0_iff)

lemma run_uploads_finishes:
  assumes "i < length (ps_tasks s)"
  shows "t_pc (ps_tasks (run_uploads E ivs key fid sched s) ! i) = Finished"
proof -
  let ?n = "length (ps_tasks s)"
  have "min 2 (pc_rank (t_pc (ps_tasks s ! i)) + count_list (sched @ [0..<?n] @ [0..<?n]) i)
      \<le> pc_rank (t_pc (ps_tasks (run_uploads E ivs key fid sched s) ! i))"
    using fold_step_progress [OF assms] by (simp only: run_uploads_def Let_def)
  moreover have "2 \<le> count_list (sched @ [0..<?n] @ [0..<?n]) i"
    using count_list_upt [OF assms] by simp
  ultimately have "2 \<le> pc_rank (t_pc (ps_tasks (run_uploads E ivs key fid sched s) ! i))" by simp
  then show ?thesis by simp
qed

text \<open>A property kept by every step is kept by a run.\<close>
lemma run_uploads_invariant:
  assumes "I s" "\<And>s i. I s \<Longrightarrow> I (task_step E ivs key fid i s)"
  shows "I (run_uploads E ivs key fid sched s)"
proof -
  have "I (fold (task_step E ivs key fid) xs s)" for xs
    using assms(1) by (induction xs arbitrary: s) (simp_all add: assms(2))
  then show ?thesis by (simp only: run_uploads_def Let_def)
qed

subsection \<open>What the uploads establish\<close>

definition drives_le :: "'d remote_store \<Rightarrow> 'd drives \<Rightarrow> 'd drives \<Rightarrow> bool" where
  "drives_le rs ds ds' \<longleftrightarrow> (\<forall>h x c. rs_holds rs (ds h) x c \<longrightarrow> rs_holds rs (ds' h) x c)"

definition task_handle :: "upload_task \<Rightarrow> nat" where
  "task_handle t = projr (acc_Store (t_acc t))"

text \<open>A result is good when it describes its chunk and the ciphertext it names is on the drive.\<close>
definition uc_good ::
  "'d penv \<Rightarrow> (nat \<Rightarrow> entropy) \<Rightarrow> bytes \<Rightarrow> upload_task \<Rightarrow> 'd drives \<Rightarrow> nat \<Rightarrow> uploadedChunk \<Rightarrow> bool"
where
  "uc_good E ivs key t ds i uc \<longleftrightarrow> uc_index uc = i \<and> uc_accountID uc = acc_ID (t_acc t)
     \<and> uc_plaintextSHA256 uc = hex_encode (sha256_sum (m_prims (e_mcfg E)) (t_plain t))
     \<and> uc_compressionAlgo uc = snd (chunk_payload (m_prims (e_mcfg E)) (t_plain t))
     \<and> uc_plaintextSize uc = int (length (t_plain t))
     \<and> (\<exists>c. seal_chunk (m_prims (e_mcfg E)) (ivs i) key i (t_plain t) = Inr c
           \<and> rs_holds (e_rs E) (ds (task_handle t)) (uc_remoteFileID uc) c)"

lemma drives_le_refl [simp]: "drives_le rs ds ds"
  by (simp add: drives_le_def)

lemma drives_le_trans: "drives_le rs ds ds' \<Longrightarrow> drives_le rs ds' ds'' \<Longrightarrow> drives_le rs ds ds''"
  by (simp add: drives_le_def)

lemma uc_good_mono: "drives_le (e_rs E) ds ds' \<Longrightarrow> uc_good E ivs key t ds i uc \<Longrightarrow> uc_good E ivs key t ds' i uc"
  by (auto simp: uc_good_def drives_le_def)

definition put_inv ::
  "'d penv \<Rightarrow> (nat \<Rightarrow> entropy) \<Rightarrow> bytes \<Rightarrow> upload_task list \<Rightarrow> 'd drives \<Rightarrow> 'd put_state \<Rightarrow> bool"
where
  "put_inv E ivs key ts ds0 s \<longleftrightarrow>
     length (ps_tasks s) = length ts \<and> length ts \<le> length (ps_results s)
   \<and> (\<forall>i < length ts. t_plain (ps_tasks s ! i) = t_plain (ts ! i) \<and> t_acc (ps_tasks s ! i) = t_acc (ts ! i))
   \<and> (\<forall>i uc. i < length (ps_results s) \<longrightarrow> ps_results s ! i = Some uc \<longrightarrow>
        i < length ts \<and> uc_good E ivs key (ts ! i) (ps_drives s) i uc)
   \<and> (\<forall>i < length ts. t_pc (ps_tasks s ! i) = Finished \<longrightarrow> ps_results s ! i \<noteq> None \<or> ps_firstErr s \<noteq> None)
   \<and> drives_le (e_rs E) ds0 (ps_drives s)"

lemma uc_good_task: "t_plain t = t_plain t' \<Longrightarrow> t_acc t = t_acc t' \<Longrightarrow> uc_good E ivs key t = uc_good E ivs key t'"
  by (simp add: uc_good_def task_handle_def fun_eq_iff)

context remote_contract
begin

lemma resolve_le: "resolve rs acc nm fr ds = (res, fr', ds') \<Longrightarrow> drives_le rs ds ds'"
  by (auto simp: resolve_def drives_le_def Let_def dest: folder_keeps split: option.splits prod.splits sum.splits)

lemma start_upload_le:
  "e_rs E = rs \<Longrightarrow> start_upload E iv key fid acc i pt fr ds = (res, fr', ds') \<Longrightarrow> drives_le rs ds ds'"
  using resolve_le [of acc fid fr ds] by (auto simp: start_upload_def split: prod.splits sum.splits)

lemma send_upload_spec:
  assumes "e_rs E = rs" "send_upload E (ivs i) key (t_acc t) i (t_plain t) f ds = (res, ds')"
  shows "drives_le rs ds ds'" and "res = Inr uc \<Longrightarrow> uc_good E ivs key t ds' i uc"
proof -
  let ?P = "m_prims (e_mcfg E)" and ?h = "task_handle t"
  obtain payload algo where pl: "chunk_payload ?P (t_plain t) = (payload, algo)" by (metis surj_pair)
  have "drives_le rs ds ds' \<and> (\<forall>uc. res = Inr uc \<longrightarrow> uc_good E ivs key t ds' i uc)"
  proof (cases "seal_chunk ?P (ivs i) key i (t_plain t)")
    case (Inl e)
    with assms(2) pl show ?thesis by (auto simp: send_upload_def Let_def)
  next
    case (Inr c)
    obtain up d where up: "rs_Upload rs (chunk_name i) f c (ds ?h) = (up, d)" by (metis surj_pair)
    have ds': "ds' = ds(?h := d)"
      using assms pl Inr up by (auto simp: send_upload_def Let_def task_handle_def split: sum.splits prod.splits if_splits)
    then have "drives_le rs ds ds'" using upload_keeps [OF up] by (auto simp: drives_le_def)
    moreover have "uc_good E ivs key t ds' i uc" if res: "res = Inr uc" for uc
    proof -
      obtain rid md where "up = Inr (rid, md)" "uc_remoteFileID uc = rid" "uc_index uc = i"
        "uc_accountID uc = acc_ID (t_acc t)" "uc_plaintextSize uc = int (length (t_plain t))"
        "uc_plaintextSHA256 uc = hex_encode (sha256_sum ?P (t_plain t))" "uc_compressionAlgo uc = algo"
        using assms pl Inr up res
        by (auto simp: send_upload_def Let_def task_handle_def split: sum.splits prod.splits if_splits)
      with upload_holds [OF up [unfolded this(1)]] pl Inr ds' assms(1) show ?thesis by (simp add: uc_good_def)
    qed
    ultimately show ?thesis by blast
  qed
  then show "drives_le rs ds ds'" and "res = Inr uc \<Longrightarrow> uc_good E ivs key t ds' i uc" by blast+
qed

text \<open>The invariant, whichever goroutine moves.\<close>
lemma task_step_inv:
  assumes E: "e_rs E = rs" and inv: "put_inv E ivs key ts ds0 s"
  shows "put_inv E ivs key ts ds0 (task_step E ivs key fid i s)"
proof -
  have keep: "i' < length ts \<and> uc_good E ivs key (ts ! i') ds' i' uc"
    if "drives_le rs (ps_drives s) ds'" "i' < length (ps_results s)" "ps_results s ! i' = Some uc" for ds' i' uc
    using inv that E uc_good_mono [of E "ps_drives s" ds'] unfolding put_inv_def by blast
  have d0: "drives_le rs ds0 ds'" if "drives_le rs (ps_drives s) ds'" for ds'
    using inv that E drives_le_trans by (auto simp: put_inv_def)
  show ?thesis
  proof (rule task_step_cases [of E ivs key fid i s])
    fix res fr ds
    assume a: "i < length (ps_tasks s)" "start_upload E (ivs i) key fid (t_acc (ps_tasks s ! i)) i
        (t_plain (ps_tasks s ! i)) (ps_folders s) (ps_drives s) = (res, fr, ds)"
      "task_step E ivs key fid i s = (case res of
         Inl e \<Rightarrow> finish_task i (Inl e) (s\<lparr>ps_folders := fr, ps_drives := ds\<rparr>)
       | Inr f \<Rightarrow> s\<lparr>ps_folders := fr, ps_drives := ds, ps_tasks := (ps_tasks s)[i := (ps_tasks s ! i)\<lparr>t_pc := Resolved f\<rparr>]\<rparr>)"
    have le: "drives_le rs (ps_drives s) ds" using start_upload_le [OF E a(2)] .
    show ?thesis using inv a(1,3) keep [OF le] d0 [OF le] E
      by (cases res) (auto simp: put_inv_def nth_list_update)
  next
    fix f res ds
    assume a: "i < length (ps_tasks s)" "send_upload E (ivs i) key (t_acc (ps_tasks s ! i)) i
        (t_plain (ps_tasks s ! i)) f (ps_drives s) = (res, ds)"
      "task_step E ivs key fid i s = finish_task i res (s\<lparr>ps_drives := ds\<rparr>)"
    have le: "drives_le rs (ps_drives s) ds" by (rule send_upload_spec(1) [where ivs = ivs and i = i and t = "ps_tasks s ! i", OF E a(2)])
    have new: "uc_good E ivs key (ts ! i) ds i uc" if "res = Inr uc" for uc
    proof -
      have "uc_good E ivs key (ps_tasks s ! i) = uc_good E ivs key (ts ! i)"
        using inv a(1) by (intro uc_good_task) (auto simp: put_inv_def)
      with send_upload_spec(2) [where ivs = ivs and i = i and t = "ps_tasks s ! i", OF E a(2) that] show ?thesis by simp
    qed
    show ?thesis using inv a(1,3) keep [OF le] d0 [OF le] new E
      by (cases res) (auto simp: put_inv_def nth_list_update)
  qed (use inv in simp)
qed

end

lemma plan_loop_length: "plan_loop p ranks cs k idx rem r pl = (ts, hashed, None) \<Longrightarrow> length ts = k"
proof (induction k arbitrary: idx rem r pl ts hashed)
  case (Suc k)
  then show ?case by (auto simp: Let_def split: if_splits sum.splits prod.splits)
qed simp

lemma plan_loop_length_le: "plan_loop p ranks cs k idx rem r pl = (ts, hashed, err) \<Longrightarrow> length ts \<le> k"
proof (induction k arbitrary: idx rem r pl ts hashed err)
  case (Suc k)
  then show ?case by (auto simp: Let_def split: if_splits sum.splits prod.splits)
qed simp

lemma put_inv_initial:
  "\<forall>t \<in> set ts. t_pc t = Started \<Longrightarrow> length ts \<le> N \<Longrightarrow>
    put_inv E ivs key ts ds \<lparr>ps_drives = ds, ps_folders = [], ps_tasks = ts,
      ps_results = replicate N None, ps_firstErr = None\<rparr>"
  by (auto simp: put_inv_def)

context remote_contract
begin

text \<open>All the pieces of a \<open>PutStream\<close> that returned nil.\<close>
lemma PutStream_success:
  assumes "e_rs E = rs" "ids_match p" "PutStream E pe p r n name w = (Inr (), w')"
  obtains pl ts hashed ucs vf row d1 d2 where
    "plan_loop p (pe_ranks pe) (chunkSize p) (nat (num_chunks n (chunkSize p))) 0 n r pl = (ts, hashed, None)"
    and "length ucs = length ts" "drives_le rs (w_drives w) (w_drives w')" "\<forall>t \<in> set ts. usable p (t_acc t)"
    and "\<forall>i < length ts. uc_good E (pe_ivs pe) (NewEncryptionKey (pe_key pe)) (ts ! i) (w_drives w') i (ucs ! i)"
    and "vf_Name vf = name" "vf_Size vf = n" "vf_FileKey vf = NewEncryptionKey (pe_key pe)"
    and "vf_ContentHash vf = hex_encode (sha256_sum (m_prims (e_mcfg E)) hashed)"
    and "m_CreateVirtualFile (pe_now pe) (p_userID p) vf (w_db w) = (Inr row, d1)"
    and "record_chunks (pe_now pe) (p_userID p) (vf_ID row) ucs d1 = (None, d2)"
    and "m_SetVirtualFileStatus (pe_now pe) (p_userID p) (vf_ID row) StatusComplete d2 = (Inr (), w_db w')"
    and "0 \<le> num_chunks n (chunkSize p)"
proof -
  let ?cs = "chunkSize p" and ?key = "NewEncryptionKey (pe_key pe)" and ?fid = "GenerateID (pe_id pe)"
  let ?N = "nat (num_chunks n ?cs)"
  obtain pl where pl: "choose_placer E (w_drives w) (candidates p (pe_order pe)) (num_chunks n ?cs) = Inr pl"
    and N: "0 \<le> num_chunks n ?cs"
    using assms(3) by (auto simp: PutStream_def Let_def split: sum.splits if_splits)
  obtain ts hashed err where plan: "plan_loop p (pe_ranks pe) ?cs ?N 0 n r pl = (ts, hashed, err)"
    by (metis surj_pair)
  let ?s0 = "\<lparr>ps_drives = w_drives w, ps_folders = [], ps_tasks = ts, ps_results = replicate ?N None, ps_firstErr = None\<rparr>"
  define s where "s = run_uploads E (pe_ivs pe) ?key ?fid (pe_sched pe) ?s0"
  define vf where "vf = \<lparr>vf_ID = 0, vf_UserID = [], vf_Name = name, vf_Size = n,
    vf_ContentHash = hex_encode (sha256_sum (m_prims (e_mcfg E)) hashed), vf_ChunkSize = ?cs,
    vf_FileKey = ?key, vf_Replicas = 0, vf_Version = 0, vf_Status = StatusIncomplete, vf_CreatedAt = 0, vf_ModifiedAt = 0\<rparr>"
  have fin: "finish_put E p (pe_now pe) vf err s (w_db w) = (Inr (), w')"
    using assms(3) pl N plan by (simp add: PutStream_def Let_def s_def vf_def)
  have ok: "usable p (t_acc t) \<and> t_pc t = Started" if "t \<in> set ts" for t
    by (rule plan_loop_accounts [OF choose_placer_ok [OF assms(2) pl] plan that])
  have inv: "put_inv E (pe_ivs pe) ?key ts (w_drives w) s" unfolding s_def
    by (rule run_uploads_invariant, rule put_inv_initial)
      (use ok plan_loop_length_le [OF plan] task_step_inv [OF assms(1)] in auto)
  let ?ucs = "List.map_filter id (ps_results s)"
  have err: "err = None" "ps_firstErr s = None" and w': "w_drives w' = ps_drives s"
    using fin by (auto simp: finish_put_def Let_def split: option.splits sum.splits prod.splits)
  then obtain row d1 d2 where db: "m_CreateVirtualFile (pe_now pe) (p_userID p) vf (w_db w) = (Inr row, d1)"
    "record_chunks (pe_now pe) (p_userID p) (vf_ID row) ?ucs d1 = (None, d2)"
    "m_SetVirtualFileStatus (pe_now pe) (p_userID p) (vf_ID row) StatusComplete d2 = (Inr (), w_db w')"
    using fin by (auto simp: finish_put_def Let_def split: option.splits sum.splits prod.splits)
  have len: "length ts = ?N" using plan_loop_length plan err(1) by blast
  have lenr: "length (ps_results s) = ?N" "length (ps_tasks s) = ?N"
    using len by (simp_all add: s_def run_uploads_def Let_def)
  have some: "ps_results s ! i \<noteq> None" if "i < ?N" for i
    using inv err(2) that len run_uploads_finishes [of i ?s0 E "pe_ivs pe" ?key ?fid "pe_sched pe"]
    by (auto simp: put_inv_def s_def)
  then have "\<forall>x \<in> set (ps_results s). id x \<noteq> None" using lenr(1) by (auto simp: in_set_conv_nth)
  from map_filter_conv_the [OF this] have ucs: "?ucs = map the (ps_results s)" by (simp add: id_def)
  have "uc_good E (pe_ivs pe) ?key (ts ! i) (w_drives w') i (?ucs ! i)" if "i < length ts" for i
    using inv that len lenr some [of i] unfolding ucs w' by (auto simp: put_inv_def)
  moreover have "drives_le rs (w_drives w) (w_drives w')" using inv assms(1) w' by (simp add: put_inv_def)
  moreover have "length ?ucs = length ts" using ucs len lenr by simp
  ultimately show thesis
    using that [of pl ts hashed ?ucs vf row d1 d2] plan err(1) ok db N by (simp add: vf_def)
qed

end

subsection \<open>What is recorded\<close>

definition stored_row :: "int \<Rightarrow> string \<Rightarrow> int \<Rightarrow> uploadedChunk \<Rightarrow> chunk \<Rightarrow> bool" where
  "stored_row now u vfid uc c \<longleftrightarrow> (\<exists>k. c = (chunk_row vfid uc)\<lparr>c_UserID := u, c_UploadedAt := now, c_ID := k\<rparr>)"

lemma stored_rowD:
  assumes "stored_row now u vfid uc c"
  shows "c_UserID c = u" "c_VirtualFileID c = vfid" "c_Index c = int (uc_index uc)"
    "c_AccountID c = Some (uc_accountID uc)" "c_RemoteFileID c = uc_remoteFileID uc"
    "c_PlaintextSHA256 c = uc_plaintextSHA256 uc" "c_CompressionAlgo c = uc_compressionAlgo uc"
  using assms by (auto simp: stored_row_def chunk_row_def)

lemma m_AddChunk_success:
  assumes "m_AddChunk now u (chunk_row vfid uc) d = (Inr x, d')" "db_faults d = []" "db_ok d"
  obtains c where "stored_row now u vfid uc c" "db_chunks d' = db_chunks d @ [c]" "db_ok d'"
    "db_vfiles d' = db_vfiles d" "db_accounts d' = db_accounts d" "db_faults d' = []"
proof -
  let ?r = "(chunk_row vfid uc)\<lparr>c_UserID := u, c_UploadedAt := now\<rparr>"
  have i: "sql_insert_chunk ?r d = (Inr (), d')" using assms(1,2) by (simp add: m_AddChunk_def)
  have f: "fst (sql_insert_chunk ?r d) = Inr ()" using i by simp
  note acc = sql_insert_chunk_accepted(5) [OF f]
  have d': "d' = d\<lparr>db_chunkseq := db_chunkseq d + 1, db_chunks := db_chunks d @ [?r\<lparr>c_ID := db_chunkseq d + 1\<rparr>]\<rparr>"
    using acc i by simp
  have "db_ok d'" using sql_insert_chunk_ok [OF assms(3), of ?r] i by simp
  moreover have "stored_row now u vfid uc (?r\<lparr>c_ID := db_chunkseq d + 1\<rparr>)"
    unfolding stored_row_def by blast
  ultimately show thesis using d' assms(2) by (intro that [of "?r\<lparr>c_ID := db_chunkseq d + 1\<rparr>"]) simp_all
qed

lemma record_chunks_success:
  assumes "record_chunks now u vfid ucs d = (None, d')" "db_faults d = []" "db_ok d"
  shows "\<exists>rows. list_all2 (stored_row now u vfid) ucs rows \<and> db_chunks d' = db_chunks d @ rows \<and> db_ok d'
    \<and> db_vfiles d' = db_vfiles d \<and> db_accounts d' = db_accounts d \<and> db_faults d' = []"
  using assms
proof (induction ucs arbitrary: d)
  case (Cons uc ucs)
  obtain x d1 where a: "m_AddChunk now u (chunk_row vfid uc) d = (Inr x, d1)"
    and rest: "record_chunks now u vfid ucs d1 = (None, d')"
    using Cons.prems(1) by (auto split: prod.splits sum.splits)
  obtain c where c: "stored_row now u vfid uc c" "db_chunks d1 = db_chunks d @ [c]" "db_ok d1"
    "db_vfiles d1 = db_vfiles d" "db_accounts d1 = db_accounts d" "db_faults d1 = []"
    by (rule m_AddChunk_success [OF a Cons.prems(2,3)])
  from Cons.IH [OF rest c(6,3)] obtain rows where "list_all2 (stored_row now u vfid) ucs rows"
    "db_chunks d' = db_chunks d1 @ rows" "db_ok d'" "db_vfiles d' = db_vfiles d1"
    "db_accounts d' = db_accounts d1" "db_faults d' = []" by blast
  with c show ?case by (intro exI [of _ "c # rows"]) simp
qed simp

subsection \<open>When a put succeeds\<close>

text \<open>Drives in a state of \<open>G\<close> take every folder and file, and stay in \<open>G\<close>.\<close>
definition accepting :: "'d remote_store \<Rightarrow> ('d \<Rightarrow> bool) \<Rightarrow> bool" where
  "accepting rs G \<longleftrightarrow>
     (\<forall>nm d. G d \<longrightarrow> (\<exists>f d'. rs_EnsureFolder rs nm d = (Inr f, d') \<and> G d'))
   \<and> (\<forall>nm f b d. G d \<longrightarrow> (\<exists>x d'. rs_Upload rs nm f b d = (Inr x, d') \<and> G d'))"

lemma seal_chunk_total: "aes_key_ok key \<Longrightarrow> \<exists>c. seal_chunk P iv key i b = Inr c"
  using aes_ctr.enc_total [of key P iv "fst (chunk_payload P b)"] by (auto simp: seal_chunk_def)

lemma resolve_accepting:
  assumes "accepting rs G" "\<forall>h. G (ds h)"
  shows "\<exists>f fr' ds'. resolve rs acc nm fr ds = (Inr f, fr', ds') \<and> (\<forall>h. G (ds' h))"
proof (cases "map_of fr (acc_ID acc)")
  case None
  obtain f d where "rs_EnsureFolder rs nm (ds (projr (acc_Store acc))) = (Inr f, d)" "G d"
    using assms unfolding accepting_def by blast
  with None assms(2) show ?thesis by (simp add: resolve_def Let_def)
qed (use assms in \<open>simp add: resolve_def\<close>)

context remote_contract
begin

lemma send_accepting:
  assumes "e_rs E = rs" "md5 = md5_sum (m_prims (e_mcfg E))" "accepting rs G" "\<forall>h. G (ds h)" "aes_key_ok key"
  shows "\<exists>uc ds'. send_upload E iv key acc i pt f ds = (Inr uc, ds') \<and> (\<forall>h. G (ds' h))"
proof -
  let ?P = "m_prims (e_mcfg E)" and ?h = "projr (acc_Store acc)"
  obtain payload algo where pl: "chunk_payload ?P pt = (payload, algo)" by (metis surj_pair)
  obtain c where c: "seal_chunk ?P iv key i pt = Inr c" using seal_chunk_total [OF assms(5)] by blast
  obtain rid md d where up: "rs_Upload rs (chunk_name i) f c (ds ?h) = (Inr (rid, md), d)" "G d"
    using assms(3,4) unfolding accepting_def by (metis surj_pair)
  with upload_md5 [OF up(1)] c pl assms show ?thesis by (auto simp: send_upload_def Let_def)
qed

lemma task_step_accepting:
  assumes "e_rs E = rs" "md5 = md5_sum (m_prims (e_mcfg E))" "accepting rs G" "aes_key_ok key"
    and "ps_firstErr s = None \<and> (\<forall>h. G (ps_drives s h))"
  shows "ps_firstErr (task_step E ivs key fid i s) = None \<and> (\<forall>h. G (ps_drives (task_step E ivs key fid i s) h))"
proof (rule task_step_cases [of E ivs key fid i s])
  fix res fr ds
  let ?t = "ps_tasks s ! i"
  assume a: "start_upload E (ivs i) key fid (t_acc ?t) i (t_plain ?t) (ps_folders s) (ps_drives s) = (res, fr, ds)"
    "task_step E ivs key fid i s = (case res of
         Inl e \<Rightarrow> finish_task i (Inl e) (s\<lparr>ps_folders := fr, ps_drives := ds\<rparr>)
       | Inr f \<Rightarrow> s\<lparr>ps_folders := fr, ps_drives := ds, ps_tasks := (ps_tasks s)[i := ?t\<lparr>t_pc := Resolved f\<rparr>]\<rparr>)"
  obtain c where "seal_chunk (m_prims (e_mcfg E)) (ivs i) key i (t_plain ?t) = Inr c"
    using seal_chunk_total [OF assms(4)] by blast
  with a(1) resolve_accepting [OF assms(3), of "ps_drives s" "t_acc ?t" fid "ps_folders s"] assms(1,5)
  have "\<exists>f. res = Inr f" "\<forall>h. G (ds h)" by (auto simp: start_upload_def)
  with a(2) assms(5) show ?thesis by auto
next
  fix f res ds
  assume a: "send_upload E (ivs i) key (t_acc (ps_tasks s ! i)) i (t_plain (ps_tasks s ! i)) f (ps_drives s) = (res, ds)"
    "task_step E ivs key fid i s = finish_task i res (s\<lparr>ps_drives := ds\<rparr>)"
  have "\<exists>uc. res = Inr uc" "\<forall>h. G (ds h)"
    using send_accepting [OF assms(1-3) _ assms(4), of "ps_drives s"] a(1) assms(5) by (metis Pair_inject)+
  with a(2) assms(5) show ?thesis by auto
qed (use assms(5) in simp)

end

text \<open>A tracker that can place the rest of a file: some account takes anything, or takes it all.\<close>
definition has_room :: "int \<Rightarrow> placementTracker \<Rightarrow> bool" where
  "has_room rem t \<longleftrightarrow> pt_unlimited t \<noteq> [] \<or> [] \<notin> fst ` set (pt_available t)
     \<and> (\<exists>i b. map_of (pt_available t) i = Some b \<and> rem \<le> b \<and> b \<le> max_i64)"

lemma reserve_has_room:
  assumes "has_room rem t" "0 \<le> n" "n \<le> rem"
  shows "\<exists>i t'. reserve rank n t = (Inr i, t') \<and> has_room (rem - n) t'"
proof (cases "pt_unlimited t = []")
  case False
  then obtain i js where "map_iter rank (map fst (pt_unlimited t)) = i # js"
    by (metis list.exhaust map_is_Nil_conv map_iter_Nil_iff)
  with False show ?thesis by (simp add: reserve_def has_room_def)
next
  case True
  then obtain j b where j: "map_of (pt_available t) j = Some b" "rem \<le> b" "b \<le> max_i64"
    and ne: "[] \<notin> fst ` set (pt_available t)" using assms(1) by (auto simp: has_room_def)
  have jin: "j \<in> fst ` set (pt_available t)" using j(1) by (metis map_of_eq_None_iff option.distinct(1))
  obtain res t' where r: "reserve rank n t = (res, t')" by (metis surj_pair)
  note spec = reserve_best [OF r True ne]
  obtain i where i: "res = Inr i"
    using spec jin j assms(2,3) by (cases res) auto
  then have t': "t' = t\<lparr>pt_available := AList.update i (i64 (the (map_of (pt_available t) i) - n)) (pt_available t)\<rparr>"
    and iin: "i \<in> fst ` set (pt_available t)" using spec by auto
  have keys: "[] \<notin> fst ` set (pt_available t')" using ne iin by (auto simp: t' set_keys_update)
  have "\<exists>b'. map_of (pt_available t') j = Some b' \<and> rem - n \<le> b' \<and> b' \<le> max_i64"
  proof (cases "j = i")
    case True
    have "i64 (b - n) = b - n"
      using j assms(2,3) by (intro i64_id) (auto simp: in_i64_def max_i64_def)
    with True j assms(2) show ?thesis by (simp add: t' update_conv')
  next
    case False
    with j assms(2) show ?thesis by (simp add: t' update_conv')
  qed
  with keys r i show ?thesis by (auto simp: has_room_def)
qed

definition placer_room :: "int \<Rightarrow> placer \<Rightarrow> bool" where
  "placer_room rem pl = (case pl of SingleAccount a \<Rightarrow> True | Tracked t \<Rightarrow> has_room rem t)"

lemma place_chunk_succeeds:
  assumes "placer_ok p pl" "placer_room rem pl" "0 \<le> n" "n \<le> rem"
  shows "\<exists>a pl'. place_chunk p rank n pl = (Inr a, pl') \<and> placer_ok p pl' \<and> placer_room (rem - n) pl'"
proof (cases pl)
  case (SingleAccount a)
  with assms show ?thesis by (simp add: place_chunk_def placer_room_def)
next
  case (Tracked t)
  then obtain i t' where r: "reserve rank n t = (Inr i, t')" "has_room (rem - n) t'"
    using reserve_has_room [of rem t n rank] assms(2-4) by (auto simp: placer_room_def)
  obtain a where a: "map_of (p_accounts p) i = Some a"
    using tracked.place_in [OF r(1)] assms(1) Tracked by (auto simp: placer_ok_def)
  have "place_chunk p rank n pl = (Inr a, Tracked t')" using Tracked r a by (simp add: place_chunk_def)
  with place_chunk_ok(1) [OF assms(1) this] r(2) show ?thesis by (simp add: placer_room_def)
qed

lemma plan_loop_succeeds:
  assumes "placer_ok p pl" "placer_room rem pl" "0 < cs" "0 \<le> rem" "nat rem \<le> length (content r)"
  shows "\<exists>ts hashed. plan_loop p ranks cs k idx rem r pl = (ts, hashed, None)"
  using assms
proof (induction k arbitrary: idx rem r pl)
  case (Suc k)
  define n where "n = (if rem < cs then rem else cs)"
  have n: "0 \<le> n" "n \<le> rem" "0 \<le> rem - n" using Suc.prems(3,4) by (auto simp: n_def)
  have nl: "nat n \<le> length (content r)" using n Suc.prems(5) by linarith
  obtain buf r' where rd: "(if n > 0 then io_ReadFull (nat n) r else (Inr [], r)) = (Inr buf, r')"
    and r': "content r' = drop (nat n) (content r)"
    using io_ReadFull_enough [OF nl] n(1) by (cases "n > 0") (auto, metis prod.collapse)
  obtain a pl' where pl: "place_chunk p (ranks idx) n pl = (Inr a, pl')" "placer_ok p pl'" "placer_room (rem - n) pl'"
    using place_chunk_succeeds [OF Suc.prems(1,2) n(1,2)] by blast
  have "nat (rem - n) \<le> length (content r')" using Suc.prems(5) n r' by simp
  from Suc.IH [OF pl(2,3) Suc.prems(3) n(3) this] obtain ts h where
    "plan_loop p ranks cs k (Suc idx) (rem - n) r' pl' = (ts, h, None)" by blast
  with rd pl(1) n(1) show ?case unfolding plan_loop.simps n_def [symmetric] Let_def by simp
qed simp

lemma Available_le: "Available q \<le> max_i64"
proof -
  have "i64 (Limit q - Usage q) \<le> max_i64" using i64_range by (simp add: in_i64_def)
  then show ?thesis by (simp add: Available_def max_i64_def)
qed

lemma track_accounts_keeps:
  assumes "live_quota rs ds a = Some q" "\<forall>b \<in> set as. acc_ID b = acc_ID a \<longrightarrow> b = a"
    and "if Unlimited q then pt_unlimited t \<noteq> [] else map_of (pt_available t) (acc_ID a) = Some (Available q)"
  shows "let t' = snd (track_accounts rs ds as h t) in
    if Unlimited q then pt_unlimited t' \<noteq> [] else map_of (pt_available t') (acc_ID a) = Some (Available q)"
  using assms(2,3)
proof (induction as arbitrary: h t)
  case (Cons b bs)
  have upd: "AList.update k v m \<noteq> []" for k :: string and v :: bool and m by (cases m) auto
  show ?case
  proof (cases "live_quota rs ds b")
    case None
    with Cons show ?thesis by simp
  next
    case (Some qb)
    let ?t = "if Unlimited qb then t\<lparr>pt_unlimited := AList.update (acc_ID b) True (pt_unlimited t)\<rparr>
      else t\<lparr>pt_available := AList.update (acc_ID b) (Available qb) (pt_available t)\<rparr>"
    have "acc_ID b = acc_ID a \<Longrightarrow> qb = q" using Cons.prems(1) Some assms(1) by auto
    then have "if Unlimited q then pt_unlimited ?t \<noteq> [] else map_of (pt_available ?t) (acc_ID a) = Some (Available q)"
      using Cons.prems(2) upd by (auto simp: update_conv' split: if_splits)
    from Cons.IH [OF _ this, of "Suc h"] Cons.prems(1) Some show ?thesis by simp
  qed
qed simp

lemma track_accounts_room:
  assumes "a \<in> set as" "live_quota rs ds a = Some q" "\<forall>b \<in> set as. acc_ID b = acc_ID a \<longrightarrow> b = a"
  shows "let t' = snd (track_accounts rs ds as h t) in
    if Unlimited q then pt_unlimited t' \<noteq> [] else map_of (pt_available t') (acc_ID a) = Some (Available q)"
  using assms(1,3)
proof (induction as arbitrary: h t)
  case (Cons b bs)
  have upd: "AList.update k v m \<noteq> []" for k :: string and v :: bool and m by (cases m) auto
  show ?case
  proof (cases "b = a")
    case True
    let ?t = "if Unlimited q then t\<lparr>pt_unlimited := AList.update (acc_ID a) True (pt_unlimited t)\<rparr>
      else t\<lparr>pt_available := AList.update (acc_ID a) (Available q) (pt_available t)\<rparr>"
    have "if Unlimited q then pt_unlimited ?t \<noteq> [] else map_of (pt_available ?t) (acc_ID a) = Some (Available q)"
      using upd by (simp add: update_conv')
    from track_accounts_keeps [OF assms(2) _ this, of bs "Suc h"] Cons.prems(2) True assms(2) show ?thesis by simp
  next
    case False
    then have "a \<in> set bs" "\<forall>b \<in> set bs. acc_ID b = acc_ID a \<longrightarrow> b = a" using Cons.prems by auto
    from Cons.IH [OF this] show ?thesis by (cases "live_quota rs ds b") (simp_all only: track_accounts.simps option.case)
  qed
qed simp

text \<open>Where there is an account for the whole file, a placer is found and has room for it.\<close>
lemma choose_placer_room:
  assumes "ids_match p" "[] \<notin> fst ` set (p_accounts p)"
    and a: "a \<in> set (candidates p rank)" "live_quota (e_rs E) ds a = Some q" "Unlimited q \<or> n \<le> Available q"
  shows "\<exists>pl. choose_placer E ds (candidates p rank) N = Inr pl \<and> placer_room n pl"
proof (cases "N = 1")
  case True
  have "\<exists>b. pickAccount (e_rs E) ds (candidates p rank) = Inr b"
    using pick_account_spec [where rs = "e_rs E" and ds = ds and accounts = "candidates p rank"] a
    by (cases "pickAccount (e_rs E) ds (candidates p rank)") auto
  with True show ?thesis by (auto simp: choose_placer_def placer_room_def)
next
  case False
  have uniq: "\<forall>b \<in> set (candidates p rank). acc_ID b = acc_ID a \<longrightarrow> b = a"
    using assms(1) candidates_in a(1) unfolding ids_match_def by (metis option.inject)
  obtain t where t: "newPlacementTracker (e_rs E) ds (candidates p rank) = Inr t"
    using newPlacementTracker_error [of "e_rs E" ds "candidates p rank"] a(1,2)
    by (metis obj_sumE option.distinct(1))
  then have snd_t: "t = snd (track_accounts (e_rs E) ds (candidates p rank) 0 \<lparr>pt_available = [], pt_unlimited = []\<rparr>)"
    by (auto simp: newPlacementTracker_def split: prod.splits if_splits)
  have "[] \<notin> tracker_ids t"
    unfolding newPlacementTracker_spec [OF t] using assms(1,2) candidates_in [of _ p rank]
    by (auto simp: ids_match_def) (metis map_of_eq_None_iff option.distinct(1))
  then have "has_room n t"
    using track_accounts_room [OF a(1,2) uniq, of 0 "\<lparr>pt_available = [], pt_unlimited = []\<rparr>"] a(3) Available_le [of q]
    unfolding snd_t [symmetric] by (auto simp: has_room_def tracker_ids_def Let_def split: if_splits)
  with False t show ?thesis by (simp add: choose_placer_def placer_room_def)
qed

text \<open>Chunks of one's own new file, on registered accounts and with distinct indices, are all recorded.\<close>
lemma record_chunks_total:
  assumes "db_faults d = []" "u \<in> u_ID ` set (db_users d)" "vfid \<in> vf_ID ` set (db_vfiles d)"
    "\<forall>uc \<in> set ucs. uc_accountID uc \<in> a_ID ` set (db_accounts d)" "distinct (map uc_index ucs)"
    "\<forall>uc \<in> set ucs. (vfid, int (uc_index uc)) \<notin> (\<lambda>c. (c_VirtualFileID c, c_Index c)) ` set (db_chunks d)"
  shows "\<exists>d'. record_chunks now u vfid ucs d = (None, d')"
  using assms
proof (induction ucs arbitrary: d)
  case (Cons uc ucs)
  let ?r = "(chunk_row vfid uc)\<lparr>c_UserID := u, c_UploadedAt := now\<rparr>"
  have fresh: "\<not> list_ex (\<lambda>x. c_VirtualFileID x = vfid \<and> c_Index x = int (uc_index uc)) (db_chunks d)"
    using Cons.prems(6) by (force simp: list_ex_iff)
  let ?d = "d\<lparr>db_chunkseq := db_chunkseq d + 1, db_chunks := db_chunks d @ [?r\<lparr>c_ID := db_chunkseq d + 1\<rparr>]\<rparr>"
  have "m_AddChunk now u (chunk_row vfid uc) d = (Inr (), ?d)"
    using Cons.prems(1-4) fresh unfolding m_AddChunk_def sql_insert_chunk_def Let_def
    by (simp add: chunk_row_def list_ex_image)
  moreover have "\<exists>d'. record_chunks now u vfid ucs ?d = (None, d')"
  proof (rule Cons.IH)
    show "\<forall>c \<in> set ucs. (vfid, int (uc_index c)) \<notin> (\<lambda>c. (c_VirtualFileID c, c_Index c)) ` set (db_chunks ?d)"
      using Cons.prems(5,6) by (auto simp: chunk_row_def) (metis imageI)
  qed (use Cons.prems in \<open>simp_all add: chunk_row_def\<close>)
  ultimately show ?case by simp
qed simp

lemma m_CreateVirtualFile_ok: "db_ok d \<Longrightarrow> db_ok (snd (m_CreateVirtualFile now u vf d))"
  unfolding m_CreateVirtualFile_def Let_def snd_result_case
  by (rule query_preserves [where I = db_ok]) (simp_all add: sql_insert_vfile_ok)

text \<open>The database takes a new file with chunks on accounts of its user.\<close>
lemma finish_put_total:
  assumes db: "db_ok d" "db_faults d = []" "p_userID p \<noteq> []" "p_userID p \<in> u_ID ` set (db_users d)" and sync: "pool_sync p d"
    and new: "(p_userID p, vf_Name vf) \<notin> (\<lambda>v. (vf_UserID v, vf_Name v)) ` set (db_vfiles d)"
    and s: "ps_results s = map Some ucs" "ps_firstErr s = None"
    and ucs: "\<forall>i < length ucs. uc_index (ucs ! i) = i \<and> map_of (p_accounts p) (uc_accountID (ucs ! i)) \<noteq> None"
  shows "\<exists>w'. finish_put E p now vf None s d = (Inr (), w')"
proof -
  let ?u = "p_userID p"
  obtain row d1 where cr: "m_CreateVirtualFile now ?u vf d = (Inr row, d1)"
    and d1: "db_vfiles d1 = db_vfiles d @ [row]" "db_users d1 = db_users d" "db_faults d1 = []"
      "db_accounts d1 = db_accounts d" "db_chunks d1 = db_chunks d" "vf_ID row = db_vfseq d + 1"
  proof -
    have nn: "\<not> list_ex (\<lambda>x. vf_UserID x = ?u \<and> vf_Name x = vf_Name vf) (db_vfiles d)"
      using new by (auto simp: list_ex_iff image_iff)
    obtain v where v: "vf_UserID v = ?u" "vf_Name v = vf_Name vf" and c: "m_CreateVirtualFile now ?u vf d =
        (case query (sql_insert_vfile v) d of
           (Inl e, d') \<Rightarrow> (Inl (if IsUniqueViolation e then ErrNameExists else e), d') | (Inr row, d') \<Rightarrow> (Inr row, d'))"
      by (rule that [OF _ _ m_CreateVirtualFile_def [unfolded Let_def]]) simp_all
    then show thesis using nn db(2,4) that by (auto simp: sql_insert_vfile_def Let_def list_ex_image)
  qed
  have "uc_accountID uc \<in> a_ID ` set (db_accounts d1)" if "uc \<in> set ucs" for uc
  proof -
    have "map_of (p_accounts p) (uc_accountID uc) \<noteq> None" using that ucs by (metis in_set_conv_nth)
    with sync have "uc_accountID uc \<in> a_ID ` {x \<in> set (db_accounts d). a_UserID x = ?u}" unfolding pool_sync_def by blast
    then show ?thesis unfolding d1(4) by blast
  qed
  moreover have "distinct (map uc_index ucs)" using ucs by (simp add: distinct_conv_nth)
  moreover have "(vf_ID row, k) \<notin> (\<lambda>c. (c_VirtualFileID c, c_Index c)) ` set (db_chunks d1)" for k
    using db_okD(9,10) [OF db(1)] d1(5,6) by fastforce
  ultimately obtain d2 where rec: "record_chunks now ?u (vf_ID row) ucs d1 = (None, d2)"
    using record_chunks_total [OF d1(3), of ?u "vf_ID row" ucs now] db(4) d1(1,2) by auto
  have "db_ok d1" using m_CreateVirtualFile_ok [OF db(1), of now ?u vf] cr by simp
  then have "db_faults d2 = []" using record_chunks_success [OF rec d1(3)] by blast
  then have "\<exists>d3. m_SetVirtualFileStatus now ?u (vf_ID row) StatusComplete d2 = (Inr (), d3)"
    using db(3) by (simp add: m_SetVirtualFileStatus_def scoped_def sql_update_vfiles_def)
  moreover have "List.map_filter id (map Some ucs) = ucs" by (induction ucs) auto
  ultimately show ?thesis using s cr rec by (auto simp: finish_put_def Let_def)
qed

context remote_contract
begin

text \<open>The uploads of a plan on accepting drives: no error, and a good result for every chunk.\<close>
lemma run_uploads_accepting:
  assumes "e_rs E = rs" "md5 = md5_sum (m_prims (e_mcfg E))" "accepting rs G" "\<forall>h. G (ds h)" "aes_key_ok key"
    and "\<forall>t \<in> set ts. t_pc t = Started"
    and s_def: "s = run_uploads E ivs key fid sched \<lparr>ps_drives = ds, ps_folders = [], ps_tasks = ts,
      ps_results = replicate (length ts) None, ps_firstErr = None\<rparr>"
  shows "ps_firstErr s = None" and "\<exists>ucs. ps_results s = map Some ucs \<and> length ucs = length ts
    \<and> (\<forall>i < length ts. uc_good E ivs key (ts ! i) (ps_drives s) i (ucs ! i))"
proof -
  let ?s0 = "\<lparr>ps_drives = ds, ps_folders = [], ps_tasks = ts, ps_results = replicate (length ts) None, ps_firstErr = None\<rparr>"
  show e: "ps_firstErr s = None"
    using run_uploads_invariant [of "\<lambda>s. ps_firstErr s = None \<and> (\<forall>h. G (ps_drives s h))" ?s0 E ivs key fid sched]
      task_step_accepting [OF assms(1-3,5)] assms(4) by (simp add: s_def)
  have inv: "put_inv E ivs key ts ds s" unfolding s_def
    by (rule run_uploads_invariant, rule put_inv_initial) (use assms(6) task_step_inv [OF assms(1)] in auto)
  have len: "length (ps_results s) = length ts" by (simp add: s_def run_uploads_def Let_def)
  have some: "ps_results s ! i = Some (the (ps_results s ! i))" if "i < length ts" for i
    using inv e that run_uploads_finishes [of i ?s0 E ivs key fid sched] by (auto simp: put_inv_def s_def)
  then have "ps_results s = map Some (map the (ps_results s))"
    by (intro nth_equalityI) (simp_all add: len)
  moreover have "uc_good E ivs key (ts ! i) (ps_drives s) i (map the (ps_results s) ! i)" if "i < length ts" for i
    using inv that some [OF that] len by (auto simp: put_inv_def)
  ultimately show "\<exists>ucs. ps_results s = map Some ucs \<and> length ucs = length ts
    \<and> (\<forall>i < length ts. uc_good E ivs key (ts ! i) (ps_drives s) i (ucs ! i))"
    using len by (metis length_map)
qed

lemma PutStream_total:
  assumes "e_rs E = rs" "md5 = md5_sum (m_prims (e_mcfg E))" "accepting rs G" "\<forall>h. G (w_drives w h)"
    and db: "db_ok (w_db w)" "db_faults (w_db w) = []" "p_userID p \<noteq> []" "p_userID p \<in> u_ID ` set (db_users (w_db w))"
    and sync: "pool_sync p (w_db w)" "[] \<notin> fst ` set (p_accounts p)"
    and n: "0 \<le> n" "0 \<le> num_chunks n (chunkSize p)" "nat n \<le> length (content r)"
    and a: "a \<in> set (candidates p (pe_order pe))" "live_quota rs (w_drives w) a = Some q" "Unlimited q \<or> n \<le> Available q"
    and new: "(p_userID p, name) \<notin> (\<lambda>v. (vf_UserID v, vf_Name v)) ` set (db_vfiles (w_db w))"
  shows "\<exists>w'. PutStream E pe p r n name w = (Inr (), w')"
proof -
  let ?cs = "chunkSize p" and ?key = "NewEncryptionKey (pe_key pe)" and ?u = "p_userID p"
  let ?N = "nat (num_chunks n ?cs)"
  have cs: "0 < ?cs" by (simp add: chunkSize_def DefaultChunkSize_def)
  note ids = pool_sync_ids [OF sync(1)]
  obtain pl where pl: "choose_placer E (w_drives w) (candidates p (pe_order pe)) (num_chunks n ?cs) = Inr pl" "placer_room n pl"
    using choose_placer_room [OF ids sync(2) a(1) _ a(3)] a(2) assms(1) by blast
  have plok: "placer_ok p pl" by (rule choose_placer_ok [OF ids pl(1)])
  obtain ts hashed where plan: "plan_loop p (pe_ranks pe) ?cs ?N 0 n r pl = (ts, hashed, None)"
    using plan_loop_succeeds [OF plok pl(2) cs n(1,3)] by blast
  have len: "length ts = ?N" by (rule plan_loop_length [OF plan])
  have acc: "usable p (t_acc t) \<and> t_pc t = Started" if "t \<in> set ts" for t
    by (rule plan_loop_accounts [OF plok plan that])
  define s where "s = run_uploads E (pe_ivs pe) ?key (GenerateID (pe_id pe)) (pe_sched pe)
    \<lparr>ps_drives = w_drives w, ps_folders = [], ps_tasks = ts, ps_results = replicate ?N None, ps_firstErr = None\<rparr>"
  obtain ucs where ucs: "ps_results s = map Some ucs" "length ucs = length ts"
      "\<forall>i < length ts. uc_good E (pe_ivs pe) ?key (ts ! i) (ps_drives s) i (ucs ! i)" and e: "ps_firstErr s = None"
    using run_uploads_accepting [OF assms(1-4) aes_key_ok_new _ s_def [folded len]] acc by blast
  define vf where "vf = \<lparr>vf_ID = 0, vf_UserID = [], vf_Name = name, vf_Size = n,
    vf_ContentHash = hex_encode (sha256_sum (m_prims (e_mcfg E)) hashed), vf_ChunkSize = ?cs,
    vf_FileKey = ?key, vf_Replicas = 0, vf_Version = 0, vf_Status = StatusIncomplete, vf_CreatedAt = 0, vf_ModifiedAt = 0\<rparr>"
  have "uc_index (ucs ! i) = i \<and> map_of (p_accounts p) (uc_accountID (ucs ! i)) \<noteq> None" if "i < length ucs" for i
    using ucs(2,3) that acc [of "ts ! i"] by (simp add: uc_good_def usable_def)
  then have "\<exists>w'. finish_put E p (pe_now pe) vf None s (w_db w) = (Inr (), w')"
    by (intro finish_put_total [OF db sync(1) _ ucs(1) e]) (use new in \<open>simp_all add: vf_def\<close>)
  then show ?thesis using pl(1) n(2) plan by (simp add: PutStream_def Let_def s_def vf_def)
qed

end

subsection \<open>Cleaning up\<close>

text \<open>
  What the drives hold beyond the start is exactly the recorded results, which name different
  files: what a clean-up has to delete, and no more.
\<close>
definition has_result :: "'d put_state \<Rightarrow> nat \<Rightarrow> uploadedChunk \<Rightarrow> bool" where
  "has_result s i uc \<longleftrightarrow> i < length (ps_results s) \<and> ps_results s ! i = Some uc"

definition put_exact :: "'d penv \<Rightarrow> upload_task list \<Rightarrow> 'd drives \<Rightarrow> 'd put_state \<Rightarrow> bool" where
  "put_exact E ts ds0 s \<longleftrightarrow>
     (\<forall>i j uc uc'. has_result s i uc \<longrightarrow> has_result s j uc' \<longrightarrow> i \<noteq> j \<longrightarrow>
        task_handle (ts ! i) = task_handle (ts ! j) \<longrightarrow> uc_remoteFileID uc \<noteq> uc_remoteFileID uc')
   \<and> (\<forall>i uc c. has_result s i uc \<longrightarrow> \<not> rs_holds (e_rs E) (ds0 (task_handle (ts ! i))) (uc_remoteFileID uc) c)
   \<and> (\<forall>h x c. rs_holds (e_rs E) (ps_drives s h) x c \<longrightarrow> rs_holds (e_rs E) (ds0 h) x c
        \<or> (\<exists>i uc. has_result s i uc \<and> task_handle (ts ! i) = h \<and> uc_remoteFileID uc = x))"

lemma put_exact_drives:
  assumes "put_exact E ts ds0 s" "\<And>h x c. rs_holds (e_rs E) (ps_drives s' h) x c \<Longrightarrow> rs_holds (e_rs E) (ps_drives s h) x c"
    "ps_results s' = ps_results s"
  shows "put_exact E ts ds0 s'"
proof -
  have "has_result s' = has_result s" using assms(3) by (simp add: has_result_def fun_eq_iff)
  with assms(1,2) show ?thesis unfolding put_exact_def by simp
qed

definition unfinished_empty :: "'d put_state \<Rightarrow> bool" where
  "unfinished_empty s \<longleftrightarrow>
     (\<forall>i < length (ps_tasks s). t_pc (ps_tasks s ! i) \<noteq> Finished \<longrightarrow> ps_results s ! i = None)"

lemma task_step_unfinished:
  assumes "unfinished_empty s"
  shows "unfinished_empty (task_step E ivs key fid i s)"
  by (rule task_step_cases [of E ivs key fid i s])
    (use assms in \<open>auto simp: unfinished_empty_def nth_list_update split: sum.splits\<close>)

context precise_remote
begin

lemma resolve_only: "resolve rs acc nm fr ds = (res, fr', ds') \<Longrightarrow> rs_holds rs (ds' h) x c \<Longrightarrow> rs_holds rs (ds h) x c"
  by (auto simp: resolve_def Let_def dest: folder_only split: option.splits prod.splits sum.splits if_splits)

lemma start_upload_only:
  "e_rs E = rs \<Longrightarrow> start_upload E iv key fid acc i pt fr ds = (res, fr', ds') \<Longrightarrow>
    rs_holds rs (ds' h) x c \<Longrightarrow> rs_holds rs (ds h) x c"
  using resolve_only [of acc fid fr ds] by (auto simp: start_upload_def split: prod.splits sum.splits)

lemma send_upload_only:
  assumes "e_rs E = rs" "md5 = md5_sum (m_prims (e_mcfg E))"
    "send_upload E iv key acc i pt f ds = (res, ds')"
  shows "rs_holds rs (ds' h) x c \<Longrightarrow> rs_holds rs (ds h) x c
      \<or> (\<exists>uc. res = Inr uc \<and> h = projr (acc_Store acc) \<and> uc_remoteFileID uc = x)"
    and "res = Inr uc \<Longrightarrow> \<not> rs_holds rs (ds (projr (acc_Store acc))) (uc_remoteFileID uc) c"
proof -
  let ?P = "m_prims (e_mcfg E)" and ?h = "projr (acc_Store acc)"
  obtain payload algo where pl: "chunk_payload ?P pt = (payload, algo)" by (metis surj_pair)
  have "(\<forall>h x c. rs_holds rs (ds' h) x c \<longrightarrow> rs_holds rs (ds h) x c
      \<or> (\<exists>uc. res = Inr uc \<and> h = ?h \<and> uc_remoteFileID uc = x))
    \<and> (\<forall>uc c. res = Inr uc \<longrightarrow> \<not> rs_holds rs (ds ?h) (uc_remoteFileID uc) c)"
  proof (cases "seal_chunk ?P iv key i pt")
    case (Inl e)
    with assms(3) pl show ?thesis by (auto simp: send_upload_def Let_def)
  next
    case (Inr ct)
    obtain up d where up: "rs_Upload rs (chunk_name i) f ct (ds ?h) = (up, d)" by (metis surj_pair)
    show ?thesis
    proof (cases up)
      case (Inl e)
      then have "res = Inl (PUpload i e)" "ds' = ds(?h := d)"
        using assms(1,3) pl Inr up by (auto simp: send_upload_def Let_def)
      with upload_only [OF up] Inl show ?thesis by auto
    next
      case (Inr rm)
      obtain rid md where rm: "rm = (rid, md)" by (metis surj_pair)
      with upload_md5 [OF up [unfolded Inr rm]] assms(2)
      have "\<not> (md \<noteq> [] \<and> md \<noteq> hex_encode (md5_sum ?P ct))" by auto
      then have "\<exists>uc. res = Inr uc \<and> uc_remoteFileID uc = rid" and ds': "ds' = ds(?h := d)"
        using assms(1,3) pl \<open>seal_chunk ?P iv key i pt = Inr ct\<close> up Inr rm by (auto simp: send_upload_def Let_def)
      moreover note upload_only [OF up, unfolded Inr rm] upload_fresh [OF up [unfolded Inr rm]]
      ultimately show ?thesis by auto
    qed
  qed
  then show "rs_holds rs (ds' h) x c \<Longrightarrow> rs_holds rs (ds h) x c
      \<or> (\<exists>uc. res = Inr uc \<and> h = projr (acc_Store acc) \<and> uc_remoteFileID uc = x)"
    and "res = Inr uc \<Longrightarrow> \<not> rs_holds rs (ds (projr (acc_Store acc))) (uc_remoteFileID uc) c" by blast+
qed

lemma task_step_exact:
  assumes E: "e_rs E = rs" and md: "md5 = md5_sum (m_prims (e_mcfg E))"
    and inv: "put_inv E ivs key ts ds0 s" and ex: "put_exact E ts ds0 s"
    and un: "unfinished_empty s"
  shows "put_exact E ts ds0 (task_step E ivs key fid i s)"
proof (rule task_step_cases [of E ivs key fid i s])
  fix res fr ds
  assume a: "start_upload E (ivs i) key fid (t_acc (ps_tasks s ! i)) i (t_plain (ps_tasks s ! i)) (ps_folders s) (ps_drives s)
      = (res, fr, ds)"
    "task_step E ivs key fid i s = (case res of
         Inl e \<Rightarrow> finish_task i (Inl e) (s\<lparr>ps_folders := fr, ps_drives := ds\<rparr>)
       | Inr f \<Rightarrow> s\<lparr>ps_folders := fr, ps_drives := ds, ps_tasks := (ps_tasks s)[i := (ps_tasks s ! i)\<lparr>t_pc := Resolved f\<rparr>]\<rparr>)"
  show ?thesis
    by (rule put_exact_drives [OF ex]) (use a E start_upload_only [OF E a(1)] in \<open>auto split: sum.splits\<close>)
next
  fix f res ds
  let ?t = "ps_tasks s ! i" and ?h = "task_handle (ts ! i)"
  assume a: "i < length (ps_tasks s)" "send_upload E (ivs i) key (t_acc ?t) i (t_plain ?t) f (ps_drives s) = (res, ds)"
    "task_step E ivs key fid i s = finish_task i res (s\<lparr>ps_drives := ds\<rparr>)" and pc: "t_pc ?t = Resolved f"
  have h: "projr (acc_Store (t_acc ?t)) = ?h" using inv a(1) by (simp add: put_inv_def task_handle_def)
  note only = send_upload_only [OF E md a(2), unfolded h]
  show ?thesis
  proof (cases res)
    case (Inl e)
    show ?thesis
      by (rule put_exact_drives [OF ex]) (use a(3) Inl E only(1) in auto)
  next
    case (Inr uc)
    have new: "has_result (task_step E ivs key fid i s) j u \<longleftrightarrow> j = i \<and> u = uc \<or> has_result s j u" for j u
    proof -
      have "ps_results s ! i = None" "i < length (ps_results s)"
        using un a(1) pc inv by (simp_all add: unfinished_empty_def put_inv_def)
      with a(3) Inr show ?thesis by (auto simp: has_result_def nth_list_update)
    qed
    have old: "rs_holds rs (ps_drives s h') x c" if "rs_holds rs (ds0 h') x c" for h' x c
      using inv that E by (auto simp: put_inv_def drives_le_def)
    have held: "\<exists>c. rs_holds rs (ps_drives s (task_handle (ts ! j))) (uc_remoteFileID uc') c"
      if "has_result s j uc'" for j uc'
      using inv that E unfolding put_inv_def uc_good_def has_result_def by blast
    have ds: "ps_drives (task_step E ivs key fid i s) = ds" using a(3) by simp
    note fresh = only(2) [OF Inr]
    show ?thesis unfolding put_exact_def new ds
    proof (intro conjI allI impI)
      fix j k u u'
      assume "j = i \<and> u = uc \<or> has_result s j u" "k = i \<and> u' = uc \<or> has_result s k u'" "j \<noteq> k"
        "task_handle (ts ! j) = task_handle (ts ! k)"
      with ex held fresh show "uc_remoteFileID u \<noteq> uc_remoteFileID u'"
        unfolding put_exact_def by metis
    next
      fix j u c
      assume "j = i \<and> u = uc \<or> has_result s j u"
      with ex fresh old E show "\<not> rs_holds (e_rs E) (ds0 (task_handle (ts ! j))) (uc_remoteFileID u) c"
        unfolding put_exact_def by blast
    next
      fix h' x c
      assume "rs_holds (e_rs E) (ds h') x c"
      then consider "rs_holds rs (ps_drives s h') x c" | "h' = ?h" "uc_remoteFileID uc = x"
        using only(1) Inr E by auto
      then show "rs_holds (e_rs E) (ds0 h') x c \<or>
          (\<exists>j u. (j = i \<and> u = uc \<or> has_result s j u) \<and> task_handle (ts ! j) = h' \<and> uc_remoteFileID u = x)"
        using ex E unfolding put_exact_def by cases blast+
    qed
  qed
qed (use ex in simp)

end

text \<open>Deletions that succeed or find nothing to delete.\<close>
definition clean_deletes :: "'d remote_store \<Rightarrow> bool" where
  "clean_deletes rs \<longleftrightarrow> (\<forall>x d. fst (rs_Delete rs x d) = None \<or> fst (rs_Delete rs x d) = Some (GNotFound x))"

definition uc_handle :: "pool \<Rightarrow> uploadedChunk \<Rightarrow> nat" where
  "uc_handle p uc = projr (acc_Store (the (map_of (p_accounts p) (uc_accountID uc))))"

lemma distinct_map_filter_results:
  "(\<And>i j a b. i < length xs \<Longrightarrow> j < length xs \<Longrightarrow> i \<noteq> j \<Longrightarrow> xs ! i = Some a \<Longrightarrow> xs ! j = Some b \<Longrightarrow> g a \<noteq> g b) \<Longrightarrow>
    distinct (map g (List.map_filter id xs))"
proof (induction xs)
  case (Cons x xs)
  have IH: "distinct (map g (List.map_filter id xs))"
  proof (rule Cons.IH)
    fix i j a b
    assume "i < length xs" "j < length xs" "i \<noteq> j" "xs ! i = Some a" "xs ! j = Some b"
    with Cons.prems [of "Suc i" "Suc j" a b] show "g a \<noteq> g b" by simp
  qed
  show ?case
  proof (cases x)
    case (Some a)
    have "g b \<noteq> g a" if b: "b \<in> set (List.map_filter id xs)" for b
    proof -
      obtain j where "j < length xs" "xs ! j = Some b" using b by (auto simp: set_map_filter in_set_conv_nth)
      with Cons.prems [of 0 "Suc j" a b] Some show ?thesis by auto
    qed
    then have "g a \<notin> g ` set (List.map_filter id xs)" by (metis imageE)
    with IH Some show ?thesis by (simp add: id_def)
  qed (use IH in \<open>simp add: id_def\<close>)
qed simp

lemma record_chunks_vfiles: "db_vfiles (snd (record_chunks now u vfid ucs d)) = db_vfiles d"
proof (induction ucs arbitrary: d)
  case (Cons uc ucs)
  obtain res d1 where a: "m_AddChunk now u (chunk_row vfid uc) d = (res, d1)" by (metis surj_pair)
  then have "db_vfiles d1 = db_vfiles d"
    unfolding m_AddChunk_def by (cases rule: query_cases) (auto simp: sql_insert_chunk_def Let_def split: if_splits)
  with a Cons.IH show ?case by (auto split: sum.splits)
qed simp

lemma m_CreateVirtualFile_vfiles:
  "m_CreateVirtualFile now u vf d = (Inr row, d1) \<Longrightarrow> length (db_vfiles d1) = Suc (length (db_vfiles d))"
  unfolding m_CreateVirtualFile_def Let_def query_def sql_insert_vfile_def
  by (auto split: list.splits option.splits if_splits)

lemma m_SetVirtualFileStatus_vfiles:
  "length (db_vfiles (snd (m_SetVirtualFileStatus now u i st d))) = length (db_vfiles d)"
  unfolding m_SetVirtualFileStatus_def scoped_def query_def sql_update_vfiles_def
  by (auto split: list.splits option.splits if_splits)

context precise_remote
begin

lemma delete_exact:
  assumes "clean_deletes rs" "rs_holds rs d x b" "rs_Delete rs x d = (e, d')"
  shows "rs_holds rs d' y c \<longleftrightarrow> rs_holds rs d y c \<and> y \<noteq> x"
proof (cases "y = x")
  case True
  have "e = None \<or> e = Some (GNotFound x)" using assms(1,3) unfolding clean_deletes_def by (metis fst_conv)
  then have "\<not> rs_holds rs d' x c" using assms(3) delete_gone [of x d d' c] delete_notfound [of x d x d' c] by auto
  with True show ?thesis by simp
next
  case False
  then show ?thesis using delete_other [OF assms(2,3), of y c] delete_only [OF assms(3), of y c] by auto
qed

lemma cleanup_exact:
  assumes "e_rs E = rs" "clean_deletes rs"
    and "\<forall>uc \<in> set ucs. \<exists>acc k. map_of (p_accounts p) (uc_accountID uc) = Some acc \<and> acc_Store acc = Inr k"
    and "\<forall>uc \<in> set ucs. \<exists>b. rs_holds rs (ds (uc_handle p uc)) (uc_remoteFileID uc) b"
    and "distinct (map (\<lambda>uc. (uc_handle p uc, uc_remoteFileID uc)) ucs)"
  shows "rs_holds rs (cleanupChunks E p ucs ds h) x c \<longleftrightarrow>
    rs_holds rs (ds h) x c \<and> (h, x) \<notin> (\<lambda>uc. (uc_handle p uc, uc_remoteFileID uc)) ` set ucs"
  using assms(3-5)
proof (induction ucs arbitrary: ds)
  case (Cons uc ucs)
  obtain acc k where acc: "map_of (p_accounts p) (uc_accountID uc) = Some acc" "acc_Store acc = Inr k" "uc_handle p uc = k"
    using Cons.prems(1) by (auto simp: uc_handle_def)
  obtain b where b: "rs_holds rs (ds k) (uc_remoteFileID uc) b" using Cons.prems(2) acc(3) by auto
  obtain e d where del: "rs_Delete rs (uc_remoteFileID uc) (ds k) = (e, d)" by (metis surj_pair)
  note ex = delete_exact [OF assms(2) b del]
  have "\<forall>v \<in> set ucs. \<exists>b. rs_holds rs ((ds(k := d)) (uc_handle p v)) (uc_remoteFileID v) b"
  proof
    fix v assume v: "v \<in> set ucs"
    then have "(uc_handle p v, uc_remoteFileID v) \<noteq> (k, uc_remoteFileID uc)"
      using Cons.prems(3) acc(3) by (auto simp: image_iff)
    with Cons.prems(2) v ex show "\<exists>b. rs_holds rs ((ds(k := d)) (uc_handle p v)) (uc_remoteFileID v) b" by auto
  qed
  then have "rs_holds rs (cleanupChunks E p ucs (ds(k := d)) h) x c \<longleftrightarrow>
      rs_holds rs ((ds(k := d)) h) x c \<and> (h, x) \<notin> (\<lambda>uc. (uc_handle p uc, uc_remoteFileID uc)) ` set ucs"
    by (rule Cons.IH [rotated]) (use Cons.prems(1,3) in simp_all)
  moreover have "cleanupChunks E p (uc # ucs) ds = cleanupChunks E p ucs (ds(k := d))"
    using acc del assms(1) by simp
  moreover have "rs_holds rs ((ds(k := d)) h) x c \<longleftrightarrow> rs_holds rs (ds h) x c \<and> (h, x) \<noteq> (k, uc_remoteFileID uc)"
    using ex [of x c] by (cases "h = k") auto
  ultimately show ?case using acc(3) by (simp add: conj_assoc)
qed simp

text \<open>What a run has uploaded, and under which handles, whatever the schedule.\<close>
lemma run_uploads_exact:
  assumes E: "e_rs E = rs" and "md5 = md5_sum (m_prims (e_mcfg E))"
    and ts: "\<forall>t \<in> set ts. usable p (t_acc t) \<and> t_pc t = Started" "length ts \<le> N"
    and s: "s = run_uploads E ivs key fid sched \<lparr>ps_drives = ds, ps_folders = [], ps_tasks = ts,
      ps_results = replicate N None, ps_firstErr = None\<rparr>"
  shows "put_inv E ivs key ts ds s" "put_exact E ts ds s"
    and "has_result s i uc \<Longrightarrow> uc_handle p uc = task_handle (ts ! i)
      \<and> (\<exists>acc k. map_of (p_accounts p) (uc_accountID uc) = Some acc \<and> acc_Store acc = Inr k)
      \<and> (\<exists>b. rs_holds rs (ps_drives s (uc_handle p uc)) (uc_remoteFileID uc) b)"
proof -
  let ?s0 = "\<lparr>ps_drives = ds, ps_folders = [], ps_tasks = ts, ps_results = replicate N None, ps_firstErr = None\<rparr>"
  have "put_inv E ivs key ts ds s \<and> put_exact E ts ds s \<and> unfinished_empty s" unfolding s
  proof (rule run_uploads_invariant)
    have "put_exact E ts ds ?s0" by (auto simp: put_exact_def has_result_def)
    moreover have "unfinished_empty ?s0" using ts(2) by (auto simp: unfinished_empty_def)
    ultimately show "put_inv E ivs key ts ds ?s0 \<and> put_exact E ts ds ?s0 \<and> unfinished_empty ?s0"
      using put_inv_initial ts by blast
  qed (use task_step_inv [OF E] task_step_exact [OF E assms(2)] task_step_unfinished in blast)
  then show inv: "put_inv E ivs key ts ds s" and "put_exact E ts ds s" by blast+
  assume r: "has_result s i uc"
  have g: "uc_good E ivs key (ts ! i) (ps_drives s) i uc" "usable p (t_acc (ts ! i))"
    using inv r ts(1) unfolding put_inv_def has_result_def by auto
  then have "uc_handle p uc = task_handle (ts ! i)" by (simp add: uc_handle_def task_handle_def usable_def uc_good_def)
  with g E show "uc_handle p uc = task_handle (ts ! i)
      \<and> (\<exists>acc k. map_of (p_accounts p) (uc_accountID uc) = Some acc \<and> acc_Store acc = Inr k)
      \<and> (\<exists>b. rs_holds rs (ps_drives s (uc_handle p uc)) (uc_remoteFileID uc) b)"
    by (auto simp: uc_good_def usable_def)
qed

text \<open>After any run, the clean-up restores what the drives held before it.\<close>
lemma cleanup_restores:
  assumes E: "e_rs E = rs" and "md5 = md5_sum (m_prims (e_mcfg E))" "clean_deletes rs"
    and ts: "\<forall>t \<in> set ts. usable p (t_acc t) \<and> t_pc t = Started" "length ts \<le> N"
    and s: "s = run_uploads E ivs key fid sched \<lparr>ps_drives = ds, ps_folders = [], ps_tasks = ts,
      ps_results = replicate N None, ps_firstErr = None\<rparr>"
  shows "rs_holds rs (cleanupChunks E p (List.map_filter id (ps_results s)) (ps_drives s) h) x c \<longleftrightarrow> rs_holds rs (ds h) x c"
proof -
  let ?ucs = "List.map_filter id (ps_results s)" and ?f = "\<lambda>uc. (uc_handle p uc, uc_remoteFileID uc)"
  note exact = run_uploads_exact [OF E assms(2) ts s]
  note inv = exact(1) and ex = exact(2)
  have mem: "uc \<in> set ?ucs \<longleftrightarrow> (\<exists>i. has_result s i uc)" for uc
    by (auto simp: set_map_filter has_result_def in_set_conv_nth)
  have hd: "uc_handle p uc = task_handle (ts ! i)" if "has_result s i uc" for i uc using exact(3) [OF that] by blast
  have "distinct (map ?f ?ucs)"
  proof (rule distinct_map_filter_results)
    fix i j a b
    assume "i < length (ps_results s)" "j < length (ps_results s)" "i \<noteq> j" "ps_results s ! i = Some a" "ps_results s ! j = Some b"
    then have "has_result s i a" "has_result s j b" "i \<noteq> j" by (simp_all add: has_result_def)
    with ex hd show "?f a \<noteq> ?f b" unfolding put_exact_def by (metis Pair_inject)
  qed
  then have "rs_holds rs (cleanupChunks E p ?ucs (ps_drives s) h) x c \<longleftrightarrow>
      rs_holds rs (ps_drives s h) x c \<and> (h, x) \<notin> ?f ` set ?ucs"
    by (intro cleanup_exact [OF E assms(3)]) (use exact(3) mem in blast)+
  also have "\<dots> \<longleftrightarrow> rs_holds rs (ds h) x c"
  proof
    assume "rs_holds rs (ps_drives s h) x c \<and> (h, x) \<notin> ?f ` set ?ucs"
    then show "rs_holds rs (ds h) x c" using ex hd E mem unfolding put_exact_def by (metis (no_types, lifting) image_eqI)
  next
    assume "rs_holds rs (ds h) x c"
    moreover from this have "rs_holds rs (ps_drives s h) x c" using inv E by (auto simp: put_inv_def drives_le_def)
    moreover have "(h, x) \<notin> ?f ` set ?ucs"
    proof
      assume "(h, x) \<in> ?f ` set ?ucs"
      then obtain i uc where "has_result s i uc" "h = task_handle (ts ! i)" "x = uc_remoteFileID uc" using mem hd by auto
      with ex E \<open>rs_holds rs (ds h) x c\<close> show False unfolding put_exact_def by blast
    qed
    ultimately show "rs_holds rs (ps_drives s h) x c \<and> (h, x) \<notin> ?f ` set ?ucs" by blast
  qed
  finally show ?thesis .
qed

end

end
