(* ===== verification/Pool_Concurrency.thy ===== *)
theory Pool_Concurrency
  imports Pool_Put
begin

text \<open>
  The goroutines of \<open>PutStream\<close> as a step relation. The calling goroutine takes a slot of the
  channel \<open>sem\<close> and starts the next chunk's goroutine; a started goroutine performs its actions
  (\<open>task_step\<close>) in any order with the others and, when it has recorded its outcome, gives its slot
  back; \<open>wg.Wait\<close> returns when every goroutine has been started and has given back its slot. The
  relation is shown to respect the bound on parallel uploads, to terminate without deadlock, and
  to have exactly the outcomes that the schedules of \<open>run_uploads\<close> describe.
\<close>

record 'd conc_state =
  cs_next :: nat  \<comment> \<open>the number of goroutines started\<close>
  cs_slots :: "nat set"  \<comment> \<open>the goroutines that hold a slot of \<open>sem\<close>\<close>
  cs_put :: "'d put_state"

inductive conc_step ::
  "'d penv \<Rightarrow> (nat \<Rightarrow> entropy) \<Rightarrow> bytes \<Rightarrow> string \<Rightarrow> nat \<Rightarrow> 'd conc_state \<Rightarrow> 'd conc_state \<Rightarrow> bool"
  for E :: "'d penv" and ivs :: "nat \<Rightarrow> entropy" and key :: bytes and fid :: string and k :: nat
where
  start: "cs_next s < length (ps_tasks (cs_put s)) \<Longrightarrow> card (cs_slots s) < k \<Longrightarrow>
    conc_step E ivs key fid k s (s\<lparr>cs_next := Suc (cs_next s), cs_slots := insert (cs_next s) (cs_slots s)\<rparr>)"
| act: "i < cs_next s \<Longrightarrow> t_pc (ps_tasks (cs_put s) ! i) \<noteq> Finished \<Longrightarrow>
    conc_step E ivs key fid k s (s\<lparr>cs_put := task_step E ivs key fid i (cs_put s)\<rparr>)"
| release: "i \<in> cs_slots s \<Longrightarrow> t_pc (ps_tasks (cs_put s) ! i) = Finished \<Longrightarrow>
    conc_step E ivs key fid k s (s\<lparr>cs_slots := cs_slots s - {i}\<rparr>)"

inductive_cases conc_stepE: "conc_step E ivs key fid k s s'"

text \<open>The state in which \<open>wg.Wait\<close> returns.\<close>
definition waited :: "'d conc_state \<Rightarrow> bool" where
  "waited s \<longleftrightarrow> cs_next s = length (ps_tasks (cs_put s)) \<and> cs_slots s = {}"

definition conc_init :: "'d put_state \<Rightarrow> 'd conc_state" where
  "conc_init s = \<lparr>cs_next = 0, cs_slots = {}, cs_put = s\<rparr>"

subsection \<open>The invariant\<close>

text \<open>
  A goroutine that has not finished holds a slot; only started goroutines hold one or have acted;
  there are never more slots taken than the channel has.
\<close>
definition conc_inv ::
  "'d penv \<Rightarrow> (nat \<Rightarrow> entropy) \<Rightarrow> bytes \<Rightarrow> string \<Rightarrow> nat \<Rightarrow> 'd put_state \<Rightarrow> 'd conc_state \<Rightarrow> bool"
where
  "conc_inv E ivs key fid k s0 s \<longleftrightarrow>
     cs_next s \<le> length (ps_tasks (cs_put s)) \<and> length (ps_tasks (cs_put s)) = length (ps_tasks s0)
   \<and> cs_slots s \<subseteq> {..<cs_next s} \<and> card (cs_slots s) \<le> k
   \<and> (\<forall>i < cs_next s. t_pc (ps_tasks (cs_put s) ! i) \<noteq> Finished \<longrightarrow> i \<in> cs_slots s)
   \<and> (\<exists>sched. cs_put s = fold (task_step E ivs key fid) sched s0)"

lemma conc_inv_init: "conc_inv E ivs key fid k s0 (conc_init s0)"
  by (auto simp: conc_inv_def conc_init_def intro: exI [of _ "[]"])

text \<open>What a goroutine has left to do: start, two actions, giving back the slot.\<close>
definition work_left :: "'d conc_state \<Rightarrow> nat" where
  "work_left s = (length (ps_tasks (cs_put s)) - cs_next s) * 2
     + (\<Sum>i < length (ps_tasks (cs_put s)). 2 - pc_rank (t_pc (ps_tasks (cs_put s) ! i))) + card (cs_slots s)"

lemma task_step_other: "i \<noteq> j \<Longrightarrow> ps_tasks (task_step E ivs key fid j s) ! i = ps_tasks s ! i"
  by (rule task_step_cases [of E ivs key fid j s]) (auto split: sum.splits)

lemma conc_inv_step:
  assumes "conc_inv E ivs key fid k s0 s" "conc_step E ivs key fid k s s'"
  shows "conc_inv E ivs key fid k s0 s'"
  using assms(2)
proof cases
  case start
  have "cs_next s \<notin> cs_slots s" using assms(1) by (auto simp: conc_inv_def)
  moreover have "finite (cs_slots s)" using assms(1) unfolding conc_inv_def by (metis finite_lessThan finite_subset)
  ultimately show ?thesis using start assms(1) by (auto simp: conc_inv_def less_Suc_eq)
next
  case (act i)
  obtain sched where "cs_put s = fold (task_step E ivs key fid) sched s0" using assms(1) by (auto simp: conc_inv_def)
  then have "cs_put s' = fold (task_step E ivs key fid) (sched @ [i]) s0" using act by simp
  moreover have "j \<in> cs_slots s" if "j < cs_next s" "t_pc (ps_tasks (task_step E ivs key fid i (cs_put s)) ! j) \<noteq> Finished" for j
    using that assms(1) act task_step_other [of j i E ivs key fid "cs_put s"] by (cases "i = j") (auto simp: conc_inv_def)
  ultimately show ?thesis using act assms(1) by (auto simp: conc_inv_def simp del: fold_append)
next
  case (release i)
  have "finite (cs_slots s)" using assms(1) unfolding conc_inv_def by (metis finite_lessThan finite_subset)
  then have "card (cs_slots s - {i}) \<le> k" using assms(1) by (auto simp: conc_inv_def card_Diff_singleton_if)
  then show ?thesis using release assms(1) by (auto simp: conc_inv_def)
qed

lemma work_left_step:
  assumes "conc_inv E ivs key fid k s0 s" "conc_step E ivs key fid k s s'"
  shows "work_left s' < work_left s"
  using assms(2)
proof cases
  case start
  have "cs_next s \<notin> cs_slots s" "finite (cs_slots s)"
    using assms(1) unfolding conc_inv_def by (auto intro: finite_subset)
  with start show ?thesis by (simp add: work_left_def)
next
  case (act i)
  let ?n = "length (ps_tasks (cs_put s))" and ?t = "ps_tasks (cs_put s)" and ?t' = "ps_tasks (task_step E ivs key fid i (cs_put s))"
  have i: "i < ?n" using act assms(1) by (auto simp: conc_inv_def)
  have le: "2 - pc_rank (t_pc (?t' ! j)) \<le> 2 - pc_rank (t_pc (?t ! j))" if "j < ?n" for j
    using task_step_progress [OF that, of i E ivs key fid] by linarith
  have "pc_rank (t_pc (?t ! i)) < 2" using act by (cases "t_pc (?t ! i)") auto
  then have lt: "2 - pc_rank (t_pc (?t' ! i)) < 2 - pc_rank (t_pc (?t ! i))"
    using task_step_progress [OF i, of i E ivs key fid] by simp
  have "(\<Sum>j < ?n. 2 - pc_rank (t_pc (?t' ! j))) < (\<Sum>j < ?n. 2 - pc_rank (t_pc (?t ! j)))"
    using le lt i by (intro sum_strict_mono_ex1) auto
  with act show ?thesis by (simp add: work_left_def)
next
  case (release i)
  have "finite (cs_slots s)" using assms(1) unfolding conc_inv_def by (metis finite_lessThan finite_subset)
  with release have "card (cs_slots s - {i}) < card (cs_slots s)" by (intro psubset_card_mono) auto
  with release show ?thesis by (simp add: work_left_def)
qed

lemma work_left_init: "work_left (conc_init s0) \<le> 4 * length (ps_tasks s0)"
proof -
  have "(\<Sum>i < length (ps_tasks s0). 2 - pc_rank (t_pc (ps_tasks s0 ! i))) \<le> (\<Sum>i < length (ps_tasks s0). 2)"
    by (intro sum_mono) simp
  then show ?thesis by (simp add: work_left_def conc_init_def)
qed

text \<open>No deadlock: as long as the channel has a slot, something can happen until \<open>wg.Wait\<close> returns.\<close>
lemma conc_progress:
  assumes "conc_inv E ivs key fid k s0 s" "0 < k" "\<not> waited s"
  shows "\<exists>s'. conc_step E ivs key fid k s s'"
proof (cases "cs_slots s = {}")
  case True
  with assms have "cs_next s < length (ps_tasks (cs_put s))" by (auto simp: conc_inv_def waited_def)
  with True assms(2) conc_step.start show ?thesis by (metis card.empty)
next
  case False
  then obtain i where i: "i \<in> cs_slots s" by blast
  with assms(1) have "i < cs_next s" by (auto simp: conc_inv_def)
  with i conc_step.act conc_step.release show ?thesis by metis
qed

interpretation uploads: terminating_system
  "conc_step E ivs key fid (Suc k)" "conc_inv E ivs key fid (Suc k) s0" work_left waited for E ivs key fid k s0
  by unfold_locales (auto intro: conc_inv_step work_left_step conc_progress)

lemma maxParallelUploads_pos: "0 < nat (maxParallelUploads p)"
  by (simp add: maxParallelUploads_def defaultMaxParallelUploads_def)

lemma uploads_run:
  assumes "(conc_step E ivs key fid (nat (maxParallelUploads p)) ^^ m) (conc_init s0) s"
  shows "conc_inv E ivs key fid (nat (maxParallelUploads p)) s0 s \<and> m + work_left s \<le> work_left (conc_init s0)"
proof -
  obtain k where k: "nat (maxParallelUploads p) = Suc k" using maxParallelUploads_pos gr0_conv_Suc by blast
  from uploads.run_bound [of m E ivs key fid k] assms conc_inv_init show ?thesis unfolding k by blast
qed

lemma fold_finished:
  assumes "\<forall>i < length (ps_tasks s). t_pc (ps_tasks s ! i) = Finished"
  shows "fold (task_step E ivs key fid) xs s = s"
proof -
  have "task_step E ivs key fid i s = s" for i
    using assms by (auto simp: task_step_def)
  then show ?thesis by (induction xs) simp_all
qed

lemma waited_run:
  assumes "conc_inv E ivs key fid k s0 s" "waited s"
  shows "\<exists>sched. cs_put s = run_uploads E ivs key fid sched s0"
proof -
  obtain sched where s: "cs_put s = fold (task_step E ivs key fid) sched s0" using assms(1) by (auto simp: conc_inv_def)
  have "\<forall>i < length (ps_tasks (cs_put s)). t_pc (ps_tasks (cs_put s) ! i) = Finished"
    using assms by (auto simp: conc_inv_def waited_def)
  from fold_finished [OF this] s have "run_uploads E ivs key fid sched s0 = cs_put s"
    by (simp add: run_uploads_def Let_def)
  then show ?thesis by (intro exI [of _ sched]) simp
qed

text \<open>
  C9. The goroutines of a put under \<open>sem\<close> and \<open>wg\<close>: in every reachable state at most
  \<open>maxParallelUploads\<close> slots are taken and every goroutine that is still working holds one; an
  execution has at most four steps per chunk; it can always go on until \<open>wg.Wait\<close> returns; and
  the shared state it then leaves is the outcome of a schedule of \<open>run_uploads\<close>.
\<close>
theorem uploads_bounded_and_live:
  assumes "(conc_step E ivs key fid (nat (maxParallelUploads p)) ^^ m) (conc_init s0) s"
  shows "card (cs_slots s) \<le> nat (maxParallelUploads p)
    \<and> (\<forall>i < cs_next s. t_pc (ps_tasks (cs_put s) ! i) \<noteq> Finished \<longrightarrow> i \<in> cs_slots s)
    \<and> m \<le> 4 * length (ps_tasks s0)
    \<and> (waited s \<or> (\<exists>s'. conc_step E ivs key fid (nat (maxParallelUploads p)) s s'))
    \<and> (waited s \<longrightarrow> (\<exists>sched. cs_put s = run_uploads E ivs key fid sched s0))"
proof -
  note r = uploads_run [OF assms]
  have "waited s \<or> (\<exists>s'. conc_step E ivs key fid (nat (maxParallelUploads p)) s s')"
    using r conc_progress maxParallelUploads_pos by blast
  moreover have "waited s \<longrightarrow> (\<exists>sched. cs_put s = run_uploads E ivs key fid sched s0)" using r waited_run by blast
  moreover have "m \<le> 4 * length (ps_tasks s0)" using r work_left_init [of s0] by linarith
  ultimately show ?thesis using r by (auto simp: conc_inv_def)
qed

subsection \<open>Witness\<close>

text \<open>One chunk, whose goroutine has been started.\<close>
definition toy_put_state :: "mem_drive put_state" where
  "toy_put_state = \<lparr>ps_drives = toy_drives, ps_folders = [], ps_tasks = [\<lparr>t_plain = [1, 2], t_acc = toy_acc ''A'' (Inr 0), t_pc = Started\<rparr>],
     ps_results = [None], ps_firstErr = None\<rparr>"

theorem uploads_bounded_and_live_witness:
  "\<exists>s s'. conc_step toy_penv (\<lambda>i. toy_rnd) (replicate 32 5) ''id'' 4 (conc_init toy_put_state) s
     \<and> cs_slots s = {0} \<and> conc_step toy_penv (\<lambda>i. toy_rnd) (replicate 32 5) ''id'' 4 s s'"
proof -
  let ?step = "conc_step toy_penv (\<lambda>i. toy_rnd) (replicate 32 5) ''id''"
  let ?s = "(conc_init toy_put_state)\<lparr>cs_next := 1, cs_slots := {0}\<rparr>"
  have k: "nat (maxParallelUploads toy_pool) = 4"
    by (simp add: maxParallelUploads_def defaultMaxParallelUploads_def toy_pool_def)
  have "?step 4 (conc_init toy_put_state) ?s"
    using conc_step.start [of "conc_init toy_put_state" 4] by (simp add: conc_init_def toy_put_state_def)
  moreover from this have "(?step (nat (maxParallelUploads toy_pool)) ^^ 1) (conc_init toy_put_state) ?s" unfolding k by auto
  from uploads_bounded_and_live [OF this] have "\<exists>s'. ?step 4 ?s s'" by (auto simp: k waited_def)
  ultimately show ?thesis by (simp only: ex_simps) (rule exI [of _ ?s], simp)
qed

end
