(* ===== verification/Pool_Sequential.thy ===== *)
theory Pool_Sequential
  imports Pool_Concurrency
begin

text \<open>
  The goroutines of \<open>PutStream\<close> against the function each of them runs. With one slot
  (\<open>MaxParallelUploads\<close> set to 1) the step relation of \<open>Pool_Concurrency\<close> leaves no choice: what it
  computes is a loop that calls \<open>uploadChunk\<close> for one chunk after the other.
\<close>

subsection \<open>The reference loop\<close>

fun upload_all ::
  "'d penv \<Rightarrow> (nat \<Rightarrow> entropy) \<Rightarrow> bytes \<Rightarrow> string \<Rightarrow> nat \<Rightarrow> upload_task list \<Rightarrow> folderResolver \<Rightarrow> 'd drives
     \<Rightarrow> (perror, uploadedChunk) result list \<times> folderResolver \<times> 'd drives"
where
  "upload_all E ivs key fid i [] fr ds = ([], fr, ds)"
| "upload_all E ivs key fid i (t # ts) fr ds =
     (case uploadChunk E (ivs i) (t_acc t) fid key i (t_plain t) fr ds of (res, fr', ds') \<Rightarrow>
        (case upload_all E ivs key fid (Suc i) ts fr' ds' of (rs, fr'', ds'') \<Rightarrow> (res # rs, fr'', ds'')))"

text \<open>The results and the first error that a list of outcomes amounts to.\<close>
definition kept_results :: "('e, 'a) result list \<Rightarrow> 'a option list" where
  "kept_results rs = map (\<lambda>r. case r of Inl e \<Rightarrow> None | Inr x \<Rightarrow> Some x) rs"

fun earliest_error :: "('e, 'a) result list \<Rightarrow> 'e option" where
  "earliest_error [] = None"
| "earliest_error (Inl e # rs) = Some e"
| "earliest_error (Inr x # rs) = earliest_error rs"

subsection \<open>Two steps of one goroutine\<close>

lemma put_state_eqI:
  "ps_drives s = ps_drives s' \<Longrightarrow> ps_folders s = ps_folders s' \<Longrightarrow> ps_tasks s = ps_tasks s' \<Longrightarrow> ps_results s = ps_results s'
    \<Longrightarrow> ps_firstErr s = ps_firstErr s' \<Longrightarrow> (s :: 'd put_state) = s'"
  by (cases s; cases s') simp

lemma two_steps:
  assumes "i < length (ps_tasks s)" "t_pc (ps_tasks s ! i) = Started"
    and "uploadChunk E (ivs i) (t_acc (ps_tasks s ! i)) fid key i (t_plain (ps_tasks s ! i)) (ps_folders s) (ps_drives s) = (res, fr, ds)"
  shows "task_step E ivs key fid i (task_step E ivs key fid i s) = finish_task i res (s\<lparr>ps_folders := fr, ps_drives := ds\<rparr>)"
proof (rule task_step_cases [of E ivs key fid i s])
  fix r1 fr1 ds1
  assume st: "start_upload E (ivs i) key fid (t_acc (ps_tasks s ! i)) i (t_plain (ps_tasks s ! i)) (ps_folders s) (ps_drives s)
      = (r1, fr1, ds1)"
    and eq: "task_step E ivs key fid i s = (case r1 of
         Inl e \<Rightarrow> finish_task i (Inl e) (s\<lparr>ps_folders := fr1, ps_drives := ds1\<rparr>)
       | Inr f \<Rightarrow> s\<lparr>ps_folders := fr1, ps_drives := ds1, ps_tasks := (ps_tasks s)[i := (ps_tasks s ! i)\<lparr>t_pc := Resolved f\<rparr>]\<rparr>)"
  show ?thesis
  proof (cases r1)
    case (Inl e)
    with st assms(3) have "res = Inl e" "fr = fr1" "ds = ds1" by (auto simp: uploadChunk_def)
    with Inl eq assms(1) show ?thesis by (simp add: task_step_def Let_def)
  next
    case (Inr f)
    obtain r2 ds2 where send: "send_upload E (ivs i) key (t_acc (ps_tasks s ! i)) i (t_plain (ps_tasks s ! i)) f ds1 = (r2, ds2)"
      by (metis surj_pair)
    with st assms(3) Inr have "res = r2" "fr = fr1" "ds = ds2" by (auto simp: uploadChunk_def)
    with Inr eq assms(1) send show ?thesis by (cases r2) (intro put_state_eqI; simp add: task_step_def Let_def)+
  qed
qed (use assms in auto)

text \<open>The schedule that runs the goroutines to the end one after the other.\<close>
definition in_turn :: "nat \<Rightarrow> nat \<Rightarrow> nat list" where
  "in_turn k m = concat (map (\<lambda>i. [i, i]) [k..<m])"

lemma in_turn_simps [simp]: "in_turn k k = []" "k < m \<Longrightarrow> in_turn k m = k # k # in_turn (Suc k) m"
  "k \<le> m \<Longrightarrow> in_turn k (Suc m) = in_turn k m @ [m, m]"
  by (simp_all add: in_turn_def upt_conv_Cons)

lemma fold_in_turn:
  assumes "ps_tasks s = pre @ ts" "length pre = k" "\<forall>t \<in> set ts. t_pc t = Started"
    and "length (ps_results s) = N" "k + length ts \<le> N" "\<forall>i. k \<le> i \<longrightarrow> i < N \<longrightarrow> ps_results s ! i = None"
    and "upload_all E ivs key fid k ts (ps_folders s) (ps_drives s) = (rs, fr, ds)"
    and s': "s' = fold (task_step E ivs key fid) (in_turn k (k + length ts)) s"
  shows "ps_folders s' = fr \<and> ps_drives s' = ds
    \<and> ps_results s' = take k (ps_results s) @ kept_results rs @ replicate (N - (k + length ts)) None
    \<and> ps_firstErr s' = (case ps_firstErr s of Some e \<Rightarrow> Some e | None \<Rightarrow> earliest_error rs)"
  using assms
proof (induction ts arbitrary: s pre k rs)
  case Nil
  have "drop k (ps_results s) = replicate (N - k) None"
    using Nil.prems(4,6) by (intro nth_equalityI) auto
  then have "ps_results s = take k (ps_results s) @ replicate (N - k) None" by (metis append_take_drop_id)
  with Nil show ?case by (simp add: kept_results_def split: option.splits)
next
  case (Cons t ts)
  have t: "ps_tasks s ! k = t" "k < length (ps_tasks s)" "t_pc t = Started" using Cons.prems(1-3) by (auto simp: nth_append)
  obtain res fr1 ds1 where up: "uploadChunk E (ivs k) (t_acc t) fid key k (t_plain t) (ps_folders s) (ps_drives s) = (res, fr1, ds1)"
    by (metis prod_cases3)
  obtain rs1 where rest: "upload_all E ivs key fid (Suc k) ts fr1 ds1 = (rs1, fr, ds)" and rs: "rs = res # rs1"
    using Cons.prems(7) up by (auto split: prod.splits)
  let ?s1 = "finish_task k res (s\<lparr>ps_folders := fr1, ps_drives := ds1\<rparr>)"
  have two: "task_step E ivs key fid k (task_step E ivs key fid k s) = ?s1"
    using two_steps [of k s E ivs fid key] t up by simp
  have s': "s' = fold (task_step E ivs key fid) (in_turn (Suc k) (Suc k + length ts)) ?s1"
    using Cons.prems(8) two by simp
  have "ps_folders s' = fr \<and> ps_drives s' = ds
    \<and> ps_results s' = take (Suc k) (ps_results ?s1) @ kept_results rs1 @ replicate (N - (Suc k + length ts)) None
    \<and> ps_firstErr s' = (case ps_firstErr ?s1 of Some e \<Rightarrow> Some e | None \<Rightarrow> earliest_error rs1)"
    by (rule Cons.IH [of ?s1 "pre @ [t\<lparr>t_pc := Finished\<rparr>]"])
      (use Cons.prems(1-6) t rest s' in \<open>auto split: sum.splits\<close>)
  moreover have "take (Suc k) (ps_results ?s1) = take k (ps_results s) @ kept_results [res]"
    using Cons.prems(4-6) by (cases res) (simp_all add: kept_results_def take_Suc_conv_app_nth)
  ultimately show ?case by (cases res) (auto simp: rs kept_results_def split: option.splits)
qed

subsection \<open>One slot\<close>

lemma two_steps_finish:
  assumes "i < length (ps_tasks s)" "t_pc (ps_tasks ((task_step E ivs key fid i ^^ j) s) ! i) = Finished"
  shows "(task_step E ivs key fid i ^^ j) s = task_step E ivs key fid i (task_step E ivs key fid i s)"
proof -
  let ?f = "task_step E ivs key fid i"
  have idle: "(?f ^^ m) x = x" if "t_pc (ps_tasks x ! i) = Finished" for m x
  proof -
    have "?f x = x" using that by (simp add: task_step_def)
    then show ?thesis by (induction m) simp_all
  qed
  have split: "(?f ^^ 2) s = (?f ^^ (2 - j)) ((?f ^^ j) s)" if "j \<le> 2"
    using that by (metis funpow_add le_add_diff_inverse2 comp_apply)
  have "2 \<le> pc_rank (t_pc (ps_tasks (?f (?f s)) ! i))"
    using task_step_progress [OF assms(1), of i E ivs key fid] task_step_progress [of i "?f s" i E ivs key fid] assms(1)
    by (simp add: numeral_2_eq_2 del: pc_rank_2)
  then have two: "t_pc (ps_tasks (?f (?f s)) ! i) = Finished" unfolding pc_rank_2 .
  show ?thesis
  proof (cases "j \<le> 2")
    case True
    with split idle assms(2) show ?thesis by (simp add: numeral_2_eq_2)
  next
    case False
    then have "(?f ^^ j) s = (?f ^^ (j - 2)) ((?f ^^ 2) s)" by (metis funpow_add le_add_diff_inverse2 comp_apply nat_le_linear)
    with idle [OF two] show ?thesis by (simp add: numeral_2_eq_2)
  qed
qed

text \<open>At most the last goroutine started is at work, and the ones before it have run in turn.\<close>
definition turn_inv ::
  "'d penv \<Rightarrow> (nat \<Rightarrow> entropy) \<Rightarrow> bytes \<Rightarrow> string \<Rightarrow> 'd put_state \<Rightarrow> 'd conc_state \<Rightarrow> bool"
where
  "turn_inv E ivs key fid s0 s \<longleftrightarrow> (let run = (\<lambda>m. fold (task_step E ivs key fid) (in_turn 0 m) s0); n = cs_next s in
     if cs_slots s = {} then cs_put s = run n
     else 0 < n \<and> cs_slots s = {n - 1} \<and> (\<exists>j. cs_put s = (task_step E ivs key fid (n - 1) ^^ j) (run (n - 1))))"

lemma turn_inv_step:
  assumes "turn_inv E ivs key fid s0 s" "conc_inv E ivs key fid 1 s0 s" "conc_step E ivs key fid 1 s s'"
  shows "turn_inv E ivs key fid s0 s'"
  using assms(3)
proof cases
  case start
  have "finite (cs_slots s)" using assms(2) unfolding conc_inv_def by (metis finite_lessThan finite_subset)
  with start have "cs_slots s = {}" by simp
  with start assms(1) show ?thesis by (auto simp: turn_inv_def Let_def intro: exI [of _ 0])
next
  case (act i)
  then have "i \<in> cs_slots s" using assms(2) by (simp add: conc_inv_def)
  with assms(1) obtain j where "i = cs_next s - 1" "0 < cs_next s" "cs_slots s = {i}"
    "cs_put s = (task_step E ivs key fid i ^^ j) (fold (task_step E ivs key fid) (in_turn 0 i) s0)"
    by (auto simp: turn_inv_def Let_def split: if_splits)
  with act show ?thesis by (auto simp: turn_inv_def Let_def intro: exI [of _ "Suc j"])
next
  case (release i)
  with assms(1) obtain j where j: "i = cs_next s - 1" "0 < cs_next s" "cs_slots s = {i}"
    "cs_put s = (task_step E ivs key fid i ^^ j) (fold (task_step E ivs key fid) (in_turn 0 i) s0)"
    by (auto simp: turn_inv_def Let_def split: if_splits)
  have "i < length (ps_tasks (fold (task_step E ivs key fid) (in_turn 0 i) s0))"
    using assms(2) j(1,2) by (auto simp: conc_inv_def)
  from two_steps_finish [OF this, where E = E and ivs = ivs and key = key and fid = fid and j = j] release(3) j(4)
  have "cs_put s = fold (task_step E ivs key fid) (in_turn 0 (Suc i)) s0"
    by (simp add: in_turn_simps(3) del: in_turn_simps(2))
  moreover have "cs_next s = Suc i" using j(1,2) by simp
  ultimately show ?thesis using release j(3) by (simp add: turn_inv_def Let_def del: in_turn_simps)
qed

lemma one_slot_run:
  assumes "(conc_step E ivs key fid 1 ^^ m) (conc_init s0) s"
  shows "turn_inv E ivs key fid s0 s \<and> conc_inv E ivs key fid 1 s0 s"
  using assms
proof (induction m arbitrary: s)
  case 0
  then show ?case using conc_inv_init [of E ivs key fid 1 s0] by (auto simp: turn_inv_def conc_init_def Let_def)
next
  case (Suc m)
  then obtain s1 where "(conc_step E ivs key fid 1 ^^ m) (conc_init s0) s1" "conc_step E ivs key fid 1 s1 s" by auto
  with Suc.IH turn_inv_step conc_inv_step show ?case by blast
qed

subsection \<open>Property\<close>

text \<open>
  C10. With one slot for uploads, the goroutines of a put compute what the plain loop over
  \<open>uploadChunk\<close> computes: every execution that \<open>wg.Wait\<close> lets through ends with the drives and the
  resolved folders of that loop, with the result of every chunk that was uploaded at its index,
  and with the error of the first chunk that was not.
\<close>
theorem one_slot_is_sequential:
  assumes "maxParallelUploads p = 1"
    and "(conc_step E ivs key fid (nat (maxParallelUploads p)) ^^ m) (conc_init \<lparr>ps_drives = ds0, ps_folders = [], ps_tasks = ts,
      ps_results = replicate (length ts) None, ps_firstErr = None\<rparr>) s" "waited s"
    and "\<forall>t \<in> set ts. t_pc t = Started"
    and "upload_all E ivs key fid 0 ts [] ds0 = (rs, fr, ds)"
  shows "ps_drives (cs_put s) = ds \<and> ps_folders (cs_put s) = fr
    \<and> ps_results (cs_put s) = kept_results rs \<and> ps_firstErr (cs_put s) = earliest_error rs"
proof -
  let ?s0 = "\<lparr>ps_drives = ds0, ps_folders = [], ps_tasks = ts, ps_results = replicate (length ts) None, ps_firstErr = None\<rparr>"
  have "turn_inv E ivs key fid ?s0 s \<and> conc_inv E ivs key fid 1 ?s0 s" using one_slot_run assms(1,2) by simp
  then have "cs_put s = fold (task_step E ivs key fid) (in_turn 0 (0 + length ts)) ?s0"
    using assms(3) by (simp add: turn_inv_def conc_inv_def waited_def Let_def)
  from fold_in_turn [OF _ _ assms(4) _ _ _ _ this, of "[]" "length ts" rs fr ds] assms(5)
  show ?thesis by simp
qed

subsection \<open>Witness\<close>

theorem one_slot_is_sequential_witness:
  "\<exists>m s rs. (conc_step toy_penv (\<lambda>i. toy_rnd) (replicate 32 5) ''id'' 1 ^^ m) (conc_init toy_put_state) s \<and> waited s
     \<and> rs = fst (upload_all toy_penv (\<lambda>i. toy_rnd) (replicate 32 5) ''id'' 0 (ps_tasks toy_put_state) [] toy_drives)
     \<and> ps_results (cs_put s) = kept_results rs"
proof -
  let ?step = "conc_step toy_penv (\<lambda>i. toy_rnd) (replicate 32 5) ''id''" and ?p = "toy_pool\<lparr>p_MaxParallelUploads := 1\<rparr>"
  obtain s where s: "(?step 1)\<^sup>*\<^sup>* (conc_init toy_put_state) s" "waited s"
    using uploads.reaches_final [of toy_penv "\<lambda>i. toy_rnd" "replicate 32 5" "''id''" 0 toy_put_state "conc_init toy_put_state"]
      conc_inv_init [of toy_penv "\<lambda>i. toy_rnd" "replicate 32 5" "''id''" 1 toy_put_state] by (auto simp: numeral_eq_Suc)
  then obtain m where m: "(?step 1 ^^ m) (conc_init toy_put_state) s" by (metis rtranclp_power)
  obtain rs fr ds where up: "upload_all toy_penv (\<lambda>i. toy_rnd) (replicate 32 5) ''id'' 0 (ps_tasks toy_put_state) [] toy_drives = (rs, fr, ds)"
    by (metis prod_cases3)
  have one: "maxParallelUploads ?p = 1" by (simp add: maxParallelUploads_def)
  have "ps_results (cs_put s) = kept_results rs"
    using one_slot_is_sequential [OF one, of m toy_penv "\<lambda>i. toy_rnd" "replicate 32 5" "''id''" toy_drives
      "ps_tasks toy_put_state" s rs fr ds] m s(2) up one
    by (simp add: toy_put_state_def)
  with m s(2) up show ?thesis by (intro exI [of _ m] exI [of _ s] exI [of _ rs]) simp
qed

end
