(* ===== verification/Pool_Get.thy ===== *)
theory Pool_Get
  imports Pool_Put Storage_Store
begin

text \<open>
  The reading half of \<open>drivepool/pool.go\<close>: \<open>GetStream\<close> and \<open>downloadChunk\<close>, the listings, \<open>Remove\<close>,
  and the wrappers \<open>Put\<close> and \<open>Get\<close> over local files. Downloads change nothing, so the goroutines of
  \<open>GetStream\<close> interact only in which of several errors is the first: their completion order is the
  order of an arbitrary \<open>rank\<close> of the chunk positions.
\<close>

subsection \<open>GetStream\<close>

definition downloadChunk :: "'d penv \<Rightarrow> pool \<Rightarrow> 'd drives \<Rightarrow> bytes \<Rightarrow> chunk \<Rightarrow> (perror, bytes) result" where
  "downloadChunk E p ds fileKey c = (let P = m_prims (e_mcfg E); i = c_Index c in
     case c_AccountID c of
       None \<Rightarrow> Inl (PUnavailable i)
     | Some aid \<Rightarrow> (case map_of (p_accounts p) aid of
         None \<Rightarrow> Inl (PUnavailable i)
       | Some a \<Rightarrow> (case acc_Store a of
           Inl e \<Rightarrow> Inl (PUnavailable i)
         | Inr h \<Rightarrow> (case rs_Download (e_rs E) (c_RemoteFileID c) (ds h) of
             Inl e \<Rightarrow> Inl (PDownload i e)
           | Inr rc \<Rightarrow> (case decrypt_buffer P fileKey rc of
               Inl e \<Rightarrow> Inl (PDecrypt i e)
             | Inr decrypted \<Rightarrow>
                (case (if c_CompressionAlgo c = CompressionFlate then DecompressBytes P decrypted else Inr decrypted) of
                   Inl e \<Rightarrow> Inl (PDecompress i e)
                 | Inr plaintext \<Rightarrow>
                    (let got = hex_encode (sha256_sum P plaintext) in
                     if got \<noteq> c_PlaintextSHA256 c then Inl (PChunkHash i got (c_PlaintextSHA256 c))
                     else Inr plaintext)))))))"

text \<open>The writer's loop: it drains the channels in order and stops at a closed one.\<close>
fun emit_chunks ::
  "(perror, bytes) result list \<Rightarrow> writer \<Rightarrow> ioerr option \<Rightarrow> bytes \<Rightarrow> writer \<times> ioerr option \<times> bytes"
where
  "emit_chunks [] w writeErr hashed = (w, writeErr, hashed)"
| "emit_chunks (Inl e # rest) w writeErr hashed = (w, writeErr, hashed)"
| "emit_chunks (Inr b # rest) w writeErr hashed =
     (if writeErr = None then
        (case wr_write b w of
           (Some e, w') \<Rightarrow> emit_chunks rest w' (Some e) hashed
         | (None, w') \<Rightarrow> emit_chunks rest w' None (hashed @ b))
      else emit_chunks rest w writeErr hashed)"

definition first_error :: "(nat \<Rightarrow> nat) \<Rightarrow> (perror, bytes) result list \<Rightarrow> perror option" where
  "first_error rank rs =
     (case List.map_filter (\<lambda>i. case rs ! i of Inl e \<Rightarrow> Some e | Inr b \<Rightarrow> None) (sort_key rank [0..<length rs]) of
        [] \<Rightarrow> None | e # _ \<Rightarrow> Some e)"

definition GetStream ::
  "'d penv \<Rightarrow> (nat \<Rightarrow> nat) \<Rightarrow> pool \<Rightarrow> string \<Rightarrow> 'd world \<Rightarrow> writer \<Rightarrow> (perror, unit) result \<times> 'd world \<times> writer"
where
  "GetStream E rank p virtualName w out =
     (case m_GetVirtualFile (p_userID p) virtualName (w_db w) of
        (Inl e, d1) \<Rightarrow> (Inl (m_err PManifest e), w\<lparr>w_db := d1\<rparr>, out)
      | (Inr vf, d1) \<Rightarrow> (case m_ListChunks (p_userID p) (vf_ID vf) d1 of
          (Inl e, d2) \<Rightarrow> (Inl (m_err PManifest e), w\<lparr>w_db := d2\<rparr>, out)
        | (Inr chunks, d2) \<Rightarrow>
           (if chunks = [] then (Inl (PNoChunks virtualName), w\<lparr>w_db := d2\<rparr>, out)
            else let
              results = map (downloadChunk E p (w_drives w) (vf_FileKey vf)) chunks;
              (out', writeErr, hashed) = emit_chunks results out None [];
              got = hex_encode (sha256_sum (m_prims (e_mcfg E)) hashed)
            in (case first_error rank results of
                  Some e \<Rightarrow> (Inl e, w\<lparr>w_db := d2\<rparr>, out')
                | None \<Rightarrow> (case writeErr of
                    Some e \<Rightarrow> (Inl (PWrite e), w\<lparr>w_db := d2\<rparr>, out')
                  | None \<Rightarrow> if got \<noteq> vf_ContentHash vf
                      then (Inl (PContentHash virtualName got (vf_ContentHash vf)), w\<lparr>w_db := d2\<rparr>, out')
                      else (Inr (), w\<lparr>w_db := d2\<rparr>, out'))))))"

subsection \<open>Listings\<close>

definition List_files :: "'d penv \<Rightarrow> pool \<Rightarrow> string \<Rightarrow> db \<Rightarrow> (perror, virtual_file list) result \<times> db" where
  "List_files E p pre d = (case m_ListVirtualFiles (e_mcfg E) (p_userID p) pre d of
     (Inl e, d') \<Rightarrow> (Inl (m_err PManifest e), d') | (Inr vs, d') \<Rightarrow> (Inr vs, d'))"

record file_info =
  fi_VirtualFile :: virtual_file
  fi_Accounts :: "string list"
  fi_Degraded :: bool

text \<open>The loop over the chunks of one file; a nil account ID has the empty key.\<close>
fun chunk_labels :: "pool \<Rightarrow> chunk list \<Rightarrow> string list \<Rightarrow> string list \<times> bool" where
  "chunk_labels p [] seen = ([], False)"
| "chunk_labels p (c # cs) seen =
     (let key = (case c_AccountID c of None \<Rightarrow> [] | Some i \<Rightarrow> i) in
      if key \<in> set seen then chunk_labels p cs seen
      else let (labels, degraded) = chunk_labels p cs (key # seen) in
        (case (case c_AccountID c of None \<Rightarrow> None | Some i \<Rightarrow> map_of (p_accounts p) i) of
           None \<Rightarrow> (''disconnected'' # labels, True)
         | Some a \<Rightarrow> (acc_Label a # labels, degraded)))"

fun list_infos :: "pool \<Rightarrow> virtual_file list \<Rightarrow> db \<Rightarrow> (perror, file_info list) result \<times> db" where
  "list_infos p [] d = (Inr [], d)"
| "list_infos p (f # fs) d = (case m_ListChunks (p_userID p) (vf_ID f) d of
     (Inl e, d') \<Rightarrow> (Inl (m_err PManifest e), d')
   | (Inr chunks, d') \<Rightarrow>
      (let (labels, degraded) = chunk_labels p chunks [] in
       case list_infos p fs d' of
         (Inl e, d'') \<Rightarrow> (Inl e, d'')
       | (Inr infos, d'') \<Rightarrow> (Inr (\<lparr>fi_VirtualFile = f, fi_Accounts = labels, fi_Degraded = degraded\<rparr> # infos), d'')))"

definition ListWithAccounts :: "'d penv \<Rightarrow> pool \<Rightarrow> string \<Rightarrow> db \<Rightarrow> (perror, file_info list) result \<times> db" where
  "ListWithAccounts E p pre d = (case m_ListVirtualFiles (e_mcfg E) (p_userID p) pre d of
     (Inl e, d') \<Rightarrow> (Inl (m_err PManifest e), d') | (Inr fs, d') \<Rightarrow> list_infos p fs d')"

subsection \<open>Remove\<close>

definition not_found :: "gerror \<Rightarrow> bool" where
  "not_found e = (case e of GNotFound x \<Rightarrow> True | _ \<Rightarrow> False)"

text \<open>Delete every reachable chunk, collecting the folder of each account.\<close>
fun purge_chunks ::
  "'d penv \<Rightarrow> pool \<Rightarrow> chunk list \<Rightarrow> (string \<times> string) list \<Rightarrow> 'd drives
     \<Rightarrow> (perror, (string \<times> string) list) result \<times> 'd drives"
where
  "purge_chunks E p [] folders ds = (Inr folders, ds)"
| "purge_chunks E p (c # cs) folders ds = (case c_AccountID c of
     None \<Rightarrow> purge_chunks E p cs folders ds
   | Some aid \<Rightarrow> (case map_of (p_accounts p) aid of
       None \<Rightarrow> purge_chunks E p cs folders ds
     | Some a \<Rightarrow> (case acc_Store a of
         Inl e \<Rightarrow> purge_chunks E p cs folders ds
       | Inr h \<Rightarrow> (case rs_Delete (e_rs E) (c_RemoteFileID c) (ds h) of
           (err, d) \<Rightarrow>
             (case err of
                Some e \<Rightarrow> if not_found e
                  then purge_chunks E p cs (AList.update aid (c_RemoteFolderID c) folders) (ds(h := d))
                  else (Inl (PDeleteChunk (c_Index c) e), ds(h := d))
              | None \<Rightarrow> purge_chunks E p cs (AList.update aid (c_RemoteFolderID c) folders) (ds(h := d)))))))"

text \<open>Delete the folders, in the order of an iteration over the map.\<close>
fun purge_folders ::
  "'d penv \<Rightarrow> pool \<Rightarrow> (string \<times> string) list \<Rightarrow> string list \<Rightarrow> 'd drives \<Rightarrow> perror option \<times> 'd drives"
where
  "purge_folders E p folders [] ds = (None, ds)"
| "purge_folders E p folders (aid # aids) ds =
     (let folderID = the (map_of folders aid); h = projr (acc_Store (the (map_of (p_accounts p) aid))) in
      case rs_Delete (e_rs E) folderID (ds h) of
        (None, d) \<Rightarrow> purge_folders E p folders aids (ds(h := d))
      | (Some e, d) \<Rightarrow> if not_found e then purge_folders E p folders aids (ds(h := d))
          else (Some (PDeleteFolder folderID e), ds(h := d)))"

definition Remove ::
  "'d penv \<Rightarrow> int \<Rightarrow> map_order \<Rightarrow> pool \<Rightarrow> string \<Rightarrow> bool \<Rightarrow> 'd world \<Rightarrow> (perror, unit) result \<times> 'd world"
where
  "Remove E now rank p virtualName purge w =
     (let delete_row = (\<lambda>ds d. case m_DeleteVirtualFile now (p_userID p) virtualName purge d of
            (Inl e, d') \<Rightarrow> (Inl (m_err PManifest e), \<lparr>w_db = d', w_drives = ds\<rparr>)
          | (Inr _, d') \<Rightarrow> (Inr (), \<lparr>w_db = d', w_drives = ds\<rparr>))
      in if \<not> purge then delete_row (w_drives w) (w_db w)
         else (case m_GetVirtualFile (p_userID p) virtualName (w_db w) of
             (Inl e, d1) \<Rightarrow> (Inl (m_err PManifest e), w\<lparr>w_db := d1\<rparr>)
           | (Inr vf, d1) \<Rightarrow> (case m_ListChunks (p_userID p) (vf_ID vf) d1 of
               (Inl e, d2) \<Rightarrow> (Inl (m_err PManifest e), w\<lparr>w_db := d2\<rparr>)
             | (Inr chunks, d2) \<Rightarrow> (case purge_chunks E p chunks [] (w_drives w) of
                 (Inl e, ds) \<Rightarrow> (Inl e, \<lparr>w_db = d2, w_drives = ds\<rparr>)
               | (Inr folders, ds) \<Rightarrow> (case purge_folders E p folders (map_iter rank (map fst folders)) ds of
                   (Some e, ds') \<Rightarrow> (Inl e, \<lparr>w_db = d2, w_drives = ds'\<rparr>)
                 | (None, ds') \<Rightarrow> delete_row ds' d2)))))"

subsection \<open>Local files\<close>

datatype file_err = POpenFile oserr | PCreateFile oserr | PStream perror

text \<open>\<open>Put\<close>: open and stat a local file; a directory opens, and fails when it is read.\<close>
definition pool_Put ::
  "'d penv \<Rightarrow> put_env \<Rightarrow> pool \<Rightarrow> fs \<Rightarrow> string \<Rightarrow> string \<Rightarrow> 'd world \<Rightarrow> (file_err, unit) result \<times> 'd world"
where
  "pool_Put E pe p F localPath virtualName w = (case os_Stat (fs_nodes F) localPath of
     Inl e \<Rightarrow> (Inl (POpenFile e), w)
   | Inr nd \<Rightarrow>
      (let (r, n) = (case nd of
             File b \<Rightarrow> (bytes_reader b, int (length b))
           | Dir \<Rightarrow> (\<lparr>rsegs = [], rfail = Some (ErrIO ''is a directory'')\<rparr>, fs_dirsize F))
       in case PutStream E pe p r n virtualName w of
            (Inl e, w') \<Rightarrow> (Inl (PStream e), w') | (Inr _, w') \<Rightarrow> (Inr (), w')))"

text \<open>\<open>Get\<close>: the destination is created, and truncated, before anything is known about the source.\<close>
definition pool_Get ::
  "'d penv \<Rightarrow> (nat \<Rightarrow> nat) \<Rightarrow> pool \<Rightarrow> fs \<Rightarrow> string \<Rightarrow> string \<Rightarrow> 'd world \<Rightarrow> (file_err, unit) result \<times> fs \<times> 'd world"
where
  "pool_Get E rank p F virtualName destPath w = (case os_Create (fs_nodes F) destPath of
     Inl e \<Rightarrow> (Inl (PCreateFile e), F, w)
   | Inr m \<Rightarrow> (case GetStream E rank p virtualName w \<lparr>wout = [], wcap = fs_cap F\<rparr> of
        (res, w', out) \<Rightarrow>
          (case res of Inl e \<Rightarrow> Inl (PStream e) | Inr _ \<Rightarrow> Inr (),
           F\<lparr>fs_nodes := m(path_of destPath \<mapsto> File (wout out))\<rparr>, w')))"

subsection \<open>The number of chunks\<close>

lemma i64_minus: "i64 (i64 a - b) = i64 (a - b)"
proof -
  have "(i64 a - b + 2 ^ 63) mod 2 ^ 64 = ((a + 2 ^ 63) mod 2 ^ 64 - b) mod 2 ^ 64"
    by (simp add: i64_def)
  also have "\<dots> = (a + 2 ^ 63 - b) mod 2 ^ 64" by (rule mod_diff_left_eq)
  also have "\<dots> = (a - b + 2 ^ 63) mod 2 ^ 64" by (simp add: algebra_simps)
  finally show ?thesis unfolding i64_def [of "i64 a - b"] i64_def [of "a - b"] by simp
qed

lemma num_chunks_eq:
  assumes "0 < cs" "0 < n" "n + cs - 1 \<le> max_i64"
  shows "num_chunks n cs = (n + cs - 1) div cs"
proof -
  have "i64 (n + cs - 1) = n + cs - 1"
    using assms by (intro i64_id) (simp add: in_i64_def max_i64_def)
  with assms show ?thesis by (simp add: num_chunks_def go_quot_nonneg i64_minus)
qed

lemma num_chunks_cover:
  assumes "0 < cs" "0 \<le> n" "n + cs - 1 \<le> max_i64"
  shows "1 \<le> num_chunks n cs \<and> n \<le> num_chunks n cs * cs \<and> (0 < n \<longrightarrow> num_chunks n cs * cs < n + cs)"
proof (cases "0 < n")
  case True
  define q where "q = (n + cs - 1) div cs"
  define m where "m = (n + cs - 1) mod cs"
  have qm: "q * cs + m = n + cs - 1" unfolding q_def m_def by (rule div_mult_mod_eq)
  have m: "0 \<le> m" "m < cs" using assms(1) by (simp_all add: m_def)
  then have "n \<le> q * cs" "q * cs < n + cs" using qm by linarith+
  moreover from this(1) True assms(1) have "0 < q" by (metis less_le_trans zero_less_mult_pos2)
  ultimately show ?thesis using num_chunks_eq [OF assms(1) True assms(3)] q_def by simp
next
  case False
  with assms show ?thesis by (simp add: num_chunks_def)
qed

lemma chunkSize_pos: "0 < chunkSize p"
  by (simp add: chunkSize_def DefaultChunkSize_def)

subsection \<open>Downloading what was uploaded\<close>

text \<open>The first \<open>Read\<close> of every body delivers the IV (the assumption of \<open>CopyDecrypt\<close>).\<close>
definition whole_iv :: "'d remote_store \<Rightarrow> 'd drives \<Rightarrow> bool" where
  "whole_iv rs ds \<longleftrightarrow> (\<forall>h x r. rs_Download rs x (ds h) = Inr r \<longrightarrow> 16 \<le> length (content r) \<longrightarrow>
     (\<exists>s ss. rsegs r = s # ss \<and> 16 \<le> length s))"

lemma payload_restores:
  assumes "flate_ok P" "chunk_payload P b = (payload, algo)"
  shows "(if algo = CompressionFlate then DecompressBytes P payload else Inr payload) = Inr b"
  using assms by (auto simp: chunk_payload_def CompressBytes_def DecompressBytes_def flate_ok_def split: if_splits)

lemma downloadChunk_good:
  assumes good: "uc_good E ivs key t ds i uc" and row: "stored_row now u vfid uc c"
    and "usable p (t_acc t)" "flate_ok (m_prims (e_mcfg E))" "whole_iv (e_rs E) ds"
  shows "downloadChunk E p ds key c = Inr (t_plain t)"
proof -
  let ?P = "m_prims (e_mcfg E)"
  obtain h where h: "acc_Store (t_acc t) = Inr h" "task_handle t = h"
    and acc: "map_of (p_accounts p) (acc_ID (t_acc t)) = Some (t_acc t)"
    using assms(3) by (auto simp: usable_def task_handle_def)
  obtain payload algo where pl: "chunk_payload ?P (t_plain t) = (payload, algo)" by (metis surj_pair)
  obtain ct r where ct: "encrypt_buffer ?P key (ivs i) payload = Inr ct"
    and r: "rs_Download (e_rs E) (uc_remoteFileID uc) (ds h) = Inr r" "content r = ct" "end_err r = EOF"
    using good h pl by (auto simp: uc_good_def seal_chunk_def rs_holds_def split: sum.splits)
  have "16 \<le> length (content r)" using aes_ctr.enc_length [OF ct] r(2) by simp
  then obtain s ss where "rsegs r = s # ss" "16 \<le> length s" using assms(5) r(1) unfolding whole_iv_def by blast
  then have dec: "decrypt_buffer ?P key r = Inr payload" using aes_ctr.dec_enc [OF ct r(2,3)] by blast
  have c: "c_AccountID c = Some (acc_ID (t_acc t))" "c_RemoteFileID c = uc_remoteFileID uc" "c_CompressionAlgo c = algo"
    "c_PlaintextSHA256 c = hex_encode (sha256_sum ?P (t_plain t))"
    using stored_rowD [OF row] good pl by (simp_all add: uc_good_def)
  show ?thesis
    using payload_restores [OF assms(4) pl] by (simp add: downloadChunk_def c acc h r(1) dec Let_def)
qed

lemma emit_chunks_all:
  "wcap w = None \<Longrightarrow> emit_chunks (map Inr bs) w None h = (w\<lparr>wout := wout w @ concat bs\<rparr>, None, h @ concat bs)"
  by (induction bs arbitrary: w h) simp_all

lemma emit_chunks_writeErr: "emit_chunks rs w (Some e) h = (w', we, h') \<Longrightarrow> we = Some e"
proof (induction rs arbitrary: w)
  case (Cons r rs)
  then show ?case by (cases r) auto
qed simp

lemma emit_chunks_success:
  "emit_chunks (map Inr bs) w None h = (w', None, h') \<Longrightarrow> wout w' = wout w @ concat bs \<and> h' = h @ concat bs"
proof (induction bs arbitrary: w h)
  case (Cons b bs)
  obtain e w1 where w1: "wr_write b w = (e, w1)" by (metis surj_pair)
  show ?case
  proof (cases e)
    case None
    then have "wout w1 = wout w @ b" using wr_write_ok [of b w] w1 by simp
    with Cons.IH [of w1 "h @ b"] Cons.prems w1 None show ?thesis by simp
  next
    case (Some x)
    with Cons.prems w1 emit_chunks_writeErr show ?thesis by fastforce
  qed
qed simp

lemma first_error_None_iff: "first_error rank rs = None \<longleftrightarrow> (\<forall>r \<in> set rs. \<exists>b. r = Inr b)"
proof -
  let ?f = "\<lambda>i. case rs ! i of Inl e \<Rightarrow> Some e | Inr b \<Rightarrow> None"
  have "first_error rank rs = None \<longleftrightarrow> set (List.map_filter ?f (sort_key rank [0..<length rs])) = {}"
    by (simp add: first_error_def split: list.splits)
  also have "\<dots> \<longleftrightarrow> (\<forall>i < length rs. ?f i = None)"
    unfolding set_map_filter by (simp del: not_None_eq flip: not_None_eq) (metis (no_types, lifting) atLeastLessThan_iff le0 option.exhaust option.simps(3))
  also have "\<dots> \<longleftrightarrow> (\<forall>i < length rs. \<exists>b. rs ! i = Inr b)"
    by (intro all_cong) (simp split: sum.splits)
  finally show ?thesis unfolding all_set_conv_all_nth .
qed

lemma sort_key_sorted: "sorted (map f xs) \<Longrightarrow> sort_key f xs = xs"
  by (induction xs) (auto simp: insort_is_Cons)

text \<open>A file whose rows describe chunks that can be downloaded is delivered whole.\<close>
lemma GetStream_ok:
  assumes "db_ok (w_db w)" "db_faults (w_db w) = []" "p_userID p \<noteq> []"
    and vf: "vf \<in> set (db_vfiles (w_db w))" "vf_UserID vf = p_userID p" "vf_Name vf = name"
    and rows: "filter (\<lambda>c. c_UserID c = p_userID p \<and> c_VirtualFileID c = vf_ID vf) (db_chunks (w_db w)) = rows"
      "rows \<noteq> []" "sorted (map c_Index rows)"
    and dl: "map (downloadChunk E p (w_drives w) (vf_FileKey vf)) rows = map Inr bs"
    and hash: "vf_ContentHash vf = hex_encode (sha256_sum (m_prims (e_mcfg E)) (concat bs))"
    and "wcap out = None"
  shows "GetStream E rank p name w out = (Inr (), w, out\<lparr>wout := wout out @ concat bs\<rparr>)"
proof -
  have "m_GetVirtualFile (p_userID p) name (w_db w) = (Inr vf, w_db w)"
    using assms(1-3) vf by (intro m_GetVirtualFile_found)
  moreover have "m_ListChunks (p_userID p) (vf_ID vf) (w_db w) = (Inr rows, w_db w)"
    using assms(2,3) rows sort_key_sorted [OF rows(3)] by (simp add: m_ListChunks_eq)
  moreover have "first_error rank (map Inr bs) = None" by (auto simp: first_error_None_iff)
  ultimately show ?thesis
    using rows(2) hash assms(12) by (simp add: GetStream_def dl emit_chunks_all)
qed

text \<open>
  Everything a successful \<open>PutStream\<close> leaves in the database: one complete file row with fresh
  identifier, whose chunk rows are those of the uploads, in order.
\<close>
lemma put_records:
  assumes "db_ok d" "db_faults d = []" "u \<noteq> []"
    and create: "m_CreateVirtualFile now u vf d = (Inr row, d1)"
    and rec: "record_chunks now u (vf_ID row) ucs d1 = (None, d2)"
    and set: "m_SetVirtualFileStatus now u (vf_ID row) StatusComplete d2 = (Inr (), d3)"
  obtains v rows where "v \<in> set (db_vfiles d3)" "vf_UserID v = u" "vf_Name v = vf_Name vf"
    "vf_FileKey v = vf_FileKey vf" "vf_ContentHash v = vf_ContentHash vf" "vf_Status v = StatusComplete" "vf_Size v = vf_Size vf"
    and "filter (\<lambda>c. c_UserID c = u \<and> c_VirtualFileID c = vf_ID v) (db_chunks d3) = rows"
    and "list_all2 (stored_row now u (vf_ID v)) ucs rows" "db_ok d3" "db_faults d3 = []"
    and "db_accounts d3 = db_accounts d" "db_chunks d3 = db_chunks d @ rows"
    and "vf_ID v \<notin> vf_ID ` set (db_vfiles d)" "\<forall>x \<in> set (db_vfiles d). x \<in> set (db_vfiles d3)"
proof -
  have ins: "row \<in> set (db_vfiles d1)" "vf_UserID row = u" "vf_Name row = vf_Name vf" "vf_FileKey row = vf_FileKey vf"
    "vf_ContentHash row = vf_ContentHash vf" "vf_Size row = vf_Size vf" "vf_ID row = db_vfseq d + 1"
    "db_chunks d1 = db_chunks d" "db_accounts d1 = db_accounts d" "db_faults d1 = []" "db_vfiles d1 = db_vfiles d @ [row]"
    using create assms(2) by (auto simp: m_CreateVirtualFile_def sql_insert_vfile_def Let_def split: if_splits)
  have ok1: "db_ok d1"
    using m_CreateVirtualFile_ok [OF assms(1), of now u vf] create by simp
  obtain rows where rows: "list_all2 (stored_row now u (vf_ID row)) ucs rows" "db_chunks d2 = db_chunks d1 @ rows"
    "db_ok d2" "db_vfiles d2 = db_vfiles d1" "db_accounts d2 = db_accounts d1" "db_faults d2 = []"
    using record_chunks_success [OF rec ins(10) ok1] by blast
  let ?Q = "\<lambda>v. vf_UserID v = u \<and> vf_ID v = vf_ID row" and ?f = "\<lambda>v. v\<lparr>vf_Status := StatusComplete, vf_ModifiedAt := now\<rparr>"
  have d3: "d3 = snd (sql_update_vfiles ?Q ?f d2)"
    using set rows(6) assms(3) by (simp add: m_SetVirtualFileStatus_def scoped_def sql_update_vfiles_def)
  have ok3: "db_ok d3" unfolding d3 by (rule sql_update_vfiles_ok [OF rows(3)]) simp_all
  have tabs: "db_vfiles d3 = map (\<lambda>v. if ?Q v then ?f v else v) (db_vfiles d @ [row])" "db_chunks d3 = db_chunks d @ rows"
    "db_accounts d3 = db_accounts d" "db_faults d3 = []"
    using rows ins by (simp_all add: d3 sql_update_vfiles_def)
  have new: "vf_ID x \<noteq> vf_ID row" if "x \<in> set (db_vfiles d)" for x
    using db_okD(9) [OF assms(1) that] ins(7) by auto
  have "filter (\<lambda>c. c_UserID c = u \<and> c_VirtualFileID c = vf_ID row) (db_chunks d) = []"
    using db_okD(10) [OF assms(1)] new by (simp add: filter_empty_conv) (metis imageE)
  moreover have "filter (\<lambda>c. c_UserID c = u \<and> c_VirtualFileID c = vf_ID row) rows = rows"
    using rows(1) stored_rowD(1,2) by (simp add: filter_id_conv list_all2_conv_all_nth all_set_conv_all_nth) metis
  ultimately have "filter (\<lambda>c. c_UserID c = u \<and> c_VirtualFileID c = vf_ID (?f row)) (db_chunks d3) = rows"
    by (simp add: tabs(2))
  moreover have "?f row \<in> set (db_vfiles d3)" using ins(2) by (simp add: tabs(1))
  moreover have "\<forall>x \<in> set (db_vfiles d). x \<in> set (db_vfiles d3)" using new by (force simp: tabs(1))
  moreover have "vf_ID (?f row) \<notin> vf_ID ` set (db_vfiles d)"
    using new by (simp add: image_iff) metis
  ultimately show thesis
    using that [of "?f row" rows] ins rows(1) ok3 tabs(2-4) by simp
qed

lemma stored_rows_sorted:
  assumes "list_all2 (stored_row now u v) ucs rows" "\<forall>i < length ucs. uc_index (ucs ! i) = i"
  shows "sorted (map c_Index rows)"
proof -
  have "map c_Index rows ! i = int i" if "i < length rows" for i
    using assms that stored_rowD(3) by (auto simp: list_all2_conv_all_nth)
  then show ?thesis by (simp add: sorted_iff_nth_mono)
qed

text \<open>
  A file is stored with some content: it has a row, its chunk rows are those of uploads whose remote
  files the drives hold, on accounts the pool can use, and the pieces make up the content.
\<close>
definition stored :: "'d penv \<Rightarrow> pool \<Rightarrow> 'd world \<Rightarrow> string \<Rightarrow> bytes \<Rightarrow> bool" where
  "stored E p w name b \<longleftrightarrow> (\<exists>v rows ts ucs ivs now. v \<in> set (db_vfiles (w_db w)) \<and> vf_UserID v = p_userID p \<and> vf_Name v = name
     \<and> filter (\<lambda>c. c_UserID c = p_userID p \<and> c_VirtualFileID c = vf_ID v) (db_chunks (w_db w)) = rows \<and> rows \<noteq> []
     \<and> list_all2 (stored_row now (p_userID p) (vf_ID v)) ucs rows \<and> length ucs = length ts
     \<and> (\<forall>i < length ts. uc_good E ivs (vf_FileKey v) (ts ! i) (w_drives w) i (ucs ! i)) \<and> (\<forall>t \<in> set ts. usable p (t_acc t))
     \<and> b = concat (map t_plain ts) \<and> vf_ContentHash v = hex_encode (sha256_sum (m_prims (e_mcfg E)) b))"

text \<open>A stored file is delivered whole, in any completion order of its downloads.\<close>
lemma stored_get:
  assumes "stored E p w name b" "flate_ok (m_prims (e_mcfg E))" "db_ok (w_db w)" "db_faults (w_db w) = []" "p_userID p \<noteq> []"
    and "whole_iv (e_rs E) (w_drives w)" "wcap out = None"
  shows "GetStream E rank p name w out = (Inr (), w, out\<lparr>wout := wout out @ b\<rparr>)"
proof -
  obtain v rows ts ucs ivs now where v: "v \<in> set (db_vfiles (w_db w))" "vf_UserID v = p_userID p" "vf_Name v = name"
    and rows: "filter (\<lambda>c. c_UserID c = p_userID p \<and> c_VirtualFileID c = vf_ID v) (db_chunks (w_db w)) = rows" "rows \<noteq> []"
      "list_all2 (stored_row now (p_userID p) (vf_ID v)) ucs rows" and len: "length ucs = length ts"
    and good: "\<forall>i < length ts. uc_good E ivs (vf_FileKey v) (ts ! i) (w_drives w) i (ucs ! i)" "\<forall>t \<in> set ts. usable p (t_acc t)"
    and b: "b = concat (map t_plain ts)" "vf_ContentHash v = hex_encode (sha256_sum (m_prims (e_mcfg E)) b)"
    using assms(1) unfolding stored_def by blast
  have lr: "length rows = length ts" using rows(3) len by (simp add: list_all2_lengthD)
  have "map (downloadChunk E p (w_drives w) (vf_FileKey v)) rows = map Inr (map t_plain ts)"
  proof (rule nth_equalityI)
    fix i assume "i < length (map (downloadChunk E p (w_drives w) (vf_FileKey v)) rows)"
    with lr have i: "i < length ts" by simp
    then have "stored_row now (p_userID p) (vf_ID v) (ucs ! i) (rows ! i)" using rows(3) len by (simp add: list_all2_conv_all_nth)
    from downloadChunk_good [OF good(1) [rule_format, OF i] this] good(2) i lr assms(2,6)
    show "map (downloadChunk E p (w_drives w) (vf_FileKey v)) rows ! i = map Inr (map t_plain ts) ! i" by simp
  qed (simp add: lr)
  moreover have "sorted (map c_Index rows)" using stored_rows_sorted [OF rows(3)] good(1) len by (simp add: uc_good_def)
  ultimately show ?thesis using GetStream_ok [OF assms(3-5) v rows(1,2)] b assms(7) by simp
qed

text \<open>A successful put stores the announced bytes of its source.\<close>
lemma put_stored:
  assumes "remote_contract (e_rs E) md5"
    and "db_ok (w_db w)" "db_faults (w_db w) = []" "p_userID p \<noteq> []" "ids_match p"
    and "0 \<le> n" "n + chunkSize p - 1 \<le> max_i64"
    and put: "PutStream E pe p r n name w = (Inr (), w')"
  shows "stored E p w' name (take (nat n) (content r)) \<and> n \<le> int (length (content r)) \<and> db_ok (w_db w') \<and> db_faults (w_db w') = []"
proof -
  let ?cs = "chunkSize p" and ?key = "NewEncryptionKey (pe_key pe)"
  obtain pl ts hashed ucs vf row d1 d2 where
    plan: "plan_loop p (pe_ranks pe) ?cs (nat (num_chunks n ?cs)) 0 n r pl = (ts, hashed, None)"
    and len: "length ucs = length ts" and use: "\<forall>t \<in> set ts. usable p (t_acc t)"
    and good: "\<forall>i < length ts. uc_good E (pe_ivs pe) ?key (ts ! i) (w_drives w') i (ucs ! i)"
    and vf: "vf_Name vf = name" "vf_FileKey vf = ?key"
      "vf_ContentHash vf = hex_encode (sha256_sum (m_prims (e_mcfg E)) hashed)"
    and db: "m_CreateVirtualFile (pe_now pe) (p_userID p) vf (w_db w) = (Inr row, d1)"
      "record_chunks (pe_now pe) (p_userID p) (vf_ID row) ucs d1 = (None, d2)"
      "m_SetVirtualFileStatus (pe_now pe) (p_userID p) (vf_ID row) StatusComplete d2 = (Inr (), w_db w')"
    by (rule remote_contract.PutStream_success [OF assms(1) refl assms(5) put]) blast
  have N: "1 \<le> num_chunks n ?cs" "n \<le> int (nat (num_chunks n ?cs)) * ?cs"
    using num_chunks_cover [OF chunkSize_pos assms(6,7)] by simp_all
  note full = plan_loop_complete [OF plan chunkSize_pos assms(6) N(2)]
  obtain v rows where v: "v \<in> set (db_vfiles (w_db w'))" "vf_UserID v = p_userID p" "vf_Name v = vf_Name vf"
    "vf_FileKey v = vf_FileKey vf" "vf_ContentHash v = vf_ContentHash vf"
    and rows: "filter (\<lambda>c. c_UserID c = p_userID p \<and> c_VirtualFileID c = vf_ID v) (db_chunks (w_db w')) = rows"
      "list_all2 (stored_row (pe_now pe) (p_userID p) (vf_ID v)) ucs rows"
    and ok: "db_ok (w_db w')" "db_faults (w_db w') = []"
    by (rule put_records [OF assms(2-4) db]) blast
  have "rows \<noteq> []" using rows(2) len full N(1) by auto
  with v rows len good use vf full have "stored E p w' name (take (nat n) (content r))"
    unfolding stored_def
    by (intro exI [of _ v] exI [of _ rows] exI [of _ ts] exI [of _ ucs] exI [of _ "pe_ivs pe"] exI [of _ "pe_now pe"]) simp
  moreover have "n \<le> int (length (content r))"
    using full assms(6) by (metis length_take min.cobounded1 nat_le_iff nat_int int_nat_eq)
  ultimately show ?thesis using ok by simp
qed

text \<open>Getting a file after it was put; the theorem on round trips below rests on it.\<close>
lemma get_after_put:
  assumes "remote_contract (e_rs E) md5" "flate_ok (m_prims (e_mcfg E))"
    and "db_ok (w_db w)" "db_faults (w_db w) = []" "p_userID p \<noteq> []" "ids_match p"
    and "0 \<le> n" "n + chunkSize p - 1 \<le> max_i64"
    and put: "PutStream E pe p r n name w = (Inr (), w')"
    and "whole_iv (e_rs E) (w_drives w')" "wcap out = None"
  shows "GetStream E rank p name w' out = (Inr (), w', out\<lparr>wout := wout out @ take (nat n) (content r)\<rparr>)
    \<and> n \<le> int (length (content r))"
  using put_stored [OF assms(1,3-9)] stored_get assms(2,5,10,11) by blast

subsection \<open>Properties\<close>

text \<open>
  C1. What is put can be got back. For every source, chunk size, placement, random choice and
  interleaving of the upload goroutines: if \<open>PutStream\<close> returns nil, \<open>GetStream\<close> of the same name
  returns nil, whatever the order its downloads finish in, and has written exactly the announced
  number of bytes of the source.
\<close>
theorem put_get_roundtrip:
  assumes "remote_contract (e_rs E) md5" "flate_ok (m_prims (e_mcfg E))"
    and "db_ok (w_db w)" "db_faults (w_db w) = []" "p_userID p \<noteq> []" "ids_match p"
    and "0 \<le> n" "n + chunkSize p - 1 \<le> max_i64"
    and "PutStream E pe p r n name w = (Inr (), w')"
    and "whole_iv (e_rs E) (w_drives w')" "wcap out = None"
  shows "GetStream E rank p name w' out = (Inr (), w', out\<lparr>wout := wout out @ take (nat n) (content r)\<rparr>)
    \<and> n \<le> int (length (content r))"
  by (rule get_after_put [OF assms])




text \<open>The rows a successful \<open>GetStream\<close> has read, and the chunks it has downloaded.\<close>
lemma GetStream_reads:
  assumes "GetStream E rank p name w out = (Inr (), w', out')"
  obtains vf d1 chunks d2 bs where "m_GetVirtualFile (p_userID p) name (w_db w) = (Inr vf, d1)"
    "m_ListChunks (p_userID p) (vf_ID vf) d1 = (Inr chunks, d2)" "chunks \<noteq> []"
    "map (downloadChunk E p (w_drives w) (vf_FileKey vf)) chunks = map Inr bs"
    "hex_encode (sha256_sum (m_prims (e_mcfg E)) (concat bs)) = vf_ContentHash vf" "wout out' = wout out @ concat bs"
proof -
  obtain vf d1 where vf: "m_GetVirtualFile (p_userID p) name (w_db w) = (Inr vf, d1)"
    using assms by (auto simp: GetStream_def split: prod.splits sum.splits)
  obtain chunks d2 where ch: "m_ListChunks (p_userID p) (vf_ID vf) d1 = (Inr chunks, d2)" "chunks \<noteq> []"
    using assms vf by (auto simp: GetStream_def split: prod.splits sum.splits if_splits)
  let ?rs = "map (downloadChunk E p (w_drives w) (vf_FileKey vf)) chunks"
  obtain o' we hashed where em: "emit_chunks ?rs out None [] = (o', we, hashed)" by (metis surj_pair)
  have fe: "first_error rank ?rs = None" and we: "we = None" and out': "out' = o'"
    and hash: "hex_encode (sha256_sum (m_prims (e_mcfg E)) hashed) = vf_ContentHash vf"
    using assms vf ch em by (auto simp: GetStream_def Let_def split: if_splits option.splits)
  define bs where "bs = map (\<lambda>c. projr (downloadChunk E p (w_drives w) (vf_FileKey vf) c)) chunks"
  have rs: "?rs = map Inr bs"
    using fe unfolding first_error_None_iff bs_def by (auto simp: list_eq_iff_nth_eq) (metis nth_mem sum.sel(2))
  have "wout o' = wout out @ concat bs \<and> hashed = concat bs"
    using emit_chunks_success [of bs out "[]" o' hashed] em we rs by simp
  with vf ch rs hash out' show thesis by (intro that) simp_all
qed

lemma downloadChunk_hash:
  "downloadChunk E p ds key c = Inr b \<Longrightarrow> hex_encode (sha256_sum (m_prims (e_mcfg E)) b) = c_PlaintextSHA256 c"
  by (auto simp: downloadChunk_def Let_def split: option.splits sum.splits if_splits)

text \<open>
  C8. A download that reports success delivered authentic data: what was written after the bytes
  already in the writer has the recorded content hash, and is the concatenation of the chunks,
  each of which has its recorded hash.
\<close>
theorem get_success_integrity:
  assumes "GetStream E rank p name w out = (Inr (), w', out')"
  shows "\<exists>vf d1 chunks bs. m_GetVirtualFile (p_userID p) name (w_db w) = (Inr vf, d1)
    \<and> fst (m_ListChunks (p_userID p) (vf_ID vf) d1) = Inr chunks \<and> length bs = length chunks
    \<and> wout out' = wout out @ concat bs
    \<and> hex_encode (sha256_sum (m_prims (e_mcfg E)) (concat bs)) = vf_ContentHash vf
    \<and> (\<forall>i < length chunks. downloadChunk E p (w_drives w) (vf_FileKey vf) (chunks ! i) = Inr (bs ! i)
         \<and> hex_encode (sha256_sum (m_prims (e_mcfg E)) (bs ! i)) = c_PlaintextSHA256 (chunks ! i))"
proof -
  obtain vf d1 chunks d2 bs where r: "m_GetVirtualFile (p_userID p) name (w_db w) = (Inr vf, d1)"
    "m_ListChunks (p_userID p) (vf_ID vf) d1 = (Inr chunks, d2)"
    "map (downloadChunk E p (w_drives w) (vf_FileKey vf)) chunks = map Inr bs"
    "hex_encode (sha256_sum (m_prims (e_mcfg E)) (concat bs)) = vf_ContentHash vf" "wout out' = wout out @ concat bs"
    using GetStream_reads [OF assms] .
  have len: "length bs = length chunks" using arg_cong [OF r(3), of length] by simp
  have "downloadChunk E p (w_drives w) (vf_FileKey vf) (chunks ! i) = Inr (bs ! i)" if "i < length chunks" for i
    using arg_cong [OF r(3), of "\<lambda>l. l ! i"] that len by simp
  with r len show ?thesis
    by (intro exI [of _ vf] exI [of _ d1] exI [of _ chunks] exI [of _ bs]) (auto intro: downloadChunk_hash)
qed

subsection \<open>Witnesses\<close>

text \<open>One way the environment may choose: the goroutine of the second chunk moves first.\<close>
definition toy_pe :: put_env where
  "toy_pe = \<lparr>pe_key = toy_rnd, pe_id = toy_rnd, pe_ivs = (\<lambda>i. toy_rnd), pe_now = 5, pe_order = length,
     pe_ranks = (\<lambda>i. length), pe_sched = [1, 0]\<rparr>"

lemma toy_contract: "precise_remote (e_rs toy_penv) (md5_sum (m_prims (e_mcfg toy_penv)))"
  using mem_store_precise [of "md5_sum toy_prims"] by (simp add: toy_penv_def toy_rs_def toy_mcfg_def)

lemma toy_accepting: "accepting (e_rs toy_penv) (\<lambda>d. md_refuse d = [])"
  by (auto simp: accepting_def toy_penv_def toy_rs_def client_store_def client_EnsureFolder_def client_Upload_def
      mem_service_def mem_add_def Let_def split: list.splits)

lemma toy_whole_iv: "whole_iv (e_rs toy_penv) ds"
  by (auto simp: whole_iv_def toy_penv_def toy_rs_def client_store_def client_Download_def mem_service_def
      mem_get_def bytes_reader_def mk_reader_def content_def split: option.splits if_splits)

lemma toy_flate: "flate_ok (m_prims (e_mcfg toy_penv))"
  using flate_ok_toy by (simp add: toy_penv_def toy_mcfg_def)

lemma toy_chunkSize: "chunkSize toy_pool = 2"
  by (simp add: chunkSize_def toy_pool_def)

lemma toy_candidates: "a \<in> set (candidates toy_pool rank) \<longleftrightarrow> a = \<lparr>acc_ID = ''A'', acc_Label = ''work'', acc_Store = Inr 0\<rparr>"
  by (simp add: candidates_def toy_pool_def map_iter_def)

lemma toy_quota: "live_quota (e_rs toy_penv) toy_drives \<lparr>acc_ID = ''A'', acc_Label = ''work'', acc_Store = Inr 0\<rparr> =
    Some \<lparr>Limit = 10, Usage = 0, Unlimited = False, PhotoURL = []\<rparr>"
  by (simp add: toy_penv_def live_quota_def toy_rs_def toy_drives_def client_Quota_def mem_service_def
      mem_usage_def Let_def)

lemma toy_clean: "clean_deletes (e_rs toy_penv)"
  by (auto simp: clean_deletes_def toy_penv_def toy_rs_def client_store_def client_Delete_def mem_service_def
      mem_delete_def isNotFoundErr_def StatusNotFound_def split: option.splits)

lemma toy_facts:
  "p_userID toy_pool \<in> u_ID ` set (db_users toy_db2)" "[] \<notin> fst ` set (p_accounts toy_pool)"
  "content (bytes_reader bs) = bs" "\<forall>h. md_refuse (toy_drives h) = []"
  "Available \<lparr>Limit = 10, Usage = 0, Unlimited = False, PhotoURL = []\<rparr> = 10"
  "(''u'', ''new'') \<notin> (\<lambda>v. (vf_UserID v, vf_Name v)) ` set (db_vfiles toy_db2)"
  by (simp_all add: toy_drives_def toy_db2_def toy_user_def toy_pool_def toy_vfile_def Available_def bytes_reader_def
      mk_reader_def content_def i64_def)

lemma toy_num_chunks: "0 \<le> num_chunks 3 (chunkSize toy_pool)"
  using num_chunks_cover [of 2 3] by (simp add: toy_chunkSize max_i64_def)

lemma toy_put_ok: "\<exists>w'. PutStream toy_penv toy_pe toy_pool (bytes_reader [1, 2, 3]) 3 ''new'' toy_world = (Inr (), w')"
  by (rule remote_contract.PutStream_total [OF precise_remote.axioms(1) [OF toy_contract] refl refl toy_accepting,
      where q = "\<lparr>Limit = 10, Usage = 0, Unlimited = False, PhotoURL = []\<rparr>"
      and a = "\<lparr>acc_ID = ''A'', acc_Label = ''work'', acc_Store = Inr 0\<rparr>"])
    (use toy_db2_ok toy_sync toy_num_chunks toy_facts in \<open>simp_all add: toy_candidates toy_quota\<close>)

theorem put_get_roundtrip_witness:
  "\<exists>w'. PutStream toy_penv toy_pe toy_pool (bytes_reader [1, 2, 3]) 3 ''new'' toy_world = (Inr (), w')
     \<and> GetStream toy_penv (\<lambda>i. 0) toy_pool ''new'' w' empty_buffer = (Inr (), w', empty_buffer\<lparr>wout := [1, 2, 3]\<rparr>)"
proof -
  obtain w' where w': "PutStream toy_penv toy_pe toy_pool (bytes_reader [1, 2, 3]) 3 ''new'' toy_world = (Inr (), w')"
    using toy_put_ok by blast
  have "take (nat 3) (content (bytes_reader [1, 2, 3])) = [1, 2, 3]" by (simp add: toy_facts)
  with put_get_roundtrip [OF precise_remote.axioms(1) [OF toy_contract] toy_flate _ _ _ _ _ _ w' toy_whole_iv,
      of empty_buffer "\<lambda>i. 0"] w' toy_db2_ok(1) pool_sync_ids [OF toy_sync]
  show ?thesis by (simp add: toy_chunkSize max_i64_def empty_buffer_def)
qed


text \<open>A source with too few bytes: the first chunk is uploaded, the second cannot be read.\<close>
lemma toy_put_short:
  "\<exists>e w'. PutStream toy_penv toy_pe toy_pool (bytes_reader [1, 2]) 3 ''new'' toy_world = (Inl e, w')
     \<and> w_db w' = toy_db2"
proof -
  let ?N = "num_chunks 3 (chunkSize toy_pool)"
  obtain pl where pl: "choose_placer toy_penv toy_drives (candidates toy_pool (pe_order toy_pe)) ?N = Inr pl"
    using choose_placer_room [OF pool_sync_ids [OF toy_sync] toy_facts(2) _ toy_quota, of "pe_order toy_pe" 3 ?N]
    by (auto simp: toy_candidates toy_facts)
  obtain ts hashed err where plan:
    "plan_loop toy_pool (pe_ranks toy_pe) (chunkSize toy_pool) (nat ?N) 0 3 (bytes_reader [1, 2]) pl = (ts, hashed, err)"
    by (metis surj_pair)
  have "err \<noteq> None"
  proof
    assume "err = None"
    with plan_loop_complete [OF plan [unfolded \<open>err = None\<close>]] num_chunks_cover [of 2 3]
    show False by (auto simp: toy_chunkSize max_i64_def toy_facts)
  qed
  then show ?thesis
    using pl plan toy_num_chunks by (auto simp: PutStream_def Let_def finish_put_def)
qed



theorem get_success_integrity_witness:
  "\<exists>w' vf bs. GetStream toy_penv (\<lambda>i. 0) toy_pool ''new'' w' empty_buffer = (Inr (), w', empty_buffer\<lparr>wout := [1, 2, 3]\<rparr>)
     \<and> fst (m_GetVirtualFile ''u'' ''new'' (w_db w')) = Inr vf \<and> concat bs = [1, 2, 3]
     \<and> hex_encode (sha256_sum toy_prims (concat bs)) = vf_ContentHash vf"
proof -
  obtain w' where w': "PutStream toy_penv toy_pe toy_pool (bytes_reader [1, 2, 3]) 3 ''new'' toy_world = (Inr (), w')"
    using toy_put_ok by blast
  have "take (nat 3) (content (bytes_reader [1, 2, 3])) = [1, 2, 3]" by (simp add: toy_facts)
  with get_after_put [OF precise_remote.axioms(1) [OF toy_contract] toy_flate _ _ _ _ _ _ w' toy_whole_iv,
      of empty_buffer "\<lambda>i. 0"] toy_db2_ok(1) pool_sync_ids [OF toy_sync]
  have g: "GetStream toy_penv (\<lambda>i. 0) toy_pool ''new'' w' empty_buffer = (Inr (), w', empty_buffer\<lparr>wout := [1, 2, 3]\<rparr>)"
    by (simp add: toy_chunkSize max_i64_def empty_buffer_def)
  obtain vf d1 bs where "m_GetVirtualFile ''u'' ''new'' (w_db w') = (Inr vf, d1)" "[1, 2, 3] = concat bs"
    "hex_encode (sha256_sum (m_prims (e_mcfg toy_penv)) (concat bs)) = vf_ContentHash vf"
    using get_success_integrity [OF g] by (auto simp: empty_buffer_def)
  with g show ?thesis by (intro exI [of _ w'] exI [of _ vf] exI [of _ bs]) (simp add: toy_penv_def toy_mcfg_def)
qed

text \<open>The pool as \<open>Open\<close> builds it, with the default chunk size.\<close>
lemma toy_open: "Open toy_penv ''u'' toy_db2 = (Inr (toy_pool\<lparr>p_ChunkSize := 0\<rparr>), toy_db2)"
  by (simp add: Open_def m_ListAccounts_eq)
    (simp add: toy_db2_def toy_row_def toy_account_def with_token_def toy_decrypt buildAccount_def toy_penv_def toy_pool_def)

lemma toy_default_put:
  "\<exists>w'. PutStream toy_penv toy_pe (toy_pool\<lparr>p_ChunkSize := 0\<rparr>) (bytes_reader [1, 2, 3]) 3 ''new'' toy_world = (Inr (), w')"
proof (rule remote_contract.PutStream_total [OF precise_remote.axioms(1) [OF toy_contract] refl refl toy_accepting,
      where q = "\<lparr>Limit = 10, Usage = 0, Unlimited = False, PhotoURL = []\<rparr>"
      and a = "\<lparr>acc_ID = ''A'', acc_Label = ''work'', acc_Store = Inr 0\<rparr>"])
  show "pool_sync (toy_pool\<lparr>p_ChunkSize := 0\<rparr>) (w_db toy_world)" using toy_sync by (simp add: pool_sync_def)
  show "0 \<le> num_chunks 3 (chunkSize (toy_pool\<lparr>p_ChunkSize := 0\<rparr>))"
    using num_chunks_cover [of "chunkSize (toy_pool\<lparr>p_ChunkSize := 0\<rparr>)" 3]
    by (simp add: chunkSize_def DefaultChunkSize_def max_i64_def)
  show "\<lparr>acc_ID = ''A'', acc_Label = ''work'', acc_Store = Inr 0\<rparr> \<in> set (candidates (toy_pool\<lparr>p_ChunkSize := 0\<rparr>) (pe_order toy_pe))"
    using toy_candidates by (simp add: candidates_def)
qed (use toy_db2_ok toy_facts in \<open>simp_all add: toy_quota\<close>)

end
