(* ===== verification/Pool_Fetch.thy ===== *)
theory Pool_Fetch
  imports Pool_Get Pool_Concurrency
begin

text \<open>
  The goroutines of \<open>GetStream\<close> as a step relation. The calling goroutine first starts every
  download, taking a slot of \<open>sem\<close> for each; a download that ends puts its chunk into the chunk's
  own channel, or records the first error and closes the channel, and gives its slot back. Only when
  all are started does the calling goroutine drain the channels in order and write. The relation is
  shown to terminate without deadlock, whatever the order, and to refine the function \<open>GetStream\<close>.
\<close>

datatype fetch_pc = Fetching | Got "(perror, bytes) result" | Failed | Sent | Released

datatype ready_chan = Empty | Full bytes | Closed

record get_state =
  gs_tasks :: "fetch_pc list"  \<comment> \<open>the goroutines started so far, one per chunk\<close>
  gs_ready :: "ready_chan list"
  gs_firstErr :: "perror option"
  gs_pos :: nat  \<comment> \<open>the position of the writer's loop\<close>
  gs_stopped :: bool  \<comment> \<open>the writer's loop was left at a closed channel\<close>
  gs_w :: writer
  gs_writeErr :: "ioerr option"
  gs_hashed :: bytes

definition slots :: "get_state \<Rightarrow> nat set" where
  "slots s = {i. i < length (gs_tasks s) \<and> gs_tasks s ! i \<noteq> Released}"

definition get_init :: "chunk list \<Rightarrow> writer \<Rightarrow> get_state" where
  "get_init chunks w = \<lparr>gs_tasks = [], gs_ready = replicate (length chunks) Empty, gs_firstErr = None, gs_pos = 0,
     gs_stopped = False, gs_w = w, gs_writeErr = None, gs_hashed = []\<rparr>"

text \<open>The writer's treatment of one chunk.\<close>
definition write_chunk :: "bytes \<Rightarrow> get_state \<Rightarrow> get_state" where
  "write_chunk b s =
     (if gs_writeErr s = None
      then (case wr_write b (gs_w s) of
          (Some e, w') \<Rightarrow> s\<lparr>gs_w := w', gs_writeErr := Some e\<rparr>
        | (None, w') \<Rightarrow> s\<lparr>gs_w := w', gs_hashed := gs_hashed s @ b\<rparr>)
      else s)"

inductive get_step :: "'d penv \<Rightarrow> pool \<Rightarrow> 'd drives \<Rightarrow> bytes \<Rightarrow> chunk list \<Rightarrow> nat \<Rightarrow> get_state \<Rightarrow> get_state \<Rightarrow> bool"
  for E :: "'d penv" and p :: pool and ds :: "'d drives" and fileKey :: bytes and chunks :: "chunk list" and k :: nat
where
  spawn: "length (gs_tasks s) < length chunks \<Longrightarrow> card (slots s) < k \<Longrightarrow>
    get_step E p ds fileKey chunks k s (s\<lparr>gs_tasks := gs_tasks s @ [Fetching]\<rparr>)"
| download: "i < length (gs_tasks s) \<Longrightarrow> gs_tasks s ! i = Fetching \<Longrightarrow>
    get_step E p ds fileKey chunks k s (s\<lparr>gs_tasks := (gs_tasks s)[i := Got (downloadChunk E p ds fileKey (chunks ! i))]\<rparr>)"
| fail: "i < length (gs_tasks s) \<Longrightarrow> gs_tasks s ! i = Got (Inl e) \<Longrightarrow>
    get_step E p ds fileKey chunks k s
      (s\<lparr>gs_firstErr := (if gs_firstErr s = None then Some e else gs_firstErr s), gs_tasks := (gs_tasks s)[i := Failed]\<rparr>)"
| close: "i < length (gs_tasks s) \<Longrightarrow> gs_tasks s ! i = Failed \<Longrightarrow>
    get_step E p ds fileKey chunks k s (s\<lparr>gs_ready := (gs_ready s)[i := Closed], gs_tasks := (gs_tasks s)[i := Sent]\<rparr>)"
| send: "i < length (gs_tasks s) \<Longrightarrow> gs_tasks s ! i = Got (Inr b) \<Longrightarrow> gs_ready s ! i = Empty \<Longrightarrow>
    get_step E p ds fileKey chunks k s (s\<lparr>gs_ready := (gs_ready s)[i := Full b], gs_tasks := (gs_tasks s)[i := Sent]\<rparr>)"
| release: "i < length (gs_tasks s) \<Longrightarrow> gs_tasks s ! i = Sent \<Longrightarrow>
    get_step E p ds fileKey chunks k s (s\<lparr>gs_tasks := (gs_tasks s)[i := Released]\<rparr>)"
| receive: "length (gs_tasks s) = length chunks \<Longrightarrow> \<not> gs_stopped s \<Longrightarrow> gs_pos s < length chunks \<Longrightarrow>
    gs_ready s ! gs_pos s = Full b \<Longrightarrow>
    get_step E p ds fileKey chunks k s
      ((write_chunk b s)\<lparr>gs_ready := (gs_ready s)[gs_pos s := Empty], gs_pos := Suc (gs_pos s)\<rparr>)"
| stop: "length (gs_tasks s) = length chunks \<Longrightarrow> \<not> gs_stopped s \<Longrightarrow> gs_pos s < length chunks \<Longrightarrow>
    gs_ready s ! gs_pos s = Closed \<Longrightarrow>
    get_step E p ds fileKey chunks k s (s\<lparr>gs_stopped := True\<rparr>)"

text \<open>The state in which \<open>wg.Wait\<close> returns.\<close>
definition drained :: "chunk list \<Rightarrow> get_state \<Rightarrow> bool" where
  "drained chunks s \<longleftrightarrow> length (gs_tasks s) = length chunks \<and> slots s = {} \<and> (gs_stopped s \<or> gs_pos s = length chunks)"

text \<open>What \<open>GetStream\<close> returns after \<open>wg.Wait\<close>.\<close>
definition get_result :: "'d penv \<Rightarrow> string \<Rightarrow> virtual_file \<Rightarrow> get_state \<Rightarrow> (perror, unit) result" where
  "get_result E name vf s = (case gs_firstErr s of
     Some e \<Rightarrow> Inl e
   | None \<Rightarrow> (case gs_writeErr s of
       Some e \<Rightarrow> Inl (PWrite e)
     | None \<Rightarrow> let got = hex_encode (sha256_sum (m_prims (e_mcfg E)) (gs_hashed s)) in
         if got \<noteq> vf_ContentHash vf then Inl (PContentHash name got (vf_ContentHash vf)) else Inr ()))"

subsection \<open>The invariant\<close>

text \<open>How far a goroutine is, what its channel holds and what the writer has taken of it, given its chunk's download.\<close>
definition task_ok :: "(perror, bytes) result \<Rightarrow> fetch_pc \<Rightarrow> ready_chan \<Rightarrow> bool \<Rightarrow> bool \<Rightarrow> bool" where
  "task_ok r t c taken err \<longleftrightarrow> (case t of
     Fetching \<Rightarrow> c = Empty \<and> \<not> taken
   | Got r' \<Rightarrow> r' = r \<and> c = Empty \<and> \<not> taken
   | Failed \<Rightarrow> (\<exists>e. r = Inl e) \<and> c = Empty \<and> \<not> taken \<and> err
   | _ \<Rightarrow> (case r of Inl e \<Rightarrow> c = Closed \<and> \<not> taken \<and> err | Inr b \<Rightarrow> c = (if taken then Empty else Full b)))"

definition get_inv :: "'d penv \<Rightarrow> pool \<Rightarrow> 'd drives \<Rightarrow> bytes \<Rightarrow> chunk list \<Rightarrow> nat \<Rightarrow> writer \<Rightarrow> get_state \<Rightarrow> bool" where
  "get_inv E p ds fileKey chunks k w s \<longleftrightarrow>
     length (gs_tasks s) \<le> length chunks \<and> length (gs_ready s) = length chunks \<and> card (slots s) \<le> k
   \<and> (\<forall>i < length (gs_tasks s). task_ok (downloadChunk E p ds fileKey (chunks ! i)) (gs_tasks s ! i) (gs_ready s ! i)
        (i < gs_pos s) (gs_firstErr s \<noteq> None))
   \<and> (\<forall>i. length (gs_tasks s) \<le> i \<and> i < length chunks \<longrightarrow> gs_ready s ! i = Empty)
   \<and> (\<forall>e. gs_firstErr s = Some e \<longrightarrow> (\<exists>i < length chunks. downloadChunk E p ds fileKey (chunks ! i) = Inl e))
   \<and> gs_pos s \<le> length chunks \<and> (0 < gs_pos s \<or> gs_stopped s \<longrightarrow> length (gs_tasks s) = length chunks)
   \<and> emit_chunks (map (downloadChunk E p ds fileKey) (take (gs_pos s) chunks)) w None [] = (gs_w s, gs_writeErr s, gs_hashed s)
   \<and> (gs_stopped s \<longrightarrow> gs_pos s < length chunks \<and> (\<exists>e. downloadChunk E p ds fileKey (chunks ! gs_pos s) = Inl e))"

lemma get_inv_init: "get_inv E p ds fileKey chunks k w (get_init chunks w)"
  by (simp add: get_inv_def get_init_def slots_def)

lemma slots_finite [simp]: "finite (slots s)"
  by (simp add: slots_def)

lemma slots_spawn: "card (slots (s\<lparr>gs_tasks := gs_tasks s @ [Fetching]\<rparr>)) = Suc (card (slots s))"
proof -
  have "slots (s\<lparr>gs_tasks := gs_tasks s @ [Fetching]\<rparr>) = insert (length (gs_tasks s)) (slots s)"
    by (auto simp: slots_def nth_append less_Suc_eq)
  moreover have "length (gs_tasks s) \<notin> slots s" by (simp add: slots_def)
  ultimately show ?thesis by simp
qed

lemma get_inv_ok:
  "get_inv E p ds fileKey chunks k w s \<Longrightarrow> i < length (gs_tasks s) \<Longrightarrow>
    task_ok (downloadChunk E p ds fileKey (chunks ! i)) (gs_tasks s ! i) (gs_ready s ! i) (i < gs_pos s) (gs_firstErr s \<noteq> None)"
  by (simp add: get_inv_def)

text \<open>A goroutine's step leaves the others and the writer alone.\<close>
lemma get_inv_task:
  assumes "get_inv E p ds fileKey chunks k w s" "i < length (gs_tasks s)"
    and "task_ok (downloadChunk E p ds fileKey (chunks ! i)) t c (i < gs_pos s) (err \<noteq> None)"
    and "gs_firstErr s \<noteq> None \<longrightarrow> err = gs_firstErr s"
    and "\<forall>e. err = Some e \<longrightarrow> (\<exists>i < length chunks. downloadChunk E p ds fileKey (chunks ! i) = Inl e)"
    and "gs_tasks s ! i \<noteq> Released"
  shows "get_inv E p ds fileKey chunks k w (s\<lparr>gs_firstErr := err, gs_ready := (gs_ready s)[i := c], gs_tasks := (gs_tasks s)[i := t]\<rparr>)"
proof -
  let ?s = "s\<lparr>gs_firstErr := err, gs_ready := (gs_ready s)[i := c], gs_tasks := (gs_tasks s)[i := t]\<rparr>"
  have "slots ?s \<subseteq> slots s" using assms(2,6) by (auto simp: slots_def nth_list_update split: if_splits)
  then have "card (slots ?s) \<le> k" using assms(1) card_mono [of "slots s" "slots ?s"] by (simp add: get_inv_def)
  moreover have "task_ok (downloadChunk E p ds fileKey (chunks ! j)) (gs_tasks ?s ! j) (gs_ready ?s ! j) (j < gs_pos s) (err \<noteq> None)"
    if "j < length (gs_tasks s)" for j
  proof (cases "j = i")
    case True
    with assms show ?thesis by (simp add: get_inv_def)
  next
    case False
    have "task_ok (downloadChunk E p ds fileKey (chunks ! j)) (gs_tasks s ! j) (gs_ready s ! j) (j < gs_pos s) (gs_firstErr s \<noteq> None)"
      using assms(1) that by (simp add: get_inv_def)
    with False assms(4) show ?thesis by (auto simp: task_ok_def split: fetch_pc.splits sum.splits)
  qed
  ultimately show ?thesis using assms by (simp add: get_inv_def)
qed

lemma emit_chunks_snoc:
  "list_all (\<lambda>r. \<not> isl r) rs \<Longrightarrow> emit_chunks (rs @ ys) w we h = (case emit_chunks rs w we h of (w', we', h') \<Rightarrow> emit_chunks ys w' we' h')"
proof (induction rs arbitrary: w we h)
  case (Cons r rs)
  then obtain b where "r = Inr b" by (cases r) auto
  with Cons show ?case by (auto split: prod.splits option.splits)
qed simp

lemma write_chunk_sel [simp]:
  "gs_tasks (write_chunk b s) = gs_tasks s" "gs_ready (write_chunk b s) = gs_ready s" "gs_firstErr (write_chunk b s) = gs_firstErr s"
  "gs_pos (write_chunk b s) = gs_pos s" "gs_stopped (write_chunk b s) = gs_stopped s"
  by (auto simp: write_chunk_def split: prod.splits option.splits)

text \<open>What the writer has taken was downloaded.\<close>
lemma taken_ok:
  assumes "get_inv E p ds fileKey chunks k w s"
  shows "list_all (\<lambda>r. \<not> isl r) (map (downloadChunk E p ds fileKey) (take (gs_pos s) chunks))"
  unfolding list_all_length
proof (intro allI impI)
  fix i assume "i < length (map (downloadChunk E p ds fileKey) (take (gs_pos s) chunks))"
  then have i: "i < gs_pos s" "i < length chunks" by auto
  then have "i < length (gs_tasks s)" using assms by (auto simp: get_inv_def)
  from get_inv_ok [OF assms this] i(1) have "\<not> isl (downloadChunk E p ds fileKey (chunks ! i))"
    by (auto simp: task_ok_def split: fetch_pc.splits sum.splits)
  with i show "\<not> isl (map (downloadChunk E p ds fileKey) (take (gs_pos s) chunks) ! i)" by simp
qed

lemma get_inv_receive:
  assumes inv: "get_inv E p ds fileKey chunks k w s" and all: "length (gs_tasks s) = length chunks" "\<not> gs_stopped s"
    and pos: "gs_pos s < length chunks" "gs_ready s ! gs_pos s = Full b"
  shows "get_inv E p ds fileKey chunks k w ((write_chunk b s)\<lparr>gs_ready := (gs_ready s)[gs_pos s := Empty], gs_pos := Suc (gs_pos s)\<rparr>)"
    (is "get_inv _ _ _ _ _ _ _ ?s")
proof -
  let ?R = "downloadChunk E p ds fileKey"
  have "task_ok (?R (chunks ! gs_pos s)) (gs_tasks s ! gs_pos s) (Full b) False (gs_firstErr s \<noteq> None)"
    using get_inv_ok [OF inv, of "gs_pos s"] all(1) pos by simp
  then have t: "?R (chunks ! gs_pos s) = Inr b" "gs_tasks s ! gs_pos s \<in> {Sent, Released}"
    by (auto simp: task_ok_def split: fetch_pc.splits sum.splits)
  have "emit_chunks (map ?R (take (Suc (gs_pos s)) chunks)) w None [] = emit_chunks [Inr b] (gs_w s) (gs_writeErr s) (gs_hashed s)"
    using emit_chunks_snoc [OF taken_ok [OF inv], of "[Inr b]" w None "[]"] inv pos(1) t(1)
    by (simp add: get_inv_def take_Suc_conv_app_nth)
  also have "\<dots> = (gs_w ?s, gs_writeErr ?s, gs_hashed ?s)"
    by (auto simp: write_chunk_def split: prod.splits option.splits)
  finally have emit: "emit_chunks (map ?R (take (Suc (gs_pos s)) chunks)) w None [] = (gs_w ?s, gs_writeErr ?s, gs_hashed ?s)" .
  have "task_ok (?R (chunks ! i)) (gs_tasks s ! i) (gs_ready ?s ! i) (i < Suc (gs_pos s)) (gs_firstErr s \<noteq> None)"
    if "i < length chunks" for i
  proof (cases "i = gs_pos s")
    case True
    with t inv pos(1) show ?thesis by (auto simp: task_ok_def get_inv_def)
  next
    case False
    then have "i < Suc (gs_pos s) \<longleftrightarrow> i < gs_pos s" by auto
    with False get_inv_ok [OF inv, of i] all(1) that show ?thesis by simp
  qed
  moreover have "slots ?s = slots s" by (simp add: slots_def)
  ultimately show ?thesis using inv all pos emit by (auto simp: get_inv_def)
qed

inductive_cases get_stepE: "get_step E p ds fileKey chunks k s s'"

lemma get_inv_step:
  assumes inv: "get_inv E p ds fileKey chunks k w s" and step: "get_step E p ds fileKey chunks k s s'"
  shows "get_inv E p ds fileKey chunks k w s'"
proof -
  let ?R = "downloadChunk E p ds fileKey"
  note task = get_inv_task [OF inv]
  have task': "get_inv E p ds fileKey chunks k w (s\<lparr>gs_firstErr := err, gs_tasks := (gs_tasks s)[i := t]\<rparr>)"
    if "i < length (gs_tasks s)" "gs_tasks s ! i \<noteq> Released" "gs_firstErr s \<noteq> None \<longrightarrow> err = gs_firstErr s"
      "\<forall>e. err = Some e \<longrightarrow> (\<exists>i < length chunks. ?R (chunks ! i) = Inl e)"
      "task_ok (?R (chunks ! i)) t (gs_ready s ! i) (i < gs_pos s) (err \<noteq> None)" for err i t
    using task [OF that(1,5,3,4,2)] by simp
  note ok = get_inv_ok [OF inv]
  have err: "\<forall>e. gs_firstErr s = Some e \<longrightarrow> (\<exists>i < length chunks. ?R (chunks ! i) = Inl e)"
    and len: "length (gs_tasks s) \<le> length chunks" using inv by (simp_all add: get_inv_def)
  show ?thesis using step
  proof cases
    case spawn
    then have "gs_pos s = 0" "\<not> gs_stopped s" "gs_ready s ! length (gs_tasks s) = Empty" using inv by (auto simp: get_inv_def)
    with spawn inv show ?thesis
      by (auto simp: get_inv_def slots_spawn nth_append less_Suc_eq task_ok_def [of _ Fetching])
  next
    case (download i)
    with ok [of i] task' [of i "gs_firstErr s" "Got (?R (chunks ! i))"] err show ?thesis by (simp add: task_ok_def)
  next
    case (fail i e)
    let ?e = "if gs_firstErr s = None then Some e else gs_firstErr s"
    have r: "?R (chunks ! i) = Inl e" using fail ok [of i] by (auto simp: task_ok_def)
    then have "\<forall>e'. ?e = Some e' \<longrightarrow> (\<exists>j < length chunks. ?R (chunks ! j) = Inl e')"
      using err fail(2) len by (metis less_le_trans option.inject)
    with fail ok [of i] r show ?thesis unfolding fail(1) by (intro task') (simp_all add: task_ok_def)
  next
    case (close i)
    with ok [of i] task [of i Sent Closed "gs_firstErr s"] err show ?thesis by (auto simp: task_ok_def)
  next
    case (send i b)
    then have "?R (chunks ! i) = Inr b" using ok [of i] by (simp add: task_ok_def)
    with send ok [of i] task [of i Sent "Full b" "gs_firstErr s"] err show ?thesis by (simp add: task_ok_def)
  next
    case (release i)
    with ok [of i] task' [of i "gs_firstErr s" Released] err show ?thesis by (simp add: task_ok_def)
  next
    case (receive b)
    with inv show ?thesis by (simp add: get_inv_receive)
  next
    case stop
    then have "\<exists>e. ?R (chunks ! gs_pos s) = Inl e" using ok [of "gs_pos s"]
      by (auto simp: task_ok_def split: fetch_pc.splits sum.splits)
    with stop inv show ?thesis by (simp add: get_inv_def slots_def)
  qed
qed

subsection \<open>Termination and progress\<close>

fun pc_left :: "fetch_pc \<Rightarrow> nat" where
  "pc_left Fetching = 4"
| "pc_left (Got r) = 3"
| "pc_left Failed = 2"
| "pc_left Sent = 1"
| "pc_left Released = 0"

definition get_left :: "chunk list \<Rightarrow> get_state \<Rightarrow> nat" where
  "get_left chunks s = 5 * (length chunks - length (gs_tasks s)) + sum_list (map pc_left (gs_tasks s))
     + (length chunks - gs_pos s) + (if gs_stopped s then 0 else 1)"

lemma pc_left_update:
  "i < length ts \<Longrightarrow> pc_left t < pc_left (ts ! i) \<Longrightarrow> sum_list (map pc_left (ts[i := t])) < sum_list (map pc_left ts)"
  using member_le_sum_list [of "pc_left (ts ! i)" "map pc_left ts"] by (simp add: map_update sum_list_update)

lemma get_left_step:
  assumes "get_step E p ds fileKey chunks k s s'"
  shows "get_left chunks s' < get_left chunks s"
  using assms by cases (auto simp: get_left_def intro: pc_left_update)

lemma get_progress:
  assumes inv: "get_inv E p ds fileKey chunks k w s" and "0 < k" "\<not> drained chunks s"
  shows "\<exists>s'. get_step E p ds fileKey chunks k s s'"
proof (cases "slots s = {}")
  case False
  then obtain i where i: "i < length (gs_tasks s)" "gs_tasks s ! i \<noteq> Released" by (auto simp: slots_def)
  show ?thesis
  proof (cases "gs_tasks s ! i")
    case (Got r)
    show ?thesis
    proof (cases r)
      case (Inl e)
      with Got i get_step.fail show ?thesis by blast
    next
      case (Inr b)
      have "gs_ready s ! i = Empty" using get_inv_ok [OF inv i(1)] Got by (simp add: task_ok_def)
      with Inr Got i get_step.send show ?thesis by blast
    qed
  qed (use i in \<open>blast intro: get_step.download get_step.close get_step.release\<close>)+
next
  case True
  show ?thesis
  proof (cases "length (gs_tasks s) = length chunks")
    case False
    then have "length (gs_tasks s) < length chunks" using inv by (simp add: get_inv_def)
    moreover have "card (slots s) < k" using True assms(2) by simp
    ultimately show ?thesis by (blast intro: get_step.spawn)
  next
    case len: True
    then have pos: "\<not> gs_stopped s" "gs_pos s < length chunks" using assms(3) True inv by (auto simp: drained_def get_inv_def)
    then have "gs_tasks s ! gs_pos s = Released" using True len by (auto simp: slots_def)
    with get_inv_ok [OF inv, of "gs_pos s"] pos len consider b where "gs_ready s ! gs_pos s = Full b" | "gs_ready s ! gs_pos s = Closed"
      by (auto simp: task_ok_def split: sum.splits)
    then show ?thesis using pos len get_step.receive get_step.stop by cases blast+
  qed
qed

interpretation downloads: terminating_system
  "get_step E p ds fileKey chunks (Suc k)" "get_inv E p ds fileKey chunks (Suc k) w" "get_left chunks" "drained chunks"
  for E p ds fileKey chunks k w
  by unfold_locales (auto intro: get_inv_step get_left_step get_progress)

subsection \<open>Refinement of GetStream\<close>

lemma first_error_head:
  assumes "i < length rs" "rs ! i = Inl e"
  shows "first_error (\<lambda>j. if j = i then 0 else 1) rs = Some e"
proof -
  let ?f = "\<lambda>j. if j = i then 0 else (1::nat)"
  obtain h xs where h: "sort_key ?f [0..<length rs] = h # xs"
    using assms(1) by (metis length_sort length_upt list.size(3) minus_nat.diff_0 neq_Nil_conv not_less_zero)
  have "i \<in> set (h # xs)" "sorted (map ?f (h # xs))" using assms(1) by (simp_all flip: h)
  then have "h = i" by (auto split: if_splits)
  with h assms(2) show ?thesis by (simp add: first_error_def List.map_filter_simps)
qed

lemma drained_refines:
  assumes inv: "get_inv E p ds fileKey chunks k w s" and fin: "drained chunks s"
  defines "rs \<equiv> map (downloadChunk E p ds fileKey) chunks"
  shows "emit_chunks rs w None [] = (gs_w s, gs_writeErr s, gs_hashed s)" "\<exists>rank. first_error rank rs = gs_firstErr s"
proof -
  have all: "length (gs_tasks s) = length chunks" "slots s = {}" "gs_stopped s \<or> gs_pos s = length chunks" "length (gs_ready s) = length chunks"
    using inv fin by (auto simp: drained_def get_inv_def)
  have emit: "emit_chunks (map (downloadChunk E p ds fileKey) (take (gs_pos s) chunks)) w None [] = (gs_w s, gs_writeErr s, gs_hashed s)"
    using inv by (simp add: get_inv_def)
  show "emit_chunks rs w None [] = (gs_w s, gs_writeErr s, gs_hashed s)"
  proof (cases "gs_pos s = length chunks")
    case True
    with emit show ?thesis by (simp add: rs_def)
  next
    case False
    then obtain e where e: "gs_pos s < length chunks" "downloadChunk E p ds fileKey (chunks ! gs_pos s) = Inl e"
      using all(3) inv by (auto simp: get_inv_def)
    then have "rs = map (downloadChunk E p ds fileKey) (take (gs_pos s) chunks) @ Inl e # map (downloadChunk E p ds fileKey) (drop (Suc (gs_pos s)) chunks)"
      unfolding rs_def by (subst id_take_nth_drop [OF e(1)]) simp
    with emit emit_chunks_snoc [OF taken_ok [OF inv]] show ?thesis by simp
  qed
  show "\<exists>rank. first_error rank rs = gs_firstErr s"
  proof (cases "gs_firstErr s")
    case None
    have "\<exists>b. downloadChunk E p ds fileKey (chunks ! i) = Inr b" if "i < length chunks" for i
      using get_inv_ok [OF inv, of i] that all(1,2) None by (auto simp: slots_def task_ok_def split: sum.splits)
    then have "first_error (\<lambda>i. 0) rs = None" by (auto simp: first_error_None_iff rs_def all_set_conv_all_nth)
    with None show ?thesis by auto
  next
    case (Some e)
    then obtain i where "i < length chunks" "downloadChunk E p ds fileKey (chunks ! i) = Inl e" using inv by (auto simp: get_inv_def)
    then have "first_error (\<lambda>j. if j = i then 0 else 1) rs = Some e" by (intro first_error_head) (simp_all add: rs_def)
    with Some show ?thesis by auto
  qed
qed

lemma get_left_init: "get_left chunks (get_init chunks w) = 6 * length chunks + 1"
  by (simp add: get_left_def get_init_def)

lemma downloads_run:
  assumes "(get_step E p ds fileKey chunks (nat (maxParallelUploads p)) ^^ m) (get_init chunks w) s"
  shows "get_inv E p ds fileKey chunks (nat (maxParallelUploads p)) w s \<and> m \<le> 6 * length chunks + 1"
proof -
  obtain k where k: "nat (maxParallelUploads p) = Suc k" using maxParallelUploads_pos gr0_conv_Suc by blast
  from downloads.run_bound [of m E p ds fileKey chunks k] assms get_inv_init show ?thesis
    unfolding k by (fastforce simp: get_left_init)
qed

text \<open>
  C11. The downloads of a get under \<open>sem\<close>, the channels and \<open>wg\<close>: at most \<open>maxParallelUploads\<close>
  goroutines hold a slot; an execution has at most six steps per chunk and one more; it can always
  go on until \<open>wg.Wait\<close> returns, even if chunks fail and the writer has left its loop; and what
  then has been written and is returned is what the function \<open>GetStream\<close> gives for some completion
  order.
\<close>
theorem downloads_refine_get:
  assumes "m_GetVirtualFile (p_userID p) name (w_db w) = (Inr vf, d1)" "m_ListChunks (p_userID p) (vf_ID vf) d1 = (Inr chunks, d2)" "chunks \<noteq> []"
    and run: "(get_step E p (w_drives w) (vf_FileKey vf) chunks (nat (maxParallelUploads p)) ^^ m) (get_init chunks out) s"
  shows "card (slots s) \<le> nat (maxParallelUploads p)
    \<and> m \<le> 6 * length chunks + 1
    \<and> (drained chunks s \<or> (\<exists>s'. get_step E p (w_drives w) (vf_FileKey vf) chunks (nat (maxParallelUploads p)) s s'))
    \<and> (drained chunks s \<longrightarrow> (\<exists>rank. GetStream E rank p name w out = (get_result E name vf s, w\<lparr>w_db := d2\<rparr>, gs_w s)))"
proof -
  from downloads_run [OF run] have inv: "get_inv E p (w_drives w) (vf_FileKey vf) chunks (nat (maxParallelUploads p)) out s"
    and m: "m \<le> 6 * length chunks + 1" by simp_all
  have "\<exists>rank. GetStream E rank p name w out = (get_result E name vf s, w\<lparr>w_db := d2\<rparr>, gs_w s)" if fin: "drained chunks s"
  proof -
    from drained_refines(2) [OF inv fin] obtain rank
      where "first_error rank (map (downloadChunk E p (w_drives w) (vf_FileKey vf)) chunks) = gs_firstErr s" by blast
    with drained_refines(1) [OF inv fin] assms(1-3) show ?thesis
      by (intro exI [of _ rank]) (simp add: GetStream_def get_result_def Let_def split: option.splits)
  qed
  with inv m get_progress [OF inv maxParallelUploads_pos] show ?thesis by (auto simp: get_inv_def)
qed


subsection \<open>Witnesses\<close>

text \<open>The file of the put's example can be fetched to the end.\<close>
lemma toy_fetch:
  "\<exists>w' vf d1 chunks d2 m s. m_GetVirtualFile ''u'' ''new'' (w_db w') = (Inr vf, d1)
     \<and> m_ListChunks ''u'' (vf_ID vf) d1 = (Inr chunks, d2) \<and> chunks \<noteq> []
     \<and> (\<forall>rank. GetStream toy_penv rank toy_pool ''new'' w' empty_buffer = (Inr (), w', empty_buffer\<lparr>wout := [1, 2, 3]\<rparr>))
     \<and> (get_step toy_penv toy_pool (w_drives w') (vf_FileKey vf) chunks 4 ^^ m) (get_init chunks empty_buffer) s
     \<and> drained chunks s \<and> gs_pos s = length chunks"
proof -
  obtain w' where w': "PutStream toy_penv toy_pe toy_pool (bytes_reader [1, 2, 3]) 3 ''new'' toy_world = (Inr (), w')"
    using toy_put_ok by blast
  have "take (nat 3) (content (bytes_reader [1, 2, 3])) = [1, 2, 3]" by (simp add: toy_facts)
  with get_after_put [OF precise_remote.axioms(1) [OF toy_contract] toy_flate _ _ _ _ _ _ w' toy_whole_iv,
      of empty_buffer] toy_db2_ok(1) pool_sync_ids [OF toy_sync]
  have g: "GetStream toy_penv rank toy_pool ''new'' w' empty_buffer = (Inr (), w', empty_buffer\<lparr>wout := [1, 2, 3]\<rparr>)" for rank
    by (simp add: toy_chunkSize max_i64_def empty_buffer_def)
  have u: "p_userID toy_pool = ''u''" by (simp add: toy_pool_def)
  obtain vf d1 chunks d2 bs where r: "m_GetVirtualFile ''u'' ''new'' (w_db w') = (Inr vf, d1)"
    "m_ListChunks ''u'' (vf_ID vf) d1 = (Inr chunks, d2)" "chunks \<noteq> []"
    "map (downloadChunk toy_penv toy_pool (w_drives w') (vf_FileKey vf)) chunks = map Inr bs"
    using GetStream_reads [OF g] unfolding u .
  have nth: "downloadChunk toy_penv toy_pool (w_drives w') (vf_FileKey vf) (chunks ! i) \<noteq> Inl e" if "i < length chunks" for i e
    using arg_cong [OF r(4), of "\<lambda>l. l ! i"] arg_cong [OF r(4), of length] that by simp
  let ?inv = "get_inv toy_penv toy_pool (w_drives w') (vf_FileKey vf) chunks 4 empty_buffer"
  obtain m s where s: "(get_step toy_penv toy_pool (w_drives w') (vf_FileKey vf) chunks 4 ^^ m) (get_init chunks empty_buffer) s" "drained chunks s"
    using downloads.reaches_final [of toy_penv toy_pool "w_drives w'" "vf_FileKey vf" chunks 3 empty_buffer, OF get_inv_init]
    by (auto simp: rtranclp_power numeral_eq_Suc)
  then have "?inv s" using downloads.run_bound [of m toy_penv toy_pool "w_drives w'" "vf_FileKey vf" chunks 3 "get_init chunks empty_buffer" s empty_buffer]
    by (simp add: get_inv_init)
  with s(2) nth have "gs_pos s = length chunks" by (auto simp: drained_def get_inv_def)
  with r s g show ?thesis by blast
qed

lemma first_receive:
  assumes "(get_step E p ds fileKey chunks k ^^ m) s0 s" "gs_pos s0 = 0" "0 < gs_pos s"
  shows "\<exists>j a b. (get_step E p ds fileKey chunks k ^^ j) s0 a \<and> get_step E p ds fileKey chunks k a b \<and> gs_pos a = 0 \<and> gs_pos b = 1"
  using assms(1,3)
proof (induction m arbitrary: s)
  case (Suc m)
  then obtain s1 where s1: "(get_step E p ds fileKey chunks k ^^ m) s0 s1" "get_step E p ds fileKey chunks k s1 s" by auto
  show ?case
  proof (cases "gs_pos s1 = 0")
    case True
    with s1(2) Suc.prems(2) have "gs_pos s = 1" by cases simp_all
    with True s1 show ?thesis by blast
  qed (use Suc.IH s1 in blast)
qed (simp add: assms(2))

lemma toy_slots: "nat (maxParallelUploads toy_pool) = 4"
  by (simp add: maxParallelUploads_def defaultMaxParallelUploads_def toy_pool_def)

theorem downloads_refine_get_witness:
  "\<exists>(w' :: mem_drive world) vf chunks s. (get_step toy_penv toy_pool (w_drives w') (vf_FileKey vf) chunks 4)\<^sup>*\<^sup>* (get_init chunks empty_buffer) s
     \<and> drained chunks s \<and> get_result toy_penv ''new'' vf s = Inr () \<and> wout (gs_w s) = [1, 2, 3]"
proof -
  obtain w' vf d1 chunks d2 m s where t: "m_GetVirtualFile ''u'' ''new'' (w_db w') = (Inr vf, d1)"
      "m_ListChunks ''u'' (vf_ID vf) d1 = (Inr chunks, d2)" "chunks \<noteq> []"
      "\<forall>rank. GetStream toy_penv rank toy_pool ''new'' w' empty_buffer = (Inr (), w', empty_buffer\<lparr>wout := [1, 2, 3]\<rparr>)"
      "(get_step toy_penv toy_pool (w_drives w') (vf_FileKey vf) chunks 4 ^^ m) (get_init chunks empty_buffer) s" "drained chunks s"
    using toy_fetch by blast
  have "p_userID toy_pool = ''u''" by (simp add: toy_pool_def)
  with downloads_refine_get [of toy_pool "''new''" w' vf d1 chunks d2 m toy_penv empty_buffer s] t(1-3,5,6)
  obtain rank where "GetStream toy_penv rank toy_pool ''new'' w' empty_buffer = (get_result toy_penv ''new'' vf s, w'\<lparr>w_db := d2\<rparr>, gs_w s)"
    by (auto simp: toy_slots)
  with t(4) have "(get_result toy_penv ''new'' vf s, w'\<lparr>w_db := d2\<rparr>, gs_w s) = (Inr (), w', empty_buffer\<lparr>wout := [1, 2, 3]\<rparr>)" by metis
  then have "get_result toy_penv ''new'' vf s = Inr () \<and> wout (gs_w s) = [1, 2, 3]" by simp
  with t(6) relpowp_imp_rtranclp [OF t(5)] show ?thesis
    by (intro exI [of _ w'] exI [of _ vf] exI [of _ chunks] exI [of _ s]) simp
qed


end
