(* ===== verification/Pool_Files.thy ===== *)
theory Pool_Files
  imports Pool_Get
begin

text \<open>
  What \<open>drivepool/pool.go\<close> promises about the files of a user beyond putting and getting them:
  purging removes the data wherever it can be reached and can be tried again, the listing tells
  which files have lost chunks, and an account whose token no longer decrypts stays registered.
\<close>

subsection \<open>Purging\<close>

text \<open>The account and the drive on which a chunk can be reached from a pool.\<close>
definition chunk_handle :: "pool \<Rightarrow> chunk \<Rightarrow> nat option" where
  "chunk_handle p c = (case c_AccountID c of None \<Rightarrow> None
     | Some i \<Rightarrow> (case map_of (p_accounts p) i of None \<Rightarrow> None
         | Some a \<Rightarrow> (case acc_Store a of Inl e \<Rightarrow> None | Inr h \<Rightarrow> Some h)))"

lemma purge_chunks_Cons:
  "purge_chunks E p (c # cs) folders ds = (case chunk_handle p c of
     None \<Rightarrow> purge_chunks E p cs folders ds
   | Some h \<Rightarrow> (case rs_Delete (e_rs E) (c_RemoteFileID c) (ds h) of (err, d) \<Rightarrow>
       if (case err of None \<Rightarrow> True | Some e \<Rightarrow> not_found e)
       then purge_chunks E p cs (AList.update (the (c_AccountID c)) (c_RemoteFolderID c) folders) (ds(h := d))
       else (Inl (PDeleteChunk (c_Index c) (the err)), ds(h := d))))"
  by (auto simp: chunk_handle_def split: option.splits sum.splits prod.splits)

declare purge_chunks.simps(2) [simp del]

context precise_remote
begin

lemma purge_delete:
  assumes "rs_Delete rs x d = (err, d')" "case err of None \<Rightarrow> True | Some e \<Rightarrow> not_found e"
  shows "\<not> rs_holds rs d' x b"
  using assms delete_gone [of x d d' b] delete_notfound [of x d _ d' b]
  by (auto simp: not_found_def split: option.splits gerror.splits)

lemma purge_chunks_only:
  "e_rs E = rs \<Longrightarrow> purge_chunks E p cs folders ds = (res, ds') \<Longrightarrow> rs_holds rs (ds' h) x b \<Longrightarrow> rs_holds rs (ds h) x b"
proof (induction cs arbitrary: folders ds)
  case (Cons c cs)
  show ?case
  proof (cases "chunk_handle p c")
    case None
    with Cons show ?thesis by (auto simp: purge_chunks_Cons)
  next
    case (Some h')
    obtain err d where del: "rs_Delete rs (c_RemoteFileID c) (ds h') = (err, d)" by (metis surj_pair)
    have "rs_holds rs ((ds(h' := d)) h) x b"
      using Cons.IH [of "AList.update (the (c_AccountID c)) (c_RemoteFolderID c) folders" "ds(h' := d)"] Cons.prems Some del
      by (simp add: purge_chunks_Cons del: fun_upd_apply split: if_splits)
    then show ?thesis using delete_only [OF del, of x b] by (auto split: if_splits)
  qed
qed simp

lemma purge_folders_only:
  "e_rs E = rs \<Longrightarrow> purge_folders E p folders aids ds = (res, ds') \<Longrightarrow> rs_holds rs (ds' h) x b \<Longrightarrow> rs_holds rs (ds h) x b"
proof (induction aids arbitrary: ds)
  case (Cons aid aids)
  let ?h = "projr (acc_Store (the (map_of (p_accounts p) aid)))" and ?f = "the (map_of folders aid)"
  obtain err d where del: "rs_Delete rs ?f (ds ?h) = (err, d)" by (metis surj_pair)
  have "rs_holds rs ((ds(?h := d)) h) x b"
    using Cons.IH [of "ds(?h := d)"] Cons.prems del
    by (simp add: Let_def del: fun_upd_apply split: option.splits if_splits)
  then show ?case using delete_only [OF del, of x b] by (auto split: if_splits)
qed simp

lemma purge_chunks_gone:
  assumes "e_rs E = rs" "purge_chunks E p cs folders ds = (Inr folders', ds')" "c \<in> set cs" "chunk_handle p c = Some h"
  shows "\<not> rs_holds rs (ds' h) (c_RemoteFileID c) b"
  using assms
proof (induction cs arbitrary: folders ds)
  case (Cons c' cs)
  show ?case
  proof (cases "c' = c")
    case True
    obtain err d where del: "rs_Delete rs (c_RemoteFileID c) (ds h) = (err, d)" by (metis surj_pair)
    with True Cons.prems obtain fo where ok: "case err of None \<Rightarrow> True | Some e \<Rightarrow> not_found e"
      and rest: "purge_chunks E p cs fo (ds(h := d)) = (Inr folders', ds')"
      by (auto simp: purge_chunks_Cons split: if_splits)
    show ?thesis
      using purge_chunks_only [OF Cons.prems(1) rest, of h "c_RemoteFileID c" b] purge_delete [OF del ok, of b] by auto
  next
    case False
    with Cons show ?thesis
      by (auto simp: purge_chunks_Cons split: option.splits prod.splits if_splits)
  qed
qed simp

end

text \<open>What a purge does, read off its code for a file that is there.\<close>
lemma Remove_purge_eq:
  assumes "db_ok (w_db w)" "db_faults (w_db w) = []" "p_userID p \<noteq> []"
    and "v \<in> set (db_vfiles (w_db w))" "vf_UserID v = p_userID p" "vf_Name v = name"
  shows "Remove E now rank p name True w =
    (case purge_chunks E p (sort_key c_Index (filter (\<lambda>c. c_UserID c = p_userID p \<and> c_VirtualFileID c = vf_ID v)
         (db_chunks (w_db w)))) [] (w_drives w) of
       (Inl e, ds) \<Rightarrow> (Inl e, w\<lparr>w_drives := ds\<rparr>)
     | (Inr folders, ds) \<Rightarrow> (case purge_folders E p folders (map_iter rank (map fst folders)) ds of
         (Some e, ds') \<Rightarrow> (Inl e, w\<lparr>w_drives := ds'\<rparr>)
       | (None, ds') \<Rightarrow> (Inr (), w\<lparr>w_drives := ds', w_db := snd (m_DeleteVirtualFile now (p_userID p) name True (w_db w))\<rparr>)))"
proof -
  have w: "\<lparr>w_db = w_db w, w_drives = ds\<rparr> = w\<lparr>w_drives := ds\<rparr>" "\<lparr>w_db = d, w_drives = ds\<rparr> = w\<lparr>w_drives := ds, w_db := d\<rparr>" for ds d
    by (cases w; simp)+
  have "m_GetVirtualFile (p_userID p) name (w_db w) = (Inr v, w_db w)"
    using assms by (intro m_GetVirtualFile_found)
  moreover have "\<exists>d. m_DeleteVirtualFile now (p_userID p) name True (w_db w) = (Inr (), d)"
    using assms(2,3) by (simp add: m_DeleteVirtualFile_def scoped_def sql_delete_vfiles_def Let_def)
  ultimately show ?thesis
    using assms(2,3) w by (auto simp: Remove_def Let_def m_ListChunks_eq split: sum.splits prod.splits option.splits)
qed

subsection \<open>Properties\<close>



lemma chunk_labels_degraded:
  assumes "[] \<notin> fst ` set (p_accounts p)"
  shows "snd (chunk_labels p cs seen) \<longleftrightarrow>
    (\<exists>c \<in> set cs. (case c_AccountID c of None \<Rightarrow> [] | Some i \<Rightarrow> i) \<notin> set seen
       \<and> (case c_AccountID c of None \<Rightarrow> True | Some i \<Rightarrow> map_of (p_accounts p) i = None))"
proof (induction cs arbitrary: seen)
  case (Cons c cs)
  have empty: "map_of (p_accounts p) [] = None" using assms by (simp add: map_of_eq_None_iff)
  define key where "key c = (case c_AccountID c of None \<Rightarrow> [] | Some i \<Rightarrow> i)" for c :: chunk
  define gone where "gone c \<longleftrightarrow> (case c_AccountID c of None \<Rightarrow> True | Some i \<Rightarrow> map_of (p_accounts p) i = None)" for c :: chunk
  have gone: "gone c \<longleftrightarrow> map_of (p_accounts p) (key c) = None" for c
    using empty by (simp add: gone_def key_def split: option.splits)
  have sel: "(case c_AccountID c of None \<Rightarrow> None | Some i \<Rightarrow> map_of (p_accounts p) i) = map_of (p_accounts p) (key c)" for c
    using empty by (simp add: key_def split: option.splits)
  note IH = Cons.IH [folded key_def gone_def]
  have "snd (chunk_labels p (c # cs) seen) \<longleftrightarrow> (if key c \<in> set seen then snd (chunk_labels p cs seen)
      else gone c \<or> snd (chunk_labels p cs (key c # seen)))"
    unfolding chunk_labels.simps sel key_def [symmetric] by (auto simp: Let_def gone split: prod.splits option.splits)
  also have "\<dots> \<longleftrightarrow> (\<exists>c \<in> set (c # cs). key c \<notin> set seen \<and> gone c)"
    using IH [of seen] IH [of "key c # seen"] by (auto simp: gone) (metis option.distinct(1))
  finally show ?case by (simp add: key_def gone_def)
qed simp

text \<open>The listing of files with the chunks of each, when the database answers.\<close>
lemma list_infos_eq:
  assumes "p_userID p \<noteq> []" "db_faults d = []"
  shows "list_infos p fs d = (Inr (map (\<lambda>f. let ls = chunk_labels p (sort_key c_Index (filter (\<lambda>c. c_UserID c = p_userID p
      \<and> c_VirtualFileID c = vf_ID f) (db_chunks d))) []
    in \<lparr>fi_VirtualFile = f, fi_Accounts = fst ls, fi_Degraded = snd ls\<rparr>) fs), d)"
  using assms by (induction fs) (simp_all add: m_ListChunks_eq Let_def split: prod.splits)

lemma downloadChunk_gone:
  assumes "case c_AccountID c of None \<Rightarrow> True | Some i \<Rightarrow> map_of (p_accounts p) i = None"
  shows "downloadChunk E p ds key c = Inl (PUnavailable (c_Index c))"
  using assms by (simp add: downloadChunk_def Let_def split: option.splits)

lemma GetStream_fails:
  assumes "db_ok (w_db w)" "db_faults (w_db w) = []" "p_userID p \<noteq> []"
    and "f \<in> set (db_vfiles (w_db w))" "vf_UserID f = p_userID p"
    and "c \<in> set (db_chunks (w_db w))" "c_UserID c = p_userID p" "c_VirtualFileID c = vf_ID f"
    and "downloadChunk E p (w_drives w) (vf_FileKey f) c = Inl e"
  shows "\<exists>e. fst (GetStream E rank p (vf_Name f) w out) = Inl e"
proof -
  have g: "m_GetVirtualFile (p_userID p) (vf_Name f) (w_db w) = (Inr f, w_db w)"
    using assms by (intro m_GetVirtualFile_found) auto
  let ?cs = "sort_key c_Index (filter (\<lambda>c. c_UserID c = p_userID p \<and> c_VirtualFileID c = vf_ID f) (db_chunks (w_db w)))"
  have c: "c \<in> set ?cs" using assms by simp
  have "Inl e \<in> set (map (downloadChunk E p (w_drives w) (vf_FileKey f)) ?cs)"
    using imageI [OF c, of "downloadChunk E p (w_drives w) (vf_FileKey f)"] unfolding assms(9) set_map .
  then have "first_error rank (map (downloadChunk E p (w_drives w) (vf_FileKey f)) ?cs) \<noteq> None"
    unfolding first_error_None_iff by (meson sum.distinct(1))
  then obtain e' where "first_error rank (map (downloadChunk E p (w_drives w) (vf_FileKey f)) ?cs) = Some e'" by blast
  moreover have "?cs \<noteq> []" using c by (metis empty_iff list.set(1))
  moreover have "m_ListChunks (p_userID p) (vf_ID f) (w_db w) = (Inr ?cs, w_db w)"
    using assms(2,3) by (simp add: m_ListChunks_eq)
  ultimately show ?thesis
    using g by (simp add: GetStream_def Let_def split: prod.split)
qed


text \<open>
  An account whose stored token no longer decrypts cannot be disconnected, not even with
  force, and its label cannot be connected again: all three operations look it up with a call that
  decrypts, and fail without changing anything.
\<close>
theorem undecryptable_account_stuck:
  assumes "db_ok (w_db w)" "db_faults (w_db w) = []" "p_userID p \<noteq> []"
    and "a \<in> set (db_accounts (w_db w))" "a_UserID a = p_userID p" "a_Label a = label"
    and "decryptToken (e_mcfg E) (a_TokenCiphertext a) = Inl e"
  shows "RemoveAccount E label force p (w_db w) = (Inl (m_err PManifest e), p, w_db w)
    \<and> AddAccount E idr ivr now consent label p w = (Inl (m_err PCheckExisting e), p, w)
    \<and> CompleteConsent E exchange idr ivr now url code label p w = (Inl (m_err PCheckExisting e), p, w)"
proof -
  have "m_GetAccount (e_mcfg E) (p_userID p) label (w_db w) = (Inl e, w_db w)"
    using m_GetAccount_found [OF assms(1,3,2,4-6)] assms(7) by simp
  moreover have "e \<noteq> ErrNotFound" using assms(7) by (auto simp: decryptToken_def split: sum.splits)
  ultimately show ?thesis
    by (simp add: RemoveAccount_def AddAccount_def CompleteConsent_def checkLabelAvailable_def)
qed


subsection \<open>Witnesses\<close>

text \<open>A file with one chunk, in a folder of the drive of the only account.\<close>
definition toy_stored :: "mem_drive world" where
  "toy_stored = \<lparr>w_db = toy_db2\<lparr>db_chunks := [toy_chunk ''u'' 1 0 ''A'']\<rparr>, w_drives = (\<lambda>h. \<lparr>md_files =
     [(''f'', \<lparr>mf_meta = \<lparr>df_Name = ''x'', df_MimeType = folder_mime, df_Parents = []\<rparr>, mf_data = None\<rparr>),
      (''r'', \<lparr>mf_meta = \<lparr>df_Name = ''chunk-0000'', df_MimeType = [], df_Parents = [''f'']\<rparr>, mf_data = Some [1]\<rparr>)],
     md_limit = 10, md_refuse = []\<rparr>)\<rparr>"

lemma toy_stored_ok: "db_ok (w_db toy_stored)" "db_faults (w_db toy_stored) = []"
  by (simp_all add: toy_stored_def db_ok_def toy_db2_def toy_row_def toy_db_defs uniq_on_def)

lemma toy_purge: "\<exists>w'. Remove toy_penv 7 length toy_pool ''abc'' True toy_stored = (Inr (), w')"
proof -
  have v: "toy_vfile 1 ''u'' ''abc'' \<in> set (db_vfiles (w_db toy_stored))" "vf_UserID (toy_vfile 1 ''u'' ''abc'') = p_userID toy_pool"
    "vf_Name (toy_vfile 1 ''u'' ''abc'') = ''abc''" "p_userID toy_pool \<noteq> []"
    by (simp_all add: toy_stored_def toy_db2_def toy_vfile_def)
  show ?thesis
    unfolding Remove_purge_eq [OF toy_stored_ok v(4,1-3)]
    by (simp add: toy_stored_def toy_chunk_def toy_vfile_def toy_pool_def purge_chunks_Cons chunk_handle_def toy_penv_def
        toy_rs_def client_Delete_def mem_service_def mem_delete_def map_iter_def Let_def)
qed




theorem undecryptable_account_stuck_witness:
  "\<exists>e. RemoveAccount (toy_penv\<lparr>e_mcfg := toy_mcfg\<lparr>m_unmarshal := \<lambda>b. Inl ''bad''\<rparr>\<rparr>) ''work'' True toy_pool toy_db2
     = (Inl e, toy_pool, toy_db2)"
proof -
  let ?m = "toy_mcfg\<lparr>m_unmarshal := \<lambda>b. Inl ''bad''\<rparr>"
  obtain e where e: "decryptToken ?m (a_TokenCiphertext toy_row) = Inl e"
    using that by (cases "decryptToken ?m (a_TokenCiphertext toy_row)") (auto simp: decryptToken_def split: sum.splits)
  have "toy_row \<in> set (db_accounts (w_db toy_world))" "a_UserID toy_row = ''u''" "a_Label toy_row = ''work''"
    by (simp_all add: toy_db2_def toy_row_def toy_account_def)
  from undecryptable_account_stuck [where w = toy_world and p = toy_pool and force = True
      and E = "toy_penv\<lparr>e_mcfg := ?m\<rparr>", OF _ _ _ this(1)] this(2,3) e toy_db2_ok
  show ?thesis by simp
qed

end
