(* ===== verification/Pool_Durability.thy ===== *)
theory Pool_Durability
  imports Pool_Get Pool_Files
begin

text \<open>
  What the operations of \<open>drivepool/pool.go\<close> do to files that are already stored. The interface
  \<open>write_once_store\<close> says what a client of a pool may rely on across a history of operations: a stored
  file stays, unchanged, whatever is put or hidden afterwards and whether that succeeds or not. The
  pool of a user, with its database and drives, is shown to provide it.
\<close>

subsection \<open>The interface\<close>

text \<open>
  A history: every operation reports whether it succeeded. \<open>write_once\<close> is the abstract store such
  a history is checked against: a map to which a successful operation may add a name it does not have.
\<close>
fun outcomes :: "('op \<Rightarrow> 's \<Rightarrow> bool \<times> 's) \<Rightarrow> 'op list \<Rightarrow> 's \<Rightarrow> bool list" where
  "outcomes run [] s = []"
| "outcomes run (op # ops) s = fst (run op s) # outcomes run ops (snd (run op s))"

fun run_ops :: "('op \<Rightarrow> 's \<Rightarrow> bool \<times> 's) \<Rightarrow> 'op list \<Rightarrow> 's \<Rightarrow> 's" where
  "run_ops run [] s = s"
| "run_ops run (op # ops) s = run_ops run ops (snd (run op s))"

fun write_once :: "('op \<Rightarrow> ('k \<times> 'v) option) \<Rightarrow> ('op \<times> bool) list \<Rightarrow> ('k \<rightharpoonup> 'v) \<Rightarrow> ('k \<rightharpoonup> 'v) option" where
  "write_once adds [] F = Some F"
| "write_once adds ((op, ok) # ops) F = (case adds op of
     None \<Rightarrow> write_once adds ops F
   | Some (x, y) \<Rightarrow> if \<not> ok then write_once adds ops F
       else if F x = None then write_once adds ops (F(x \<mapsto> y)) else None)"

text \<open>\<open>adds\<close> is what an operation stores when it succeeds, \<open>holds\<close> what the store is sure to give back.\<close>
locale write_once_store =
  fixes good :: "'s \<Rightarrow> bool" and run :: "'op \<Rightarrow> 's \<Rightarrow> bool \<times> 's" and adds :: "'op \<Rightarrow> ('k \<times> 'v) option"
    and allowed :: "'op \<Rightarrow> bool" and holds :: "'s \<Rightarrow> 'k \<Rightarrow> 'v \<Rightarrow> bool"
  assumes run_good: "good s \<Longrightarrow> allowed op \<Longrightarrow> good (snd (run op s))"
    and run_keeps: "good s \<Longrightarrow> allowed op \<Longrightarrow> holds s x y \<Longrightarrow> holds (snd (run op s)) x y"
    and run_adds: "good s \<Longrightarrow> allowed op \<Longrightarrow> fst (run op s) \<Longrightarrow> adds op = Some (x, y) \<Longrightarrow> holds (snd (run op s)) x y"
    and no_overwrite: "good s \<Longrightarrow> allowed op \<Longrightarrow> holds s x y \<Longrightarrow> adds op = Some (x, z) \<Longrightarrow> \<not> fst (run op s)"
begin

lemma history_refines:
  assumes "good s" "\<forall>op \<in> set ops. allowed op" "\<forall>x y. F x = Some y \<longrightarrow> holds s x y"
  shows "\<exists>F'. write_once adds (zip ops (outcomes run ops s)) F = Some F' \<and> F \<subseteq>\<^sub>m F' \<and> good (run_ops run ops s)
    \<and> (\<forall>x y. F' x = Some y \<longrightarrow> holds (run_ops run ops s) x y)"
  using assms
proof (induction ops arbitrary: s F)
  case (Cons op ops)
  let ?s = "snd (run op s)"
  have ok: "good s" "allowed op" using Cons.prems by auto
  define F1 where "F1 = (case adds op of Some (x, y) \<Rightarrow> if fst (run op s) then F(x \<mapsto> y) else F | None \<Rightarrow> F)"
  have absent: "F x = None" if "fst (run op s)" "adds op = Some (x, y)" for x y
    using that no_overwrite [OF ok] Cons.prems(3) by (cases "F x") auto
  have "\<forall>x y. F1 x = Some y \<longrightarrow> holds ?s x y"
    using run_adds [OF ok] run_keeps [OF ok] Cons.prems(3) by (auto simp: F1_def split: option.splits if_splits prod.splits)
  with Cons.IH [of ?s F1] run_good [OF ok] Cons.prems(2) obtain F' where
    F': "write_once adds (zip ops (outcomes run ops ?s)) F1 = Some F'" "F1 \<subseteq>\<^sub>m F'" "good (run_ops run ops ?s)"
      "\<forall>x y. F' x = Some y \<longrightarrow> holds (run_ops run ops ?s) x y" by auto
  moreover have "F \<subseteq>\<^sub>m F1" using absent by (auto simp: F1_def map_le_def split: option.splits prod.splits)
  moreover have "write_once adds (zip (op # ops) (outcomes run (op # ops) s)) F = Some F'"
    using F'(1) absent by (auto simp: F1_def split: option.splits prod.splits)
  ultimately show ?case using map_le_trans [of F F1 F'] by auto
qed simp

end

subsection \<open>What happens to the rows\<close>

text \<open>Every file row keeps what a download needs of it, and its chunk rows.\<close>
definition files_kept :: "db \<Rightarrow> db \<Rightarrow> bool" where
  "files_kept d d' \<longleftrightarrow> (\<forall>v \<in> set (db_vfiles d).
     (\<exists>v' \<in> set (db_vfiles d'). vf_ID v' = vf_ID v \<and> vf_UserID v' = vf_UserID v \<and> vf_Name v' = vf_Name v
        \<and> vf_FileKey v' = vf_FileKey v \<and> vf_ContentHash v' = vf_ContentHash v)
     \<and> filter (\<lambda>c. c_VirtualFileID c = vf_ID v) (db_chunks d') = filter (\<lambda>c. c_VirtualFileID c = vf_ID v) (db_chunks d))"

lemma files_kept_refl: "files_kept d d"
  by (auto simp: files_kept_def)

lemma files_kept_trans:
  assumes "files_kept d d'" "files_kept d' d''"
  shows "files_kept d d''"
  unfolding files_kept_def
proof (intro ballI conjI)
  fix v assume v: "v \<in> set (db_vfiles d)"
  then obtain v' where v': "v' \<in> set (db_vfiles d')" "vf_ID v' = vf_ID v" "vf_UserID v' = vf_UserID v" "vf_Name v' = vf_Name v"
      "vf_FileKey v' = vf_FileKey v" "vf_ContentHash v' = vf_ContentHash v"
    using assms(1) unfolding files_kept_def by blast
  with assms(2) show "\<exists>v'' \<in> set (db_vfiles d''). vf_ID v'' = vf_ID v \<and> vf_UserID v'' = vf_UserID v \<and> vf_Name v'' = vf_Name v
        \<and> vf_FileKey v'' = vf_FileKey v \<and> vf_ContentHash v'' = vf_ContentHash v"
    unfolding files_kept_def by metis
  show "filter (\<lambda>c. c_VirtualFileID c = vf_ID v) (db_chunks d'') = filter (\<lambda>c. c_VirtualFileID c = vf_ID v) (db_chunks d)"
    using assms v v'(1,2) unfolding files_kept_def by metis
qed

lemma files_kept_grow:
  "set (db_vfiles d) \<subseteq> set (db_vfiles d') \<Longrightarrow> db_chunks d' = db_chunks d @ cs \<Longrightarrow>
    (\<And>c v. c \<in> set cs \<Longrightarrow> v \<in> set (db_vfiles d) \<Longrightarrow> c_VirtualFileID c \<noteq> vf_ID v) \<Longrightarrow> files_kept d d'"
  by (auto simp: files_kept_def filter_empty_conv)

lemma files_kept_update:
  assumes "db_vfiles d' = map (\<lambda>v. if P v then f v else v) (db_vfiles d)" "db_chunks d' = db_chunks d"
    and "\<And>v. vf_ID (f v) = vf_ID v \<and> vf_UserID (f v) = vf_UserID v \<and> vf_Name (f v) = vf_Name v \<and> vf_FileKey (f v) = vf_FileKey v
      \<and> vf_ContentHash (f v) = vf_ContentHash v"
  shows "files_kept d d'"
  using assms by (auto simp: files_kept_def)

lemma create_kept: "m_CreateVirtualFile now u vf d = (res, d') \<Longrightarrow> files_kept d d'"
  unfolding m_CreateVirtualFile_def Let_def query_def sql_insert_vfile_def
  by (rule files_kept_grow [where cs = "[]"]) (auto split: list.splits option.splits if_splits)

lemma update_kept:
  assumes "\<And>v. vf_ID (f v) = vf_ID v \<and> vf_UserID (f v) = vf_UserID v \<and> vf_Name (f v) = vf_Name v \<and> vf_FileKey (f v) = vf_FileKey v
      \<and> vf_ContentHash (f v) = vf_ContentHash v"
  shows "files_kept d (snd (scoped u (sql_update_vfiles P f) d))"
proof -
  have "files_kept d (snd (sql_update_vfiles P f (d\<lparr>db_faults := fs\<rparr>)))" for fs
    by (rule files_kept_update [of _ P f]) (use assms in \<open>simp_all add: sql_update_vfiles_def\<close>)
  from this [of "db_faults d"] this show ?thesis
    using files_kept_refl [of d] files_kept_grow [of d _ "[]"] by (auto simp: scoped_def query_def split: list.splits option.splits)
qed

lemma status_kept: "files_kept d (snd (m_SetVirtualFileStatus now u i st d))"
  using update_kept [of "\<lambda>v. v\<lparr>vf_Status := st, vf_ModifiedAt := now\<rparr>" d u "\<lambda>v. vf_UserID v = u \<and> vf_ID v = i"]
  by (simp add: m_SetVirtualFileStatus_def)

lemma hide_kept: "files_kept d (snd (m_DeleteVirtualFile now u name False d))"
  using update_kept [of "\<lambda>v. v\<lparr>vf_Status := StatusDeleted, vf_ModifiedAt := now\<rparr>" d u "\<lambda>v. vf_UserID v = u \<and> vf_Name v = name"]
  by (auto simp: m_DeleteVirtualFile_def split: sum.splits prod.splits)

text \<open>The chunk rows a put records, whether or not all of them go in, belong to its own file.\<close>
lemma record_chunks_appends:
  "\<exists>cs. db_chunks (snd (record_chunks now u i ucs d)) = db_chunks d @ cs \<and> (\<forall>c \<in> set cs. c_VirtualFileID c = i)"
proof (induction ucs arbitrary: d)
  case (Cons uc ucs)
  obtain res d1 where a: "m_AddChunk now u (chunk_row i uc) d = (res, d1)" by (metis surj_pair)
  then have "\<exists>cs. db_chunks d1 = db_chunks d @ cs \<and> (\<forall>c \<in> set cs. c_VirtualFileID c = i)"
    unfolding m_AddChunk_def
    by (cases rule: query_cases) (auto simp: sql_insert_chunk_def chunk_row_def Let_def split: if_splits)
  with a Cons.IH [of d1] show ?case by (auto split: sum.splits)
qed simp


lemma record_chunks_ok:
  "db_ok d \<Longrightarrow> db_faults d = [] \<Longrightarrow>
    db_ok (snd (record_chunks now u i ucs d)) \<and> db_faults (snd (record_chunks now u i ucs d)) = []"
proof (induction ucs arbitrary: d)
  case (Cons uc ucs)
  let ?r = "(chunk_row i uc)\<lparr>c_UserID := u, c_UploadedAt := now\<rparr>"
  obtain res d1 where a: "m_AddChunk now u (chunk_row i uc) d = (res, d1)" by (metis surj_pair)
  with Cons.prems have d1: "d1 = snd (sql_insert_chunk ?r d)" by (simp add: m_AddChunk_def)
  have "db_ok d1" unfolding d1 by (rule sql_insert_chunk_ok [OF Cons.prems(1)])
  moreover have "db_faults d1 = []" using Cons.prems(2) by (simp add: d1 sql_insert_chunk_def Let_def)
  ultimately show ?case using a Cons.IH [of d1] by (auto split: sum.splits)
qed simp

lemma create_effect:
  assumes "m_CreateVirtualFile now u vf d = (res, d')" "db_ok d" "db_faults d = []"
  shows "db_ok d'" "db_faults d' = []" "db_chunks d' = db_chunks d" "set (db_vfiles d) \<subseteq> set (db_vfiles d')"
    "res = Inr row \<Longrightarrow> vf_ID row = db_vfseq d + 1 \<and> (\<forall>v \<in> set (db_vfiles d). vf_UserID v = u \<longrightarrow> vf_Name v \<noteq> vf_Name vf)"
  using assms(1,3) m_CreateVirtualFile_ok [OF assms(2), of now u vf]
  by (auto simp: m_CreateVirtualFile_def sql_insert_vfile_def Let_def list_ex_iff split: if_splits)

lemma status_effect:
  assumes "db_ok d" "db_faults d = []"
  shows "db_ok (snd (m_SetVirtualFileStatus now u i st d)) \<and> db_faults (snd (m_SetVirtualFileStatus now u i st d)) = []"
proof -
  have "db_ok (snd (sql_update_vfiles (\<lambda>v. vf_UserID v = u \<and> vf_ID v = i) (\<lambda>v. v\<lparr>vf_Status := st, vf_ModifiedAt := now\<rparr>) d))"
    by (rule sql_update_vfiles_ok [OF assms(1)]) simp_all
  with assms show ?thesis by (simp add: m_SetVirtualFileStatus_def scoped_def sql_update_vfiles_def)
qed

text \<open>What the last part of \<open>PutStream\<close> does to the database, however it ends.\<close>
lemma finish_put_kept:
  assumes fin: "finish_put E p now vf err s d = (res, w')" and ok: "db_ok d" "db_faults d = []"
  shows "files_kept d (w_db w') \<and> db_ok (w_db w') \<and> db_faults (w_db w') = []"
proof (cases "err = None \<and> ps_firstErr s = None")
  case False
  with fin ok files_kept_refl show ?thesis by (auto simp: finish_put_def Let_def split: option.splits)
next
  case True
  let ?u = "p_userID p" and ?ucs = "List.map_filter id (ps_results s)"
  obtain r1 d1 where c: "m_CreateVirtualFile now ?u vf d = (r1, d1)" by (metis surj_pair)
  note e1 = create_effect [OF c ok]
  show ?thesis
  proof (cases r1)
    case (Inl e)
    with fin True c e1 files_kept_grow [of d d1 "[]"] show ?thesis by (auto simp: finish_put_def Let_def)
  next
    case (Inr row)
    obtain r2 d2 where rc: "record_chunks now ?u (vf_ID row) ?ucs d1 = (r2, d2)" by (metis surj_pair)
    obtain cs where cs: "db_chunks d2 = db_chunks d1 @ cs" "\<forall>c \<in> set cs. c_VirtualFileID c = vf_ID row"
      using record_chunks_appends [of now ?u "vf_ID row" ?ucs d1] rc by auto
    have v2: "db_vfiles d2 = db_vfiles d1" using record_chunks_vfiles [of now ?u "vf_ID row" ?ucs d1] rc by simp
    have ok2: "db_ok d2" "db_faults d2 = []" using record_chunks_ok [OF e1(1,2), of now ?u "vf_ID row" ?ucs] rc by simp_all
    have k2: "files_kept d d2"
    proof (rule files_kept_grow)
      show "set (db_vfiles d) \<subseteq> set (db_vfiles d2)" "db_chunks d2 = db_chunks d @ cs" using e1(3,4) cs(1) v2 by simp_all
      show "c_VirtualFileID c \<noteq> vf_ID v" if "c \<in> set cs" "v \<in> set (db_vfiles d)" for c v
        using cs(2) that e1(5) [OF Inr] db_okD(9) [OF ok(1) that(2)] by force
    qed
    let ?d3 = "snd (m_SetVirtualFileStatus now ?u (vf_ID row) StatusComplete d2)"
    have "files_kept d ?d3" using files_kept_trans [OF k2 status_kept] .
    moreover note status_effect [OF ok2, of now ?u "vf_ID row" StatusComplete]
    ultimately show ?thesis using fin True c Inr rc k2 ok2
      by (auto simp: finish_put_def Let_def split: option.splits sum.splits prod.splits)
  qed
qed

text \<open>
  A put, successful or not, loses no row that a download needs and no remote file: what it takes
  away when it cleans up is only what it has brought.
\<close>
lemma put_kept:
  assumes remote: "precise_remote (e_rs E) (md5_sum (m_prims (e_mcfg E)))" "clean_deletes (e_rs E)" and ids: "ids_match p"
    and put: "PutStream E pe p r n name w = (res, w')" and ok: "db_ok (w_db w)" "db_faults (w_db w) = []"
  shows "files_kept (w_db w) (w_db w') \<and> drives_le (e_rs E) (w_drives w) (w_drives w')
    \<and> db_ok (w_db w') \<and> db_faults (w_db w') = []"
proof (cases "choose_placer E (w_drives w) (candidates p (pe_order pe)) (num_chunks n (chunkSize p))")
  case (Inl e)
  with put ok files_kept_refl show ?thesis by (auto simp: PutStream_def Let_def)
next
  case (Inr pl)
  let ?cs = "chunkSize p" and ?key = "NewEncryptionKey (pe_key pe)" and ?N = "nat (num_chunks n (chunkSize p))"
  obtain ts hashed err where plan: "plan_loop p (pe_ranks pe) ?cs ?N 0 n r pl = (ts, hashed, err)" by (metis surj_pair)
  define s where "s = run_uploads E (pe_ivs pe) ?key (GenerateID (pe_id pe)) (pe_sched pe)
    \<lparr>ps_drives = w_drives w, ps_folders = [], ps_tasks = ts, ps_results = replicate ?N None, ps_firstErr = None\<rparr>"
  have ts: "\<forall>t \<in> set ts. usable p (t_acc t) \<and> t_pc t = Started"
    using plan_loop_accounts [OF choose_placer_ok [OF ids Inr] plan] by blast
  note rc = precise_remote.axioms(1) [OF remote(1)]
  have "put_inv E (pe_ivs pe) ?key ts (w_drives w) s" unfolding s_def
    by (rule run_uploads_invariant, rule put_inv_initial)
      (use ts plan_loop_length_le [OF plan] remote_contract.task_step_inv [OF rc refl] in auto)
  then have kept: "drives_le (e_rs E) (w_drives w) (ps_drives s)" by (simp add: put_inv_def)
  from precise_remote.cleanup_restores [OF remote(1) refl refl remote(2) ts plan_loop_length_le [OF plan] s_def]
  have clean: "drives_le (e_rs E) (w_drives w) (cleanupChunks E p (List.map_filter id (ps_results s)) (ps_drives s))"
    by (simp add: drives_le_def)
  show ?thesis
  proof (cases "num_chunks n ?cs < 0")
    case True
    with put Inr ok files_kept_refl show ?thesis by (auto simp: PutStream_def Let_def)
  next
    case False
    with put Inr plan obtain vf where fin: "finish_put E p (pe_now pe) vf err s (w_db w) = (res, w')"
      by (simp add: PutStream_def Let_def s_def)
    then have "w_drives w' = ps_drives s \<or> w_drives w' = cleanupChunks E p (List.map_filter id (ps_results s)) (ps_drives s)"
      by (auto simp: finish_put_def Let_def split: option.splits sum.splits prod.splits)
    with finish_put_kept [OF fin ok] kept clean show ?thesis by auto
  qed
qed

text \<open>Hence what was stored stays stored.\<close>
lemma stored_kept:
  assumes "stored E p w name b" "files_kept (w_db w) (w_db w')" "drives_le (e_rs E) (w_drives w) (w_drives w')"
  shows "stored E p w' name b"
proof -
  let ?rows = "\<lambda>d v. filter (\<lambda>c. c_UserID c = p_userID p \<and> c_VirtualFileID c = vf_ID v) (db_chunks d)"
  obtain v rows ts ucs ivs now where v: "v \<in> set (db_vfiles (w_db w))" "vf_UserID v = p_userID p" "vf_Name v = name"
    and rows: "?rows (w_db w) v = rows" "rows \<noteq> []"
      "list_all2 (stored_row now (p_userID p) (vf_ID v)) ucs rows" "length ucs = length ts"
    and good: "\<forall>i < length ts. uc_good E ivs (vf_FileKey v) (ts ! i) (w_drives w) i (ucs ! i)" "\<forall>t \<in> set ts. usable p (t_acc t)"
    and b: "b = concat (map t_plain ts)" "vf_ContentHash v = hex_encode (sha256_sum (m_prims (e_mcfg E)) b)"
    using assms(1) unfolding stored_def by blast
  obtain v' where v': "v' \<in> set (db_vfiles (w_db w'))" "vf_ID v' = vf_ID v" "vf_UserID v' = vf_UserID v" "vf_Name v' = vf_Name v"
      "vf_FileKey v' = vf_FileKey v" "vf_ContentHash v' = vf_ContentHash v"
    and eq: "filter (\<lambda>c. c_VirtualFileID c = vf_ID v) (db_chunks (w_db w')) = filter (\<lambda>c. c_VirtualFileID c = vf_ID v) (db_chunks (w_db w))"
    using assms(2) v(1) unfolding files_kept_def by blast
  have "?rows (w_db w') v' = rows"
    using arg_cong [OF eq, of "filter (\<lambda>c. c_UserID c = p_userID p)"] rows(1) v'(2) by (simp add: conj_commute)
  moreover have "\<forall>i < length ts. uc_good E ivs (vf_FileKey v') (ts ! i) (w_drives w') i (ucs ! i)"
    using good(1) uc_good_mono [OF assms(3)] v'(5) by simp
  ultimately show ?thesis unfolding stored_def
    using v v' rows(2-4) good(2) b
    by (intro exI [of _ v'] exI [of _ rows] exI [of _ ts] exI [of _ ucs] exI [of _ ivs] exI [of _ now]) simp
qed

subsection \<open>Histories of the users of one database\<close>

text \<open>
  The calls on files: put a stream, hide a file (\<open>Remove\<close> without \<open>purge\<close>), download one. Each comes
  from a user, through the pool that was opened for that user.
\<close>
datatype file_op =
    PutFile put_env reader int string
  | HideFile int string
  | FetchFile "nat \<Rightarrow> nat" string writer

definition file_run :: "'d penv \<Rightarrow> (string \<Rightarrow> pool) \<Rightarrow> string \<times> file_op \<Rightarrow> 'd world \<Rightarrow> bool \<times> 'd world" where
  "file_run E pools uop w = (case uop of (u, op) \<Rightarrow> (case op of
     PutFile pe r n name \<Rightarrow> (case PutStream E pe (pools u) r n name w of (res, w') \<Rightarrow> (\<not> isl res, w'))
   | HideFile now name \<Rightarrow> (case Remove E now length (pools u) name False w of (res, w') \<Rightarrow> (\<not> isl res, w'))
   | FetchFile rank name out \<Rightarrow> (case GetStream E rank (pools u) name w out of (res, w', out') \<Rightarrow> (\<not> isl res, w'))))"

definition file_adds :: "string \<times> file_op \<Rightarrow> ((string \<times> string) \<times> bytes) option" where
  "file_adds uop = (case uop of
     (u, PutFile pe r n name) \<Rightarrow> Some ((u, name), take (nat n) (content r)) | _ \<Rightarrow> None)"

text \<open>A signed-in user; a size that is one, with the sum that counts the chunks in range.\<close>
definition file_allowed :: "(string \<Rightarrow> pool) \<Rightarrow> string \<times> file_op \<Rightarrow> bool" where
  "file_allowed pools uop = (case uop of (u, op) \<Rightarrow> u \<noteq> [] \<and> (case op of
     PutFile pe r n name \<Rightarrow> 0 \<le> n \<and> n + chunkSize (pools u) - 1 \<le> max_i64 | _ \<Rightarrow> True))"

definition shared_ok :: "'d penv \<Rightarrow> (string \<Rightarrow> pool) \<Rightarrow> 'd world \<Rightarrow> bool" where
  "shared_ok E pools w \<longleftrightarrow> precise_remote (e_rs E) (md5_sum (m_prims (e_mcfg E))) \<and> clean_deletes (e_rs E)
     \<and> (\<forall>u. u \<noteq> [] \<longrightarrow> p_userID (pools u) = u \<and> ids_match (pools u)) \<and> db_ok (w_db w) \<and> db_faults (w_db w) = []"

lemma hide_effect:
  assumes "db_ok (w_db w)" "db_faults (w_db w) = []"
  shows "files_kept (w_db w) (w_db (snd (Remove E now rank p name False w)))
    \<and> drives_le (e_rs E) (w_drives w) (w_drives (snd (Remove E now rank p name False w)))
    \<and> db_ok (w_db (snd (Remove E now rank p name False w))) \<and> db_faults (w_db (snd (Remove E now rank p name False w))) = []"
proof -
  let ?d = "snd (m_DeleteVirtualFile now (p_userID p) name False (w_db w))"
  have "db_ok (snd (sql_update_vfiles (\<lambda>v. vf_UserID v = p_userID p \<and> vf_Name v = name)
      (\<lambda>v. v\<lparr>vf_Status := StatusDeleted, vf_ModifiedAt := now\<rparr>) (w_db w)))"
    by (rule sql_update_vfiles_ok [OF assms(1)]) simp_all
  then have "db_ok ?d \<and> db_faults ?d = []"
    using assms by (auto simp: m_DeleteVirtualFile_def scoped_def sql_update_vfiles_def split: sum.splits prod.splits)
  moreover have "w_db (snd (Remove E now rank p name False w)) = ?d" "w_drives (snd (Remove E now rank p name False w)) = w_drives w"
    by (auto simp: Remove_def split: prod.splits sum.splits)
  ultimately show ?thesis using hide_kept [of "w_db w" now "p_userID p" name] by simp
qed

lemma fetch_effect:
  assumes "db_faults (w_db w) = []" "p_userID p \<noteq> []"
  shows "fst (snd (GetStream E rank p name w out)) = w"
proof -
  obtain r where g: "m_GetVirtualFile (p_userID p) name (w_db w) = (r, w_db w)"
    using assms by (auto simp: m_GetVirtualFile_def scoped_def Let_def split: list.splits option.splits)
  show ?thesis
    using assms g by (auto simp: GetStream_def m_ListChunks_eq Let_def split: sum.splits prod.splits option.splits)
qed

lemma file_run_kept:
  assumes "shared_ok E pools w" "file_allowed pools uop"
  shows "files_kept (w_db w) (w_db (snd (file_run E pools uop w)))
    \<and> drives_le (e_rs E) (w_drives w) (w_drives (snd (file_run E pools uop w))) \<and> shared_ok E pools (snd (file_run E pools uop w))"
proof -
  obtain u op where uop: "uop = (u, op)" by (metis surj_pair)
  have u: "p_userID (pools u) \<noteq> []" "ids_match (pools u)" using assms by (auto simp: shared_ok_def file_allowed_def uop)
  note R = assms(1) [unfolded shared_ok_def]
  show ?thesis
  proof (cases op)
    case (PutFile pe r n name)
    obtain res w' where "PutStream E pe (pools u) r n name w = (res, w')" by (metis surj_pair)
    with put_kept [OF _ _ u(2) this] R show ?thesis by (simp add: uop PutFile file_run_def shared_ok_def)
  next
    case (HideFile now name)
    obtain res w' where "Remove E now length (pools u) name False w = (res, w')" by (metis surj_pair)
    with HideFile hide_effect [of w E now length "pools u" name] R show ?thesis by (simp add: uop file_run_def shared_ok_def)
  next
    case (FetchFile rank name out)
    have "fst (snd (GetStream E rank (pools u) name w out)) = w" using fetch_effect R u by blast
    then have "snd (file_run E pools uop w) = w" by (auto simp: uop FetchFile file_run_def split: prod.splits)
    with assms(1) files_kept_refl show ?thesis by simp
  qed
qed

lemma put_taken_name:
  assumes "remote_contract (e_rs E) md5" "ids_match p" "db_ok (w_db w)" "db_faults (w_db w) = []" "stored E p w name b"
  shows "isl (fst (PutStream E pe p r n name w))"
proof (rule ccontr)
  assume "\<not> isl (fst (PutStream E pe p r n name w))"
  then obtain w' where put: "PutStream E pe p r n name w = (Inr (), w')"
    by (cases "PutStream E pe p r n name w"; cases "fst (PutStream E pe p r n name w)") auto
  obtain vf row d1 where "vf_Name vf = name" "m_CreateVirtualFile (pe_now pe) (p_userID p) vf (w_db w) = (Inr row, d1)"
    by (rule remote_contract.PutStream_success [OF assms(1) refl assms(2) put]) blast
  from create_effect(5) [OF this(2) assms(3,4) refl] this(1) assms(5) show False by (auto simp: stored_def)
qed

definition user_holds :: "'d penv \<Rightarrow> (string \<Rightarrow> pool) \<Rightarrow> 'd world \<Rightarrow> string \<times> string \<Rightarrow> bytes \<Rightarrow> bool" where
  "user_holds E pools w key b \<longleftrightarrow> fst key \<noteq> [] \<and> stored E (pools (fst key)) w (snd key) b"

lemma file_addsD:
  assumes "file_adds uop = Some (key, b)"
  obtains pe r n where "uop = (fst key, PutFile pe r n (snd key))" "b = take (nat n) (content r)"
  using assms by (auto simp: file_adds_def split: prod.splits file_op.splits)

interpretation shared: write_once_store "shared_ok E pools" "file_run E pools" file_adds "file_allowed pools"
  "user_holds E pools" for E :: "'d penv" and pools
proof unfold_locales
  fix w :: "'d world" and uop key b c
  assume ok: "shared_ok E pools w" "file_allowed pools uop"
  note kept = file_run_kept [OF ok] and R = ok(1) [unfolded shared_ok_def]
  have contract: "remote_contract (e_rs E) (md5_sum (m_prims (e_mcfg E)))" using R precise_remote.axioms(1) by blast
  show "shared_ok E pools (snd (file_run E pools uop w))" using kept by blast
  show "user_holds E pools (snd (file_run E pools uop w)) key b" if "user_holds E pools w key b"
    using that kept stored_kept by (auto simp: user_holds_def)
  show "user_holds E pools (snd (file_run E pools uop w)) key b" if won: "fst (file_run E pools uop w)" and adds: "file_adds uop = Some (key, b)"
  proof -
    obtain pe r n where op: "uop = (fst key, PutFile pe r n (snd key))" "b = take (nat n) (content r)" using adds by (rule file_addsD)
    let ?p = "pools (fst key)"
    obtain res w' where put: "PutStream E pe ?p r n (snd key) w = (res, w')" by (metis surj_pair)
    with won op(1) have put': "PutStream E pe ?p r n (snd key) w = (Inr (), w')" by (cases res) (auto simp: file_run_def)
    have al: "fst key \<noteq> []" "0 \<le> n" "n + chunkSize ?p - 1 \<le> max_i64" using ok(2) op(1) by (auto simp: file_allowed_def)
    then have "stored E ?p w' (snd key) b"
      using put_stored [OF contract _ _ _ _ al(2,3) put'] R op(2) by auto
    with al(1) op(1) put show ?thesis by (simp add: user_holds_def file_run_def)
  qed
  show "\<not> fst (file_run E pools uop w)" if held: "user_holds E pools w key b" and adds: "file_adds uop = Some (key, c)"
  proof -
    obtain pe r n where op: "uop = (fst key, PutFile pe r n (snd key))" using adds by (rule file_addsD)
    have "isl (fst (PutStream E pe (pools (fst key)) r n (snd key) w))"
      by (rule put_taken_name [OF contract]) (use held R in \<open>auto simp: user_holds_def\<close>)
    then show ?thesis by (auto simp: op file_run_def split: prod.splits)
  qed
qed

subsection \<open>Properties\<close>

text \<open>
  C2. The pools of all users, over one database and their drives, are a write-once store. After any
  history of puts, hidings and downloads by any users, in any order and whether each succeeds or
  fails, the outcomes are those of a map in which a name is written at most once, and every file
  of that map is delivered byte for byte.
\<close>
theorem pools_write_once:
  assumes "shared_ok E pools w" "\<forall>uop \<in> set ops. file_allowed pools uop"
    and "flate_ok (m_prims (e_mcfg E))" "\<forall>ds. whole_iv (e_rs E) ds"
    and w': "w' = run_ops (file_run E pools) ops w"
  shows "\<exists>F. write_once file_adds (zip ops (outcomes (file_run E pools) ops w)) Map.empty = Some F
    \<and> (\<forall>u name b rank out. F (u, name) = Some b \<longrightarrow> wcap out = None \<longrightarrow>
         GetStream E rank (pools u) name w' out = (Inr (), w', out\<lparr>wout := wout out @ b\<rparr>))"
proof -
  obtain F where F: "write_once file_adds (zip ops (outcomes (file_run E pools) ops w)) Map.empty = Some F"
    "shared_ok E pools w'" "\<forall>key b. F key = Some b \<longrightarrow> user_holds E pools w' key b"
    using shared.history_refines [OF assms(1,2), of Map.empty] w' by auto
  have "GetStream E rank (pools u) name w' out = (Inr (), w', out\<lparr>wout := wout out @ b\<rparr>)"
    if "F (u, name) = Some b" "wcap out = None" for u name b rank out
  proof -
    have "u \<noteq> []" "stored E (pools u) w' name b" using F(3) that(1) by (fastforce simp: user_holds_def)+
    with stored_get [of E "pools u" w' name b] F(2) assms(3,4) that(2) show ?thesis by (auto simp: shared_ok_def)
  qed
  with F(1) show ?thesis by blast
qed

subsection \<open>Witnesses\<close>

text \<open>A file is put, then hidden.\<close>
definition toy_history :: "(string \<times> file_op) list" where
  "toy_history = [(''u'', PutFile toy_pe (bytes_reader [1, 2, 3]) 3 ''new''), (''u'', HideFile 9 ''new'')]"

theorem pools_write_once_witness:
  "\<exists>w'. GetStream toy_penv (\<lambda>i. 0) toy_pool ''new'' w' empty_buffer = (Inr (), w', empty_buffer\<lparr>wout := [1, 2, 3]\<rparr>)
     \<and> w' = run_ops (file_run toy_penv (\<lambda>u. toy_pool\<lparr>p_userID := u\<rparr>)) toy_history toy_world"
proof -
  let ?pools = "\<lambda>u. toy_pool\<lparr>p_userID := u\<rparr>"
  let ?run = "file_run toy_penv ?pools"
  have u: "?pools ''u'' = toy_pool" by (simp add: toy_pool_def)
  have ok: "shared_ok toy_penv ?pools toy_world"
    using toy_contract toy_clean pool_sync_ids [OF toy_sync] toy_db2_ok by (simp add: shared_ok_def ids_match_def)
  have al: "\<forall>uop \<in> set toy_history. file_allowed ?pools uop"
    by (simp add: toy_history_def file_allowed_def u toy_chunkSize max_i64_def)
  obtain w1 where "PutStream toy_penv toy_pe toy_pool (bytes_reader [1, 2, 3]) 3 ''new'' toy_world = (Inr (), w1)"
    using toy_put_ok by blast
  then have "write_once file_adds (zip toy_history (outcomes ?run toy_history toy_world)) Map.empty
      = Some [(''u'', ''new'') \<mapsto> [1, 2, 3]]"
    by (simp add: toy_history_def file_run_def file_adds_def u toy_facts split: prod.splits)
  with pools_write_once [OF ok al toy_flate _ refl] toy_whole_iv
  have "GetStream toy_penv (\<lambda>i. 0) (?pools ''u'') ''new'' (run_ops ?run toy_history toy_world) empty_buffer
      = (Inr (), run_ops ?run toy_history toy_world, empty_buffer\<lparr>wout := wout empty_buffer @ [1, 2, 3]\<rparr>)"
    by (simp add: empty_buffer_def)
  then show ?thesis unfolding u by (simp add: empty_buffer_def)
qed

end
