(* ===== verification/Auth_DB.thy ===== *)
theory Auth_DB
  imports Manifest
begin

text \<open>
  \<open>backend/authdb/users.go\<close>: the login accounts of the web portal, in the \<open>users\<close> table of the same
  database. The bcrypt functions are not part of the repository and come as a record; what the
  code relies on is \<open>bcrypt_ok\<close>, that a generated hash matches its password.
\<close>

record bcrypt =
  bc_generate :: "entropy \<Rightarrow> bytes \<Rightarrow> (string, string) result"  \<comment> \<open>\<open>GenerateFromPassword\<close> at the default cost\<close>
  bc_compare :: "string \<Rightarrow> bytes \<Rightarrow> bool"  \<comment> \<open>\<open>CompareHashAndPassword\<close> returns nil\<close>

definition bcrypt_ok :: "bcrypt \<Rightarrow> bool" where
  "bcrypt_ok B \<longleftrightarrow> (\<forall>salt pw h. bc_generate B salt pw = Inr h \<longrightarrow> bc_compare B h pw)"

datatype autherr = AuthNotFound | ErrUsernameTaken | HashPasswordErr string | AuthDBErr merror

text \<open>\<open>Ping\<close>: the database answers.\<close>
definition auth_Ping :: "db \<Rightarrow> (autherr, unit) result \<times> db" where
  "auth_Ping d = (case query (\<lambda>d. (Inr (), d)) d of
     (Inl e, d') \<Rightarrow> (Inl (AuthDBErr e), d') | (Inr _, d') \<Rightarrow> (Inr (), d'))"

definition CreateUser ::
  "bcrypt \<Rightarrow> entropy \<Rightarrow> entropy \<Rightarrow> int \<Rightarrow> string \<Rightarrow> string \<Rightarrow> db \<Rightarrow> (autherr, user_row) result \<times> db"
where
  "CreateUser B salt idr now username password d =
     (case bc_generate B salt (string_bytes password) of
        Inl e \<Rightarrow> (Inl (HashPasswordErr e), d)
      | Inr h \<Rightarrow>
         (case query (sql_insert_user \<lparr>u_ID = GenerateID idr, u_Username = username, u_PasswordHash = h, u_CreatedAt = now\<rparr>) d of
            (Inl e, d') \<Rightarrow> (Inl (if IsUniqueViolation e then ErrUsernameTaken else AuthDBErr e), d')
          | (Inr u, d') \<Rightarrow> (Inr u, d')))"

definition auth_first :: "(user_row \<Rightarrow> bool) \<Rightarrow> db \<Rightarrow> (autherr, user_row) result \<times> db" where
  "auth_first Q d =
     (case query (\<lambda>d. (case sql_first u_ID Q (db_users d) of None \<Rightarrow> Inl ErrNotFound | Some u \<Rightarrow> Inr u, d)) d of
        (Inl e, d') \<Rightarrow> (Inl (if e = ErrNotFound then AuthNotFound else AuthDBErr e), d')
      | (Inr u, d') \<Rightarrow> (Inr u, d'))"

definition GetByUsername :: "string \<Rightarrow> db \<Rightarrow> (autherr, user_row) result \<times> db" where
  "GetByUsername username = auth_first (\<lambda>u. u_Username u = username)"

definition GetByID :: "string \<Rightarrow> db \<Rightarrow> (autherr, user_row) result \<times> db" where
  "GetByID i = auth_first (\<lambda>u. u_ID u = i)"

definition Authenticate :: "bcrypt \<Rightarrow> string \<Rightarrow> string \<Rightarrow> db \<Rightarrow> (autherr, user_row) result \<times> db" where
  "Authenticate B username password d = (case GetByUsername username d of
     (Inl e, d') \<Rightarrow> (Inl e, d')
   | (Inr u, d') \<Rightarrow> (if bc_compare B (u_PasswordHash u) (string_bytes password) then Inr u else Inl AuthNotFound, d'))"

text \<open>\<open>pwr\<close> are the random bytes of the discarded password.\<close>
definition GetOrCreateCLIUser ::
  "bcrypt \<Rightarrow> entropy \<Rightarrow> entropy \<Rightarrow> entropy \<Rightarrow> int \<Rightarrow> string \<Rightarrow> db \<Rightarrow> (autherr, user_row) result \<times> db"
where
  "GetOrCreateCLIUser B salt idr pwr now username d = (case GetByUsername username d of
     (Inr u, d') \<Rightarrow> (Inr u, d')
   | (Inl e, d') \<Rightarrow> if e \<noteq> AuthNotFound then (Inl e, d')
       else CreateUser B salt idr now username (GenerateID pwr) d')"

subsection \<open>Lookups\<close>

lemma auth_first_eq:
  "db_faults d = [] \<Longrightarrow> auth_first Q d =
    (case sql_first u_ID Q (db_users d) of None \<Rightarrow> Inl AuthNotFound | Some u \<Rightarrow> Inr u, d)"
  by (simp add: auth_first_def split: option.splits)

lemma GetByUsername_found:
  assumes "db_ok d" "db_faults d = []" "u \<in> set (db_users d)" "u_Username u = name"
  shows "GetByUsername name d = (Inr u, d)"
proof -
  have "sql_first u_ID (\<lambda>u. u_Username u = name) (db_users d) = Some u"
    using assms uniq_on_inj [OF db_okD(2) [OF assms(1)]] by (intro sql_first_uniq) auto
  with assms(2) show ?thesis by (simp add: GetByUsername_def auth_first_eq)
qed

lemma GetByUsername_missing:
  "db_faults d = [] \<Longrightarrow> \<forall>u \<in> set (db_users d). u_Username u \<noteq> name \<Longrightarrow> GetByUsername name d = (Inl AuthNotFound, d)"
  using sql_first_None_iff [of u_ID "\<lambda>u. u_Username u = name" "db_users d"]
  by (simp add: GetByUsername_def auth_first_eq)

lemma CreateUser_cases:
  assumes "CreateUser B salt idr now name pw d = (res, d')" "db_faults d = []"
  obtains (hash) e where "res = Inl (HashPasswordErr e)" "d' = d"
  | (taken) "res = Inl ErrUsernameTaken" "d' = d" "\<exists>u \<in> set (db_users d). u_ID u = GenerateID idr \<or> u_Username u = name"
  | (new) h u where "res = Inr u" "bc_generate B salt (string_bytes pw) = Inr h"
      "u = \<lparr>u_ID = GenerateID idr, u_Username = name, u_PasswordHash = h, u_CreatedAt = now\<rparr>"
      "d' = d\<lparr>db_users := db_users d @ [u]\<rparr>" "\<forall>v \<in> set (db_users d). u_ID v \<noteq> GenerateID idr \<and> u_Username v \<noteq> name"
proof (cases "bc_generate B salt (string_bytes pw)")
  case (Inl e)
  with assms hash show thesis by (auto simp: CreateUser_def)
next
  case (Inr h)
  show thesis
  proof (cases "\<exists>u \<in> set (db_users d). u_ID u = GenerateID idr \<or> u_Username u = name")
    case True
    then have "list_ex (\<lambda>v. u_ID v = GenerateID idr \<or> u_Username v = name) (db_users d)" by (simp add: list_ex_iff)
    with True Inr assms taken show thesis by (simp add: CreateUser_def sql_insert_user_def IsUniqueViolation_def)
  next
    case False
    then have "\<not> list_ex (\<lambda>v. u_ID v = GenerateID idr \<or> u_Username v = name) (db_users d)" by (simp add: list_ex_iff)
    with False Inr assms new show thesis by (auto simp: CreateUser_def sql_insert_user_def)
  qed
qed

lemma db_ok_users:
  assumes "db_ok d" "uniq_on u_ID us" "uniq_on u_Username us" "u_ID ` set (db_users d) \<subseteq> u_ID ` set us"
  shows "db_ok (d\<lparr>db_users := us\<rparr>)"
  using assms unfolding db_ok_def by (simp add: subset_iff)

lemma tenant_ok_users:
  "tenant_ok d \<Longrightarrow> db_ok (d\<lparr>db_users := us\<rparr>) \<Longrightarrow> tenant_ok (d\<lparr>db_users := us\<rparr>)"
  by (simp add: tenant_ok_def)

lemma CreateUser_tenant:
  assumes "tenant_ok d" "CreateUser B salt idr now name pw d = (res, d')"
  shows "tenant_ok d' \<and> tenant_view v d' = tenant_view v d \<and> db_accounts d' = db_accounts d"
proof -
  let ?u = "\<lambda>h. \<lparr>u_ID = GenerateID idr, u_Username = name, u_PasswordHash = h, u_CreatedAt = now\<rparr>"
  have ins: "tenant_ok (snd (sql_insert_user u d)) \<and> tenant_view v (snd (sql_insert_user u d)) = tenant_view v d
      \<and> db_accounts (snd (sql_insert_user u d)) = db_accounts d" if "tenant_ok d" for u d
    using that sql_insert_user_ok [of d u] by (auto simp: sql_insert_user_def tenant_ok_def tenant_view_def)
  show ?thesis
  proof (cases "bc_generate B salt (string_bytes pw)")
    case (Inr h)
    then obtain r where "query (sql_insert_user (?u h)) d = (r, d')"
      using assms(2) by (auto simp: CreateUser_def split: prod.splits sum.splits)
    then show ?thesis
    proof (cases rule: query_cases)
      case (runs fs)
      with ins [of "d\<lparr>db_faults := fs\<rparr>" "?u h"] assms(1) show ?thesis by (simp add: tenant_view_def)
    qed (use assms(1) in \<open>simp add: tenant_view_def\<close>)
  qed (use assms in \<open>simp add: CreateUser_def\<close>)
qed

subsection \<open>Properties\<close>

text \<open>
  C29. Login is exact and tells nothing about usernames: \<open>Authenticate\<close> changes nothing, returns a
  user precisely when the row of that name has a hash that matches the password, and answers an
  unknown name and a wrong password with the same error.
\<close>
theorem authenticate_exact:
  assumes "db_ok d" "db_faults d = []"
  shows "snd (Authenticate B name pw d) = d
    \<and> (fst (Authenticate B name pw d) = Inr u \<longleftrightarrow>
         u \<in> set (db_users d) \<and> u_Username u = name \<and> bc_compare B (u_PasswordHash u) (string_bytes pw))
    \<and> (fst (Authenticate B name pw d) = Inl AuthNotFound \<or> (\<exists>u. fst (Authenticate B name pw d) = Inr u))"
proof (cases "\<exists>v \<in> set (db_users d). u_Username v = name")
  case True
  then obtain v where v: "v \<in> set (db_users d)" "u_Username v = name" by blast
  have "u = v" if "u \<in> set (db_users d)" "u_Username u = name"
    using uniq_on_inj [OF db_okD(2) [OF assms(1)]] that v by simp
  with GetByUsername_found [OF assms v] v show ?thesis by (auto simp: Authenticate_def)
next
  case False
  with GetByUsername_missing [OF assms(2), of name] show ?thesis by (auto simp: Authenticate_def)
qed

text \<open>
  Registering and logging in. \<open>CreateUser\<close> either reports an error and changes nothing (a
  taken name with \<open>ErrUsernameTaken\<close>), or adds the user: the same credentials then log in as that
  user, every other login answers as before, no user's files are touched, and the invariants of
  the database are kept.
\<close>
theorem register_then_login:
  assumes "bcrypt_ok B" "tenant_ok d" "db_faults d = []"
    and new: "CreateUser B salt idr now name pw d = (res, d')"
  shows "tenant_ok d' \<and> tenant_view v d' = tenant_view v d
    \<and> (\<forall>e. res = Inl e \<longrightarrow> d' = d)
    \<and> (name \<in> u_Username ` set (db_users d) \<longrightarrow> (\<exists>e. res = Inl e))
    \<and> (\<forall>u. res = Inr u \<longrightarrow> u_Username u = name \<and> Authenticate B name pw d' = (Inr u, d')
          \<and> (other \<noteq> name \<longrightarrow> fst (Authenticate B other pw' d') = fst (Authenticate B other pw' d)))"
  using new assms(3)
proof (cases rule: CreateUser_cases)
  case (new h u)
  note t = CreateUser_tenant [OF assms(2,4), of v]
  then have ok: "db_ok d'" by (simp add: tenant_ok_def)
  have fl: "db_faults d' = []" using new assms(3) by simp
  have "Authenticate B name pw d' = (Inr u, d')"
    using GetByUsername_found [OF ok fl, of u name] new assms(1) by (simp add: Authenticate_def bcrypt_ok_def)
  moreover have "fst (Authenticate B other pw' d') = fst (Authenticate B other pw' d)" if "other \<noteq> name"
  proof -
    have "filter (\<lambda>u. u_Username u = other) (db_users d') = filter (\<lambda>u. u_Username u = other) (db_users d)"
      using new that by simp
    then have "fst (GetByUsername other d') = fst (GetByUsername other d)"
      using fl assms(3) by (simp add: GetByUsername_def auth_first_eq sql_first_def)
    then show ?thesis by (auto simp: Authenticate_def split: prod.splits sum.splits)
  qed
  ultimately show ?thesis using t new by auto
qed (use assms in auto)

text \<open>
  The identity of the command line is stable: \<open>GetOrCreateCLIUser\<close> of a registered name returns
  that user and changes nothing; of a new name it creates one user, which every later call, with
  whatever random choices, returns unchanged.
\<close>
theorem cli_user_stable:
  assumes "tenant_ok d" "db_faults d = []"
    and "GetOrCreateCLIUser B salt idr pwr now name d = (Inr u, d')"
  shows "u_Username u = name \<and> tenant_ok d' \<and> (u \<in> set (db_users d) \<longrightarrow> d' = d)
    \<and> (name \<in> u_Username ` set (db_users d) \<longrightarrow> u \<in> set (db_users d))
    \<and> GetOrCreateCLIUser B salt' idr' pwr' now' name d' = (Inr u, d')"
proof (cases "\<exists>v \<in> set (db_users d). u_Username v = name")
  case True
  then obtain v where v: "v \<in> set (db_users d)" "u_Username v = name" by blast
  have ok: "db_ok d" using assms(1) by (simp add: tenant_ok_def)
  from GetByUsername_found [OF ok assms(2) v] assms(3) v assms(1) show ?thesis
    by (auto simp: GetOrCreateCLIUser_def)
next
  case False
  then have cr: "CreateUser B salt idr now name (GenerateID pwr) d = (Inr u, d')"
    using GetByUsername_missing [OF assms(2), of name] assms(3) by (simp add: GetOrCreateCLIUser_def)
  note t = CreateUser_tenant [OF assms(1) cr]
  from cr assms(2) show ?thesis
  proof (cases rule: CreateUser_cases)
    case (new h w)
    have "GetByUsername name d' = (Inr u, d')"
      using t new assms(2) by (intro GetByUsername_found) (auto simp: tenant_ok_def)
    with new t False show ?thesis by (auto simp: GetOrCreateCLIUser_def)
  qed auto
qed

subsection \<open>Witnesses\<close>

text \<open>A stand-in for bcrypt: the hash is the password, and overlong passwords are refused.\<close>
definition toy_bcrypt :: bcrypt where
  "toy_bcrypt = \<lparr>bc_generate = (\<lambda>salt pw. if 72 < length pw then Inl ''too long'' else Inr (hex_encode pw)),
     bc_compare = (\<lambda>h pw. h = hex_encode pw)\<rparr>"

lemma toy_bcrypt_ok: "bcrypt_ok toy_bcrypt"
  by (simp add: bcrypt_ok_def toy_bcrypt_def)

lemma GenerateID_other: "length s \<noteq> 64 \<Longrightarrow> GenerateID r \<noteq> s"
  by (auto simp: GenerateID_def)

lemma toy_no_faults: "db_faults toy_db = []"
  by (simp add: toy_db_def)

text \<open>A longer name than any in the table, so it is new.\<close>
lemma toy_create:
  "\<exists>u d'. CreateUser toy_bcrypt toy_rnd toy_rnd 5 ''alice'' ''secret78'' toy_db = (Inr u, d') \<and> u \<notin> set (db_users toy_db)"
proof -
  have "GenerateID toy_rnd \<noteq> ''u''" "GenerateID toy_rnd \<noteq> ''w''" by (simp_all add: GenerateID_other)
  then show ?thesis
    by (auto simp: CreateUser_def toy_bcrypt_def toy_db_def toy_user_def sql_insert_user_def string_bytes_def)
qed

theorem authenticate_exact_witness:
  "fst (Authenticate toy_bcrypt ''nobody'' ''pw'' toy_db) = Inl AuthNotFound
    \<and> fst (Authenticate toy_bcrypt ''u'' [] toy_db) = Inr (toy_user ''u'')"
proof -
  have "fst (Authenticate toy_bcrypt ''nobody'' ''pw'' toy_db) \<noteq> Inr u" for u
    using authenticate_exact [OF toy_db_ok toy_no_faults, of toy_bcrypt "''nobody''" "''pw''" u]
    by (auto simp: toy_db_def toy_user_def)
  moreover have "toy_user ''u'' \<in> set (db_users toy_db)" by (simp add: toy_db_def)
  ultimately show ?thesis
    using authenticate_exact [OF toy_db_ok toy_no_faults, of toy_bcrypt "''nobody''" "''pw''"]
      authenticate_exact [OF toy_db_ok toy_no_faults, of toy_bcrypt "''u''" "[]" "toy_user ''u''"]
    by (auto simp: toy_user_def toy_bcrypt_def string_bytes_def)
qed

theorem register_then_login_witness:
  "\<exists>u d'. CreateUser toy_bcrypt toy_rnd toy_rnd 5 ''alice'' ''secret78'' toy_db = (Inr u, d')
     \<and> Authenticate toy_bcrypt ''alice'' ''secret78'' d' = (Inr u, d')"
proof -
  obtain u d' where c: "CreateUser toy_bcrypt toy_rnd toy_rnd 5 ''alice'' ''secret78'' toy_db = (Inr u, d')"
    using toy_create by blast
  from register_then_login [OF toy_bcrypt_ok toy_tenant_ok toy_no_faults c] c show ?thesis by auto
qed

theorem cli_user_stable_witness:
  "\<exists>u d'. GetOrCreateCLIUser toy_bcrypt toy_rnd toy_rnd toy_rnd 5 ''alice'' toy_db = (Inr u, d')
     \<and> GetOrCreateCLIUser toy_bcrypt toy_rnd toy_rnd toy_rnd 9 ''alice'' d' = (Inr u, d')"
proof -
  have n: "\<forall>u \<in> set (db_users toy_db). u_Username u \<noteq> ''alice''" by (simp add: toy_db_def toy_user_def)
  have "GenerateID toy_rnd \<noteq> ''u''" "GenerateID toy_rnd \<noteq> ''w''" by (simp_all add: GenerateID_other)
  moreover have "length (string_bytes (GenerateID toy_rnd)) \<le> 72" by (simp add: GenerateID_def string_bytes_def)
  ultimately obtain u d' where "CreateUser toy_bcrypt toy_rnd toy_rnd 5 ''alice'' (GenerateID toy_rnd) toy_db = (Inr u, d')"
    by (auto simp: CreateUser_def toy_bcrypt_def toy_db_def toy_user_def sql_insert_user_def)
  then have g: "GetOrCreateCLIUser toy_bcrypt toy_rnd toy_rnd toy_rnd 5 ''alice'' toy_db = (Inr u, d')"
    by (simp add: GetOrCreateCLIUser_def GetByUsername_missing [OF toy_no_faults n])
  from cli_user_stable [OF toy_tenant_ok toy_no_faults g] g show ?thesis by auto
qed

end
