(* ===== verification/Config.thy ===== *)
theory Config
  imports Pool_Get
begin

text \<open>
  How a process is configured: \<open>db/db.go\<close> (the variables with their \<open>_FILE\<close> variants, the connection), \<open>db/migrate.go\<close>,
  \<open>backend/config.go\<close>, \<open>drivepool/bootstrap.go\<close>, \<open>auth.LoadClientConfig\<close> and \<open>envOr\<close> of
  \<open>cmd/rhino/serve.go\<close>. The process environment is a function (\<open>os.Getenv\<close>, empty for an unset
  variable), files are read from the file system of the store, the parser of Google's client
  secrets is a parameter.
\<close>

type_synonym environ = "string \<Rightarrow> string"

datatype cfg_err =
    EnvFileErr string string oserr  \<comment> \<open>variable, path and error\<close>
  | DatabaseURLUnset
  | TokenKeyInvalid
  | ConfigDirErr string
  | ClientSecretRead oserr
  | ClientSecretParse string
  | OpenPoolErr perror

subsection \<open>os and strings\<close>

definition os_ReadFile :: "nodes \<Rightarrow> string \<Rightarrow> (oserr, bytes) result" where
  "os_ReadFile m p = (case os_Stat m p of
     Inl e \<Rightarrow> Inl e | Inr Dir \<Rightarrow> Inl EISDIR | Inr (File b) \<Rightarrow> Inr b)"

definition bytes_string :: "bytes \<Rightarrow> string" where
  "bytes_string bs = map (\<lambda>b. char_of (unat b)) bs"

text \<open>The white space of \<open>unicode.IsSpace\<close> in UTF-8.\<close>
definition space_seqs :: "string list" where
  "space_seqs = map (\<lambda>n. [char_of n]) [9, 10, 11, 12, 13, 32 :: nat]
     @ map (map char_of) ([[0xC2, 0x85], [0xC2, 0xA0], [0xE1, 0x9A, 0x80]]
         @ map (\<lambda>n. [0xE2, 0x80, n]) ([0x80..<0x8B] @ [0xA8, 0xA9, 0xAF])
         @ [[0xE2, 0x81, 0x9F], [0xE3, 0x80, 0x80 :: nat]])"

function trim_prefixes :: "string list \<Rightarrow> string \<Rightarrow> string" where
  "trim_prefixes qs s = (case find (\<lambda>q. q \<noteq> [] \<and> prefix q s) qs of
     None \<Rightarrow> s | Some q \<Rightarrow> trim_prefixes qs (drop (length q) s))"
  by pat_completeness auto

termination trim_prefixes
proof (relation "measure (\<lambda>(qs, s). length s)", goal_cases)
  case (2 qs s q)
  then have "q \<noteq> []" "prefix q s" by (auto simp: find_Some_iff)
  then show ?case by (cases s) (auto simp: prefix_def)
qed simp

declare trim_prefixes.simps [simp del]

definition TrimSpace :: "string \<Rightarrow> string" where
  "TrimSpace s = rev (trim_prefixes (map rev space_seqs) (rev (trim_prefixes space_seqs s)))"

definition clean_path :: "string \<Rightarrow> string" where
  "clean_path s = (case path_of s of
     [] \<Rightarrow> ''.''
   | c # cs \<Rightarrow> if c = ''/'' then c @ join_with ''/'' cs else join_with ''/'' (c # cs))"

definition filepath_Join :: "string list \<Rightarrow> string" where
  "filepath_Join ps = (let qs = dropWhile (\<lambda>p. p = []) ps in
     if qs = [] then [] else clean_path (join_with ''/'' qs))"

fun hex_val :: "char \<Rightarrow> nat option" where
  "hex_val c = (let n = of_char c :: nat in
     if 48 \<le> n \<and> n \<le> 57 then Some (n - 48)
     else if 97 \<le> n \<and> n \<le> 102 then Some (n - 87)
     else if 65 \<le> n \<and> n \<le> 70 then Some (n - 55)
     else None)"

text \<open>\<open>hex.DecodeString\<close>, of which only whether it fails is used.\<close>
fun hex_decode :: "string \<Rightarrow> bytes option" where
  "hex_decode [] = Some []"
| "hex_decode [c] = None"
| "hex_decode (a # b # s) = (case (hex_val a, hex_val b, hex_decode s) of
     (Some x, Some y, Some bs) \<Rightarrow> Some (word_of_nat (16 * x + y) # bs)
   | _ \<Rightarrow> None)"

subsection \<open>db/db.go\<close>

definition stringFromEnvOrFile :: "environ \<Rightarrow> nodes \<Rightarrow> string \<Rightarrow> string \<Rightarrow> (cfg_err, string) result" where
  "stringFromEnvOrFile env m envVar fileVar = (let path = env fileVar in
     if path \<noteq> [] then (case os_ReadFile m path of
         Inl e \<Rightarrow> Inl (EnvFileErr fileVar path e)
       | Inr b \<Rightarrow> Inr (TrimSpace (bytes_string b)))
     else Inr (env envVar))"

definition DatabaseURLFromEnv :: "environ \<Rightarrow> nodes \<Rightarrow> (cfg_err, string) result" where
  "DatabaseURLFromEnv env m = (case stringFromEnvOrFile env m ''DATABASE_URL'' ''DATABASE_URL_FILE'' of
     Inl e \<Rightarrow> Inl e
   | Inr url \<Rightarrow> if url = [] then Inl DatabaseURLUnset else Inr url)"

definition TokenEncryptionKeyFromEnv :: "environ \<Rightarrow> nodes \<Rightarrow> (cfg_err, bytes) result" where
  "TokenEncryptionKeyFromEnv env m =
     (case stringFromEnvOrFile env m ''RHINO_TOKEN_ENCRYPTION_KEY'' ''RHINO_TOKEN_ENCRYPTION_KEY_FILE'' of
        Inl e \<Rightarrow> Inl e
      | Inr keyHex \<Rightarrow> (case hex_decode keyHex of
          None \<Rightarrow> Inl TokenKeyInvalid
        | Some key \<Rightarrow> if keyHex = [] \<or> length key \<noteq> 32 then Inl TokenKeyInvalid else Inr key))"

subsection \<open>db/migrate.go and db.Open\<close>

datatype migrate_err = ErrNoChange | MigrateFailed string

text \<open>What golang-migrate, gorm and the Postgres server answer for a database URL.\<close>
record dbms =
  dm_source :: "string option"  \<comment> \<open>the error of \<open>iofs.New\<close>\<close>
  dm_migrator :: "string \<Rightarrow> string option"
  dm_Up :: "string \<Rightarrow> migrate_err option"
  dm_gorm :: "string \<Rightarrow> string option"
  dm_sqlDB :: "string \<Rightarrow> string option"

definition Migrate :: "dbms \<Rightarrow> string \<Rightarrow> string option" where
  "Migrate D databaseURL = (case dm_source D of
     Some e \<Rightarrow> Some (''db: load migration source: '' @ e)
   | None \<Rightarrow> (case dm_migrator D databaseURL of
       Some e \<Rightarrow> Some (''db: init migrator: '' @ e)
     | None \<Rightarrow> (case dm_Up D databaseURL of
         Some (MigrateFailed e) \<Rightarrow> Some (''db: apply migrations: '' @ e)
       | _ \<Rightarrow> None)))"

text \<open>How the connection pool is configured; durations in minutes.\<close>
record gorm_conn =
  gc_DSN :: string
  gc_PreferSimpleProtocol :: bool
  gc_LogQueries :: bool
  gc_MaxOpenConns :: int
  gc_MaxIdleConns :: int
  gc_ConnMaxLifetime :: int
  gc_ConnMaxIdleTime :: int

definition db_Open :: "dbms \<Rightarrow> environ \<Rightarrow> string \<Rightarrow> (string, gorm_conn) result" where
  "db_Open D env databaseURL =
     (if databaseURL = [] then Inl ''db: DATABASE_URL is not set''
      else (case dm_gorm D databaseURL of
          Some e \<Rightarrow> Inl (''db: open: '' @ e)
        | None \<Rightarrow> (case dm_sqlDB D databaseURL of
            Some e \<Rightarrow> Inl (''db: underlying sql.DB: '' @ e)
          | None \<Rightarrow> Inr \<lparr>gc_DSN = databaseURL, gc_PreferSimpleProtocol = True, gc_LogQueries = (env ''RHINO_DB_LOG'' = ''1''),
              gc_MaxOpenConns = 10, gc_MaxIdleConns = 5, gc_ConnMaxLifetime = 30, gc_ConnMaxIdleTime = 5\<rparr>)))"

subsection \<open>drivepool/bootstrap.go and auth.LoadClientConfig\<close>

text \<open>\<open>configDir\<close> is what \<open>os.UserConfigDir\<close> returns.\<close>
definition DefaultClientSecretPath :: "(string, string) result \<Rightarrow> (cfg_err, string) result" where
  "DefaultClientSecretPath configDir = (case configDir of
     Inl e \<Rightarrow> Inl (ConfigDirErr e)
   | Inr dir \<Rightarrow> Inr (filepath_Join [dir, ''rhino'', ''client_secret.json'']))"

definition LoadClientConfig :: "(bytes \<Rightarrow> (string, 'c) result) \<Rightarrow> nodes \<Rightarrow> string \<Rightarrow> (cfg_err, 'c) result" where
  "LoadClientConfig parse m path = (case os_ReadFile m path of
     Inl e \<Rightarrow> Inl (ClientSecretRead e)
   | Inr b \<Rightarrow> (case parse b of Inl e \<Rightarrow> Inl (ClientSecretParse e) | Inr cfg \<Rightarrow> Inr cfg))"

text \<open>The client configuration decides how clients are built from tokens, hence the environment of the pool.\<close>
definition OpenWithUser ::
  "(bytes \<Rightarrow> (string, 'c) result) \<Rightarrow> ('c \<Rightarrow> 'd penv) \<Rightarrow> (string, string) result \<Rightarrow> nodes \<Rightarrow> string \<Rightarrow> string \<Rightarrow> db
     \<Rightarrow> (cfg_err, pool) result \<times> db"
where
  "OpenWithUser parse mkenv configDir m userID credentialsPath d =
     (case (if credentialsPath = [] then DefaultClientSecretPath configDir else Inr credentialsPath) of
        Inl e \<Rightarrow> (Inl e, d)
      | Inr path \<Rightarrow> (case LoadClientConfig parse m path of
          Inl e \<Rightarrow> (Inl e, d)
        | Inr cfg \<Rightarrow> (case Open (mkenv cfg) userID d of
            (Inl e, d') \<Rightarrow> (Inl (OpenPoolErr e), d') | (Inr p, d') \<Rightarrow> (Inr p, d'))))"

subsection \<open>backend/config.go and envOr\<close>

record config =
  cf_DatabaseURL :: string
  cf_TokenEncryptionKey :: bytes
  cf_ClientSecretPath :: string
  cf_SessionSecret :: bytes
  cf_SessionSecure :: bool
  cf_PublicURL :: string

definition randomBytes :: "entropy \<Rightarrow> nat \<Rightarrow> bytes" where
  "randomBytes rnd n = map rnd [0..<n]"

definition ConfigFromEnv :: "environ \<Rightarrow> nodes \<Rightarrow> (string, string) result \<Rightarrow> entropy \<Rightarrow> (cfg_err, config) result" where
  "ConfigFromEnv env m configDir rnd =
     (case DatabaseURLFromEnv env m of Inl e \<Rightarrow> Inl e | Inr databaseURL \<Rightarrow>
     (case TokenEncryptionKeyFromEnv env m of Inl e \<Rightarrow> Inl e | Inr key \<Rightarrow>
     (case (if env ''RHINO_CLIENT_SECRET'' \<noteq> [] then Inr (env ''RHINO_CLIENT_SECRET'')
            else DefaultClientSecretPath configDir) of Inl e \<Rightarrow> Inl e | Inr clientSecret \<Rightarrow>
      let publicURL = (if env ''RHINO_PUBLIC_URL'' \<noteq> [] then trim_right (CHR ''/'') (env ''RHINO_PUBLIC_URL'')
                       else ''http://localhost:8080'');
          cfg = (\<lambda>secret. \<lparr>cf_DatabaseURL = databaseURL, cf_TokenEncryptionKey = key, cf_ClientSecretPath = clientSecret,
            cf_SessionSecret = secret, cf_SessionSecure = (env ''RHINO_SESSION_SECURE'' = ''1''), cf_PublicURL = publicURL\<rparr>)
      in if env ''RHINO_SESSION_SECRET_FILE'' \<noteq> [] then
           (case os_ReadFile m (env ''RHINO_SESSION_SECRET_FILE'') of
              Inl e \<Rightarrow> Inl (EnvFileErr ''RHINO_SESSION_SECRET_FILE'' (env ''RHINO_SESSION_SECRET_FILE'') e)
            | Inr b \<Rightarrow> Inr (cfg (string_bytes (TrimSpace (bytes_string b)))))
         else if env ''RHINO_SESSION_SECRET'' \<noteq> [] then Inr (cfg (string_bytes (env ''RHINO_SESSION_SECRET'')))
         else Inr (cfg (randomBytes rnd 32)))))"

definition oauthRedirectURL :: "config \<Rightarrow> string" where
  "oauthRedirectURL cfg = trim_right (CHR ''/'') (cf_PublicURL cfg) @ ''/api/accounts/oauth/callback''"

definition randomState :: "entropy \<Rightarrow> string" where
  "randomState rnd = hex_encode (map rnd [0..<16])"

definition envOr :: "environ \<Rightarrow> string \<Rightarrow> string \<Rightarrow> string" where
  "envOr env key fallback = (if env key \<noteq> [] then env key else fallback)"

subsection \<open>Decoding and trimming\<close>

lemma hex_val_digit: "n < 16 \<Longrightarrow> hex_val (hex_digit n) = Some n"
proof -
  have "\<forall>n \<in> set [0..<16]. hex_val (hex_digit n) = Some n" by code_simp
  then show "n < 16 \<Longrightarrow> ?thesis" by simp
qed

lemma hex_decode_encode: "hex_decode (hex_encode bs) = Some bs"
proof (induction bs)
  case (Cons b bs)
  have "unat b div 16 < 16" using unat_byte_lt [of b] by linarith
  with Cons show ?case by (simp add: hex_byte_def hex_val_digit del: hex_val.simps)
qed simp

lemma trim_prefixes_stop: "(\<forall>q \<in> set qs. q \<noteq> [] \<longrightarrow> \<not> prefix q s) \<Longrightarrow> trim_prefixes qs s = s"
proof -
  assume "\<forall>q \<in> set qs. q \<noteq> [] \<longrightarrow> \<not> prefix q s"
  then have "find (\<lambda>q. q \<noteq> [] \<and> prefix q s) qs = None" by (auto simp: find_None_iff)
  then show ?thesis by (simp add: trim_prefixes.simps)
qed

text \<open>No white space starts or ends with a printable ASCII character.\<close>
definition visible :: "char \<Rightarrow> bool" where
  "visible c \<longleftrightarrow> 32 < (of_char c :: nat) \<and> (of_char c :: nat) < 127"

lemma space_seqs_ends: "q \<in> set space_seqs \<Longrightarrow> q \<noteq> [] \<and> \<not> visible (hd q) \<and> \<not> visible (last q)"
  by (auto simp: space_seqs_def visible_def)

lemma trim_left_visible: "s = [] \<or> visible (hd s) \<Longrightarrow> trim_prefixes space_seqs s = s"
proof (rule trim_prefixes_stop, intro ballI impI notI)
  fix q assume "s = [] \<or> visible (hd s)" "q \<in> set space_seqs" "q \<noteq> []" "prefix q s"
  then show False using space_seqs_ends [of q] by (auto simp: prefix_def)
qed

lemma trim_right_visible: "s = [] \<or> visible (hd s) \<Longrightarrow> trim_prefixes (map rev space_seqs) s = s"
proof (rule trim_prefixes_stop, intro ballI impI notI)
  fix q assume s: "s = [] \<or> visible (hd s)" and "q \<in> set (map rev space_seqs)" "q \<noteq> []" "prefix q s"
  then obtain p where "p \<in> set space_seqs" "q = rev p" by auto
  with s \<open>q \<noteq> []\<close> \<open>prefix q s\<close> show False using space_seqs_ends [of p] by (auto simp: prefix_def hd_rev)
qed

text \<open>Text between visible characters survives \<open>TrimSpace\<close>, with or without a final newline.\<close>
lemma TrimSpace_id:
  assumes "s = [] \<or> visible (hd s) \<and> visible (last s)"
  shows "TrimSpace s = s" and "TrimSpace (s @ [char_of (10 :: nat)]) = s"
proof -
  let ?nl = "char_of (10 :: nat) :: char"
  have r: "trim_prefixes (map rev space_seqs) (rev s) = rev s"
    using assms by (intro trim_right_visible) (auto simp: hd_rev)
  show "TrimSpace s = s" using assms trim_left_visible [of s] r by (auto simp: TrimSpace_def)
  have nl: "find (\<lambda>q. q \<noteq> [] \<and> prefix q (?nl # t)) (map rev space_seqs) = Some [?nl]" for t
    by (simp add: space_seqs_def)
  have nl': "find (\<lambda>q. q \<noteq> [] \<and> prefix q (?nl # t)) space_seqs = Some [?nl]" for t
    by (simp add: space_seqs_def)
  show "TrimSpace (s @ [?nl]) = s"
  proof (cases "s = []")
    case True
    then show ?thesis
      using trim_prefixes.simps [of space_seqs "[?nl]"] trim_left_visible [of "[]"] trim_right_visible [of "[]"] nl' [of "[]"]
      by (simp add: TrimSpace_def)
  next
    case False
    then have "trim_prefixes space_seqs (s @ [?nl]) = s @ [?nl]" using assms by (intro trim_left_visible) simp
    then show ?thesis using trim_prefixes.simps [of "map rev space_seqs" "?nl # rev s"] nl r by (simp add: TrimSpace_def)
  qed
qed


lemma visible_hex: "c \<in> hex_chars \<Longrightarrow> visible c"
proof -
  have "\<forall>c \<in> set hex_table. visible c" by code_simp
  then show "c \<in> hex_chars \<Longrightarrow> ?thesis" by (simp add: hex_chars_def)
qed

lemma bytes_string_inverse: "bytes_string (string_bytes s) = s"
  by (induction s) (simp_all add: bytes_string_def string_bytes_def unat_of_nat)

subsection \<open>Properties\<close>

text \<open>
  The key that protects the stored tokens. Whatever the environment and the files hold,
  \<open>TokenEncryptionKeyFromEnv\<close> yields a key of exactly 32 bytes or an error; the hex form of a key
  is read back as that key from the variable and, with or without a final newline, from the file,
  and the file wins over the variable.
\<close>
theorem token_key_from_env:
  "(\<forall>key. TokenEncryptionKeyFromEnv env m = Inr key \<longrightarrow> length key = 32)
    \<and> (length k = 32 \<longrightarrow> env ''RHINO_TOKEN_ENCRYPTION_KEY_FILE'' = [] \<longrightarrow> env ''RHINO_TOKEN_ENCRYPTION_KEY'' = hex_encode k
        \<longrightarrow> TokenEncryptionKeyFromEnv env m = Inr k)
    \<and> (length k = 32 \<longrightarrow> env ''RHINO_TOKEN_ENCRYPTION_KEY_FILE'' \<noteq> []
        \<longrightarrow> (\<exists>e. e \<in> {[], [10]} \<and> os_ReadFile m (env ''RHINO_TOKEN_ENCRYPTION_KEY_FILE'') = Inr (string_bytes (hex_encode k) @ e))
        \<longrightarrow> TokenEncryptionKeyFromEnv env m = Inr k)"
proof -
  have "visible c" if "c \<in> set (hex_encode k)" for c
    using that set_hex_encode [of k] visible_hex by blast
  then have "hex_encode k = [] \<or> visible (hd (hex_encode k)) \<and> visible (last (hex_encode k))"
    by (cases "hex_encode k = []") simp_all
  note t = TrimSpace_id [OF this]
  have b: "bytes_string (string_bytes s @ [10]) = s @ [char_of (10 :: nat)]" for s
    using bytes_string_inverse [of s] by (simp add: bytes_string_def)
  have ne: "length k = 32 \<Longrightarrow> hex_encode k \<noteq> []" by (metis length_0_conv length_hex_encode mult_eq_0_iff zero_neq_numeral)
  show ?thesis
  proof (intro conjI impI allI)
    fix key assume "TokenEncryptionKeyFromEnv env m = Inr key"
    then show "length key = 32"
      by (auto simp: TokenEncryptionKeyFromEnv_def split: sum.splits option.splits if_splits)
  next
    assume "length k = 32" "env ''RHINO_TOKEN_ENCRYPTION_KEY_FILE'' = []" "env ''RHINO_TOKEN_ENCRYPTION_KEY'' = hex_encode k"
    then show "TokenEncryptionKeyFromEnv env m = Inr k"
      using ne by (simp add: TokenEncryptionKeyFromEnv_def stringFromEnvOrFile_def hex_decode_encode)
  next
    assume k: "length k = 32" "env ''RHINO_TOKEN_ENCRYPTION_KEY_FILE'' \<noteq> []"
      and "\<exists>e. e \<in> {[], [10]} \<and> os_ReadFile m (env ''RHINO_TOKEN_ENCRYPTION_KEY_FILE'') = Inr (string_bytes (hex_encode k) @ e)"
    then obtain e where e: "e = [] \<or> e = [10]"
      "os_ReadFile m (env ''RHINO_TOKEN_ENCRYPTION_KEY_FILE'') = Inr (string_bytes (hex_encode k) @ e)" by auto
    have "TrimSpace (bytes_string (string_bytes (hex_encode k) @ e)) = hex_encode k"
      using e(1) t b bytes_string_inverse by auto
    with k e(2) ne show "TokenEncryptionKeyFromEnv env m = Inr k"
      by (simp add: TokenEncryptionKeyFromEnv_def stringFromEnvOrFile_def hex_decode_encode)
  qed
qed

text \<open>
  A server that starts is configured: \<open>ConfigFromEnv\<close> succeeds only with a database URL, a
  32-byte token key, which AES accepts, and a client secret path; the public URL never ends in a
  slash, so the OAuth redirect URL is the public URL followed by the callback route. Without a
  configured session secret it has 32 random bytes.
\<close>
theorem config_from_env:
  assumes "ConfigFromEnv env m configDir rnd = Inr cfg"
  shows "cf_DatabaseURL cfg \<noteq> [] \<and> length (cf_TokenEncryptionKey cfg) = 32 \<and> aes_key_ok (cf_TokenEncryptionKey cfg)
    \<and> (cf_PublicURL cfg = [] \<or> last (cf_PublicURL cfg) \<noteq> CHR ''/'')
    \<and> oauthRedirectURL cfg = cf_PublicURL cfg @ ''/api/accounts/oauth/callback''
    \<and> (env ''RHINO_SESSION_SECRET_FILE'' = [] \<longrightarrow> env ''RHINO_SESSION_SECRET'' = [] \<longrightarrow> length (cf_SessionSecret cfg) = 32)"
proof -
  let ?url = "if env ''RHINO_PUBLIC_URL'' \<noteq> [] then trim_right (CHR ''/'') (env ''RHINO_PUBLIC_URL'') else ''http://localhost:8080''"
  have c: "DatabaseURLFromEnv env m = Inr (cf_DatabaseURL cfg)" "TokenEncryptionKeyFromEnv env m = Inr (cf_TokenEncryptionKey cfg)"
    "cf_PublicURL cfg = ?url"
    "env ''RHINO_SESSION_SECRET_FILE'' = [] \<longrightarrow> env ''RHINO_SESSION_SECRET'' = [] \<longrightarrow> cf_SessionSecret cfg = randomBytes rnd 32"
    using assms by (auto simp: ConfigFromEnv_def Let_def split: sum.splits if_splits)
  have url: "cf_PublicURL cfg = [] \<or> last (cf_PublicURL cfg) \<noteq> CHR ''/''"
    unfolding c(3) using trim_right_last [of "CHR ''/''" "env ''RHINO_PUBLIC_URL''"] by simp
  then have "trim_right (CHR ''/'') (cf_PublicURL cfg) = cf_PublicURL cfg"
    by (cases "cf_PublicURL cfg" rule: rev_cases) (simp_all add: trim_right_def)
  then have "oauthRedirectURL cfg = cf_PublicURL cfg @ ''/api/accounts/oauth/callback''" by (simp add: oauthRedirectURL_def)
  moreover have "cf_DatabaseURL cfg \<noteq> []" using c(1) by (auto simp: DatabaseURLFromEnv_def split: sum.splits if_splits)
  moreover have "length (cf_TokenEncryptionKey cfg) = 32"
    using c(2) by (auto simp: TokenEncryptionKeyFromEnv_def split: sum.splits option.splits if_splits)
  ultimately show ?thesis using url c(4) by (simp add: aes_key_ok_def randomBytes_def)
qed

subsection \<open>Witnesses\<close>

definition toy_environ :: environ where
  "toy_environ v = (if v = ''DATABASE_URL'' then ''postgres://db'' else if v = ''RHINO_TOKEN_ENCRYPTION_KEY'' then
     hex_encode (replicate 32 5) else if v = ''RHINO_PUBLIC_URL'' then ''https://x//'' else [])"

lemma toy_environ_config:
  "\<exists>cfg. ConfigFromEnv toy_environ (\<lambda>p. None) (Inr ''/c'') toy_rnd = Inr cfg \<and> cf_PublicURL cfg = ''https://x''"
proof -
  have "TokenEncryptionKeyFromEnv toy_environ (\<lambda>p. None) = Inr (replicate 32 5)"
    using hex_decode_encode [of "replicate 32 5"]
    by (auto simp: TokenEncryptionKeyFromEnv_def stringFromEnvOrFile_def toy_environ_def dest: arg_cong [where f = length])
  then show ?thesis
    by (simp add: ConfigFromEnv_def DatabaseURLFromEnv_def stringFromEnvOrFile_def toy_environ_def DefaultClientSecretPath_def
        trim_right_def)
qed

theorem token_key_from_env_witness:
  "TokenEncryptionKeyFromEnv toy_environ (\<lambda>p. None) = Inr (replicate 32 5)"
  using token_key_from_env [of toy_environ "\<lambda>p. None" "replicate 32 5"] by (simp add: toy_environ_def)

theorem config_from_env_witness:
  "\<exists>cfg. ConfigFromEnv toy_environ (\<lambda>p. None) (Inr ''/c'') toy_rnd = Inr cfg
     \<and> oauthRedirectURL cfg = ''https://x/api/accounts/oauth/callback'' \<and> length (cf_TokenEncryptionKey cfg) = 32"
proof -
  obtain cfg where c: "ConfigFromEnv toy_environ (\<lambda>p. None) (Inr ''/c'') toy_rnd = Inr cfg" "cf_PublicURL cfg = ''https://x''"
    using toy_environ_config by blast
  from config_from_env [OF c(1)] c show ?thesis by auto
qed

end
