(* ===== verification/Pool_Tenancy.thy ===== *)
theory Pool_Tenancy
  imports Pool_Get
begin

text \<open>
  Tenant isolation carried from the manifest to the pool: whatever a pool of one user does to the
  database, no other user's rows change. The one thing a pool has to be careful about is to attach
  chunks to accounts of its own user only, which holds as long as the pool's accounts, as far as
  they are still registered, belong to its user (\<open>pool_owned\<close>).
\<close>

text \<open>
  A step of user \<open>u\<close> on the database: integrity is kept, the other users' rows are untouched, and
  every account afterwards was there before or is a new one of the user, with an identifier in \<open>X\<close>.
\<close>
definition user_step :: "string \<Rightarrow> string set \<Rightarrow> db \<Rightarrow> db \<Rightarrow> bool" where
  "user_step u X d d' \<longleftrightarrow>
     (tenant_ok d \<longrightarrow> tenant_ok d' \<and> (\<forall>v. v \<noteq> u \<longrightarrow> tenant_view v d' = tenant_view v d))
   \<and> (\<forall>a \<in> set (db_accounts d'). a_ID a \<in> X \<and> a_UserID a = u \<or> (\<exists>b \<in> set (db_accounts d). a_ID b = a_ID a \<and> a_UserID b = a_UserID a))"

definition pool_owned :: "pool \<Rightarrow> db \<Rightarrow> bool" where
  "pool_owned p d \<longleftrightarrow> (\<forall>r \<in> set (db_accounts d). map_of (p_accounts p) (a_ID r) \<noteq> None \<longrightarrow> a_UserID r = p_userID p)"

lemma user_step_refl [simp, intro]: "user_step u X d d"
  by (auto simp: user_step_def)

lemma user_step_faults [simp, intro]: "user_step u X d (d\<lparr>db_faults := fs\<rparr>)"
  by (auto simp: user_step_def)

lemma user_step_trans: "user_step u X d d' \<Longrightarrow> user_step u X d' d'' \<Longrightarrow> user_step u X d d''"
  unfolding user_step_def by metis

lemma user_step_mono: "user_step u X d d' \<Longrightarrow> X \<subseteq> Y \<Longrightarrow> user_step u Y d d'"
  unfolding user_step_def by blast

lemma pool_owned_step:
  "pool_owned p d \<Longrightarrow> user_step u X d d' \<Longrightarrow> \<forall>i \<in> X. map_of (p_accounts p) i = None \<Longrightarrow> pool_owned p d'"
  unfolding pool_owned_def user_step_def by metis

lemma pool_owned_own: "pool_owned p d \<Longrightarrow> user_step (p_userID p) X d d' \<Longrightarrow> pool_owned p d'"
  unfolding pool_owned_def user_step_def by metis

text \<open>A statement that only reads.\<close>
lemma user_step_read: "(\<And>d. snd (f d) = d) \<Longrightarrow> user_step u X d (snd (query f d))"
  by (auto simp: query_def split: list.splits option.splits)

lemma user_step_scoped_read: "(\<And>d. snd (f d) = d) \<Longrightarrow> user_step u X d (snd (scoped v f d))"
  by (simp add: scoped_def user_step_read)

subsection \<open>The operations of the manifest\<close>

lemma query_accounts:
  assumes "\<And>d a. a \<in> set (db_accounts (snd (f d))) \<Longrightarrow> a_ID a \<in> X \<and> a_UserID a = u \<or> (\<exists>b \<in> set (db_accounts d). a_ID b = a_ID a \<and> a_UserID b = a_UserID a)"
    and "a \<in> set (db_accounts (snd (query f d)))"
  shows "a_ID a \<in> X \<and> a_UserID a = u \<or> (\<exists>b \<in> set (db_accounts d). a_ID b = a_ID a \<and> a_UserID b = a_UserID a)"
proof -
  obtain res d' where q: "query f d = (res, d')" by (metis surj_pair)
  then show ?thesis
  proof (cases rule: query_cases)
    case (runs fs)
    with assms(1) [of a "d\<lparr>db_faults := fs\<rparr>"] assms(2) q show ?thesis by simp
  qed (use assms(2) q in auto)
qed

lemma mop_step_accounts:
  assumes "a \<in> set (db_accounts (mop_step m u op d))"
  shows "a_ID a \<in> (case op of MAddAccount r b \<Rightarrow> {a_ID b} | _ \<Rightarrow> {}) \<and> a_UserID a = u
    \<or> (\<exists>b \<in> set (db_accounts d). a_ID b = a_ID a \<and> a_UserID b = a_UserID a)"
proof (cases op)
  case (MAddAccount rnd b)
  with assms show ?thesis
    by (auto simp: mop_step_def m_AddAccount_def sql_insert_account_def split: sum.splits if_splits
        dest!: query_accounts [where X = "{a_ID b}" and u = u, rotated])
next
  case (MRemoveAccount l)
  with assms show ?thesis
    unfolding mop_step_def m_RemoveAccount_def snd_result_case scoped_def
    by (auto simp: sql_delete_accounts_def split: if_splits dest!: query_accounts [where X = "{}" and u = u, rotated])
next
  case (MUpdateAccountQuota i l us n)
  with assms show ?thesis
    unfolding mop_step_def m_UpdateAccountQuota_def snd_result_case scoped_def
    by (auto simp: sql_update_accounts_def split: if_splits dest!: query_accounts [where X = "{}" and u = u, rotated]) blast+
next
  case (MCreateVirtualFile n vf)
  with assms show ?thesis
    unfolding mop_step_def m_CreateVirtualFile_def snd_result_case Let_def
    by (auto simp: sql_insert_vfile_def Let_def split: if_splits dest!: query_accounts [where X = "{}" and u = u, rotated])
next
  case (MSetVirtualFileStatus n i st)
  with assms show ?thesis
    unfolding mop_step_def m_SetVirtualFileStatus_def snd_result_case scoped_def
    by (auto simp: sql_update_vfiles_def split: if_splits dest!: query_accounts [where X = "{}" and u = u, rotated])
next
  case (MDeleteVirtualFile n nm pu)
  with assms show ?thesis
    by (cases pu) (auto simp: mop_step_def m_DeleteVirtualFile_def scoped_def sql_update_vfiles_def sql_delete_vfiles_def Let_def
        split: if_splits dest!: query_accounts [where X = "{}" and u = u, rotated])
next
  case (MAddChunk n c)
  with assms show ?thesis
    by (auto simp: mop_step_def m_AddChunk_def sql_insert_chunk_def Let_def
        split: if_splits dest!: query_accounts [where X = "{}" and u = u, rotated])
qed

lemma mop_step_user:
  assumes "mop_allowed u op d" "(case op of MAddAccount r b \<Rightarrow> {a_ID b} | _ \<Rightarrow> {}) \<subseteq> X"
  shows "user_step u X d (mop_step m u op d)"
  unfolding user_step_def
proof (intro conjI impI allI ballI)
  show "tenant_ok d \<Longrightarrow> tenant_ok (mop_step m u op d)" using assms(1) by (rule tenants.step_inv [rotated])
  show "tenant_view v (mop_step m u op d) = tenant_view v d" if "tenant_ok d" "v \<noteq> u" for v
    using tenants.step_view [OF that(1) assms(1)] that(2) by simp
  show "a_ID a \<in> X \<and> a_UserID a = u \<or> (\<exists>b \<in> set (db_accounts d). a_ID b = a_ID a \<and> a_UserID b = a_UserID a)"
    if "a \<in> set (db_accounts (mop_step m u op d))" for a
    using mop_step_accounts [OF that] assms(2) by blast
qed

lemma m_AddAccount_user: "a_ID a \<in> X \<Longrightarrow> user_step u X d (snd (m_AddAccount m r u a d))"
  using mop_step_user [of u "MAddAccount r a" d X m] by (simp add: mop_step_def mop_allowed_def)

lemma m_RemoveAccount_user: "user_step u X d (snd (m_RemoveAccount u l d))"
  using mop_step_user [of u "MRemoveAccount l" d X] by (simp add: mop_step_def mop_allowed_def)

lemma m_UpdateAccountQuota_user: "user_step u X d (snd (m_UpdateAccountQuota u i l us n d))"
  using mop_step_user [of u "MUpdateAccountQuota i l us n" d X] by (simp add: mop_step_def mop_allowed_def)

lemma m_CreateVirtualFile_user: "user_step u X d (snd (m_CreateVirtualFile n u vf d))"
  using mop_step_user [of u "MCreateVirtualFile n vf" d X] by (simp add: mop_step_def mop_allowed_def)

lemma m_SetVirtualFileStatus_user: "user_step u X d (snd (m_SetVirtualFileStatus n u i st d))"
  using mop_step_user [of u "MSetVirtualFileStatus n i st" d X] by (simp add: mop_step_def mop_allowed_def)

lemma m_DeleteVirtualFile_user: "user_step u X d (snd (m_DeleteVirtualFile n u nm pu d))"
  using mop_step_user [of u "MDeleteVirtualFile n nm pu" d X] by (simp add: mop_step_def mop_allowed_def)

lemma m_AddChunk_user: "mop_allowed u (MAddChunk n c) d \<Longrightarrow> user_step u X d (snd (m_AddChunk n u c d))"
  using mop_step_user [of u "MAddChunk n c" d X] by (simp add: mop_step_def)

lemma read_users:
  "user_step u X d (snd (m_GetAccount m v l d))" "user_step u X d (snd (m_ListAccounts m v d))"
  "user_step u X d (snd (m_CountActiveChunks v i d))" "user_step u X d (snd (m_GetVirtualFile v nm d))"
  "user_step u X d (snd (m_ListVirtualFiles m v pre d))" "user_step u X d (snd (m_ListChunks v j d))"
proof -
  show "user_step u X d (snd (m_GetAccount m v l d))"
  proof -
    let ?f = "\<lambda>d. (case sql_first a_ID (\<lambda>a. a_UserID a = v \<and> a_Label a = l) (db_accounts d) of
       None \<Rightarrow> Inl ErrNotFound | Some a \<Rightarrow> Inr a, d)"
    have "snd (m_GetAccount m v l d) = snd (scoped v ?f d)"
      by (auto simp: m_GetAccount_def split: prod.splits sum.splits)
    then show ?thesis using user_step_scoped_read [of ?f u X d v] by simp
  qed
  show "user_step u X d (snd (m_ListAccounts m v d))"
    unfolding m_ListAccounts_def snd_result_case by (rule user_step_scoped_read) simp
qed (simp_all add: m_CountActiveChunks_def m_GetVirtualFile_def m_ListVirtualFiles_def m_ListChunks_def
      user_step_read user_step_scoped_read)

lemmas m_users = m_AddAccount_user m_RemoveAccount_user m_UpdateAccountQuota_user m_CreateVirtualFile_user
  m_SetVirtualFileStatus_user m_DeleteVirtualFile_user read_users

text \<open>The same for result pairs.\<close>
lemma m_pairs:
  "m_AddAccount m r u a d = (res1, d') \<Longrightarrow> a_ID a \<in> X \<Longrightarrow> user_step u X d d'"
  "m_RemoveAccount u l d = (res2, d') \<Longrightarrow> user_step u X d d'"
  "m_UpdateAccountQuota u i lim us n d = (res2, d') \<Longrightarrow> user_step u X d d'"
  "m_CreateVirtualFile n u vf d = (res3, d') \<Longrightarrow> user_step u X d d'"
  "m_SetVirtualFileStatus n u j st d = (res2, d') \<Longrightarrow> user_step u X d d'"
  "m_DeleteVirtualFile n u nm pu d = (res2, d') \<Longrightarrow> user_step u X d d'"
  "m_GetAccount m u l d = (res4, d') \<Longrightarrow> user_step u X d d'"
  "m_ListAccounts m u d = (res5, d') \<Longrightarrow> user_step u X d d'"
  "m_CountActiveChunks u i d = (res6, d') \<Longrightarrow> user_step u X d d'"
  "m_GetVirtualFile u nm d = (res3, d') \<Longrightarrow> user_step u X d d'"
  "m_ListVirtualFiles m u nm d = (res7, d') \<Longrightarrow> user_step u X d d'"
  "m_ListChunks u j d = (res8, d') \<Longrightarrow> user_step u X d d'"
  by (metis m_users snd_conv)+

subsection \<open>The operations of the pool\<close>

lemma finishAddAccount_user:
  assumes "finishAddAccount E idr ivr now label tok p w = (res, p', w')"
  shows "user_step (p_userID p) {GenerateID idr} (w_db w) (w_db w')"
    and "p_userID p' = p_userID p" "\<And>i. map_of (p_accounts p') i \<noteq> None \<Longrightarrow> map_of (p_accounts p) i \<noteq> None \<or> i = GenerateID idr"
proof -
  let ?u = "p_userID p" and ?i = "GenerateID idr"
  define row where "row = \<lparr>a_ID = ?i, a_UserID = [], a_Label = label, a_TokenCiphertext = [], a_AddedAt = now,
    a_QuotaLimit = None, a_QuotaUsage = None, a_QuotaCheckedAt = None, a_Token = Some tok\<rparr>"
  have row: "a_ID row \<in> {?i}" by (simp add: row_def)
  show "user_step ?u {?i} (w_db w) (w_db w')"
    using assms unfolding finishAddAccount_def Let_def row_def [symmetric]
    by (auto split: if_splits sum.splits prod.splits dest!: m_pairs(1) [OF _ row] m_pairs(3) [where X = "{?i}"] intro: user_step_trans)
  show "p_userID p' = p_userID p" "\<And>i. map_of (p_accounts p') i \<noteq> None \<Longrightarrow> map_of (p_accounts p) i \<noteq> None \<or> i = ?i"
    using assms unfolding finishAddAccount_def Let_def
    by (auto simp: update_conv' split: if_splits sum.splits prod.splits)
qed

text \<open>After a connection the pool still holds accounts of its user only.\<close>
lemma finishAddAccount_owned:
  assumes fin: "finishAddAccount E idr ivr now label tok p w = (res, p', w')" and "pool_owned p (w_db w)" "tenant_ok (w_db w)"
  shows "pool_owned p' (w_db w')"
proof -
  let ?u = "p_userID p" and ?i = "GenerateID idr"
  note st = finishAddAccount_user [OF fin]
  have ok: "tenant_ok (w_db w')" using st(1) assms(3) by (simp add: user_step_def)
  have p: "pool_owned p (w_db w')" using pool_owned_own [OF assms(2) st(1)] .
  show ?thesis
  proof (cases res)
    case (Inl e)
    with fin have "p' = p" by (auto simp: finishAddAccount_def Let_def split: if_splits sum.splits prod.splits)
    with p show ?thesis by simp
  next
    case (Inr a)
    define row where "row = \<lparr>a_ID = ?i, a_UserID = [], a_Label = label, a_TokenCiphertext = [], a_AddedAt = now,
      a_QuotaLimit = None, a_QuotaUsage = None, a_QuotaCheckedAt = None, a_Token = Some tok\<rparr>"
    then have row: "a_ID row = ?i" by simp
    obtain d1 lim us where add: "m_AddAccount (e_mcfg E) ivr ?u row (w_db w) = (Inr (), d1)"
      and upd: "m_UpdateAccountQuota ?u ?i lim us now d1 = (Inr (), w_db w')"
      using fin Inr unfolding finishAddAccount_def Let_def row_def [symmetric]
      by (auto split: if_splits sum.splits prod.splits)
    have "\<exists>r1 \<in> set (db_accounts d1). a_ID r1 = ?i \<and> a_UserID r1 = ?u"
      using add row by (auto simp: m_AddAccount_def sql_insert_account_def query_def
          split: sum.splits if_splits list.splits option.splits)
    moreover have "\<exists>f. db_accounts (w_db w') = map f (db_accounts d1) \<and> (\<forall>a. a_ID (f a) = a_ID a \<and> a_UserID (f a) = a_UserID a)"
      by (intro exI [of _ "\<lambda>a. if a_UserID a = ?u \<and> a_ID a = ?i then a\<lparr>a_QuotaLimit := Some lim, a_QuotaUsage := Some us,
           a_QuotaCheckedAt := Some now\<rparr> else a"])
        (use upd in \<open>auto simp: m_UpdateAccountQuota_def scoped_def sql_update_accounts_def query_def
          split: sum.splits if_splits list.splits option.splits prod.splits dest!: arg_cong [where f = db_accounts and y = "w_db w'"]\<close>)
    ultimately have "\<exists>r2 \<in> set (db_accounts (w_db w')). a_ID r2 = ?i \<and> a_UserID r2 = ?u" by force
    then obtain r2 where r2: "r2 \<in> set (db_accounts (w_db w'))" "a_ID r2 = ?i" "a_UserID r2 = ?u" by blast
    have "a_UserID r = ?u" if "r \<in> set (db_accounts (w_db w'))" "a_ID r = ?i" for r
      using uniq_on_inj [OF db_okD(3), of "w_db w'" r r2] ok that r2 by (auto simp: tenant_ok_def)
    then show ?thesis using p st(2,3) unfolding pool_owned_def by metis
  qed
qed

lemma finishAddAccount_ids:
  "finishAddAccount E idr ivr now label tok p w = (res, p', w') \<Longrightarrow> ids_match p \<Longrightarrow> ids_match p'"
  unfolding finishAddAccount_def Let_def ids_match_def
  by (auto simp: update_conv' split: if_splits sum.splits prod.splits)

lemma CompleteConsent_user:
  assumes "CompleteConsent E ex idr ivr now url code label p w = (res, p', w')"
  shows "user_step (p_userID p) {GenerateID idr} (w_db w) (w_db w')"
    and "p_userID p' = p_userID p" "\<And>i. map_of (p_accounts p') i \<noteq> None \<Longrightarrow> map_of (p_accounts p) i \<noteq> None \<or> i = GenerateID idr"
proof -
  obtain r d where c: "checkLabelAvailable E p label (w_db w) = (r, d)" by (metis surj_pair)
  have d: "user_step (p_userID p) {GenerateID idr} (w_db w) d"
    using c read_users(1) [of "p_userID p" "{GenerateID idr}" "w_db w" "e_mcfg E" "p_userID p" label]
    by (auto simp: checkLabelAvailable_def split: prod.splits sum.splits)
  note fin = finishAddAccount_user [of E idr ivr now label _ p "w\<lparr>w_db := d\<rparr>" res p' w']
  show "user_step (p_userID p) {GenerateID idr} (w_db w) (w_db w')"
    using assms c d fin(1) by (auto simp: CompleteConsent_def split: option.splits sum.splits intro: user_step_trans)
  show "p_userID p' = p_userID p" "\<And>i. map_of (p_accounts p') i \<noteq> None \<Longrightarrow> map_of (p_accounts p) i \<noteq> None \<or> i = GenerateID idr"
    using assms c fin(2,3) by (auto simp: CompleteConsent_def split: option.splits sum.splits)
qed

lemma CompleteConsent_owned:
  assumes "CompleteConsent E ex idr ivr now url code label p w = (res, p', w')" "pool_owned p (w_db w)" "tenant_ok (w_db w)" "ids_match p"
  shows "pool_owned p' (w_db w') \<and> ids_match p'"
proof -
  obtain r d where c: "checkLabelAvailable E p label (w_db w) = (r, d)" by (metis surj_pair)
  have d: "user_step (p_userID p) {} (w_db w) d"
    using c read_users(1) [of "p_userID p" "{}" "w_db w" "e_mcfg E" "p_userID p" label]
    by (auto simp: checkLabelAvailable_def split: prod.splits sum.splits)
  then have "pool_owned p d" "tenant_ok d" using assms(2,3) pool_owned_own by (auto simp: user_step_def)
  then show ?thesis
    using assms(1,4) c finishAddAccount_owned [of E idr ivr now label _ p "w\<lparr>w_db := d\<rparr>" res p' w'] finishAddAccount_ids
    by (auto simp: CompleteConsent_def split: option.splits sum.splits)
qed

lemma RemoveAccount_owned:
  assumes "RemoveAccount E label force p d = (res, p', d')" "pool_owned p d" "ids_match p"
  shows "pool_owned p' d' \<and> ids_match p'"
proof -
  have "p' = p \<or> (\<exists>i. p' = p\<lparr>p_accounts := AList.delete i (p_accounts p)\<rparr>)"
    using assms(1) unfolding RemoveAccount_def Let_def by (auto split: if_splits sum.splits prod.splits)
  then have p': "p_userID p' = p_userID p" "\<And>i a. map_of (p_accounts p') i = Some a \<Longrightarrow> map_of (p_accounts p) i = Some a"
    by (auto simp: delete_conv' split: if_splits)
  have "pool_owned p d'"
  proof (rule pool_owned_own [OF assms(2), of "{}"])
    show "user_step (p_userID p) {} d d'"
      using assms(1) unfolding RemoveAccount_def Let_def
      by (auto split: if_splits sum.splits prod.splits dest!: m_pairs(2,7,9) [where X = "{}"] intro: user_step_trans)
  qed
  with p' assms(3) show ?thesis unfolding pool_owned_def ids_match_def by (metis option.exhaust)
qed

lemma RemoveAccount_user:
  assumes "RemoveAccount E label force p d = (res, p', d')"
  shows "user_step (p_userID p) {} d d'"
    and "p_userID p' = p_userID p" "\<And>i. map_of (p_accounts p') i \<noteq> None \<Longrightarrow> map_of (p_accounts p) i \<noteq> None"
proof -
  let ?u = "p_userID p"
  show "user_step ?u {} d d'"
    using assms unfolding RemoveAccount_def Let_def
    by (auto split: if_splits sum.splits prod.splits dest!: m_pairs(2,7,9) [where X = "{}"] intro: user_step_trans)
  show "p_userID p' = p_userID p" "\<And>i. map_of (p_accounts p') i \<noteq> None \<Longrightarrow> map_of (p_accounts p) i \<noteq> None"
    using assms unfolding RemoveAccount_def Let_def
    by (auto simp: delete_conv' split: if_splits sum.splits prod.splits)
qed

lemma Remove_user:
  assumes "Remove E now rank p name purge w = (res, w')"
  shows "user_step (p_userID p) {} (w_db w) (w_db w')"
proof -
  let ?u = "p_userID p"
  show ?thesis
    using assms unfolding Remove_def Let_def
    by (auto split: if_splits sum.splits prod.splits option.splits dest!: m_pairs(6,10,12) [where X = "{}"] intro: user_step_trans)
qed


lemma GetStream_user:
  "GetStream E rank p name w out = (res, w', out') \<Longrightarrow> user_step (p_userID p) {} (w_db w) (w_db w')"
  unfolding GetStream_def Let_def
  by (auto split: if_splits sum.splits prod.splits option.splits dest!: m_pairs(10,12) [where X = "{}"] intro: user_step_trans)

lemma list_infos_user: "list_infos p fs d = (res, d') \<Longrightarrow> user_step (p_userID p) {} d d'"
proof (induction fs arbitrary: d res)
  case (Cons f fs)
  obtain r d1 where l: "m_ListChunks (p_userID p) (vf_ID f) d = (r, d1)" by (metis surj_pair)
  show ?case
  proof (cases r)
    case (Inl e)
    with l Cons.prems m_pairs(12) [OF l] show ?thesis by simp
  next
    case (Inr cs)
    obtain r2 d2 where "list_infos p fs d1 = (r2, d2)" by (metis surj_pair)
    with Inr l Cons.prems Cons.IH [of d1 r2] have "user_step (p_userID p) {} d1 d'"
      by (auto simp: Let_def split: prod.splits sum.splits)
    then show ?thesis using m_pairs(12) [OF l] user_step_trans by blast
  qed
qed simp

lemma ListWithAccounts_user: "ListWithAccounts E p pre d = (res, d') \<Longrightarrow> user_step (p_userID p) {} d d'"
  unfolding ListWithAccounts_def
  by (auto split: sum.splits prod.splits dest!: m_pairs(11) [where X = "{}"] list_infos_user intro: user_step_trans)

lemma ListAccountStatus_user: "ListAccountStatus E p w = (res, w') \<Longrightarrow> user_step (p_userID p) {} (w_db w) (w_db w')"
  unfolding ListAccountStatus_def by (auto split: sum.splits prod.splits dest!: m_pairs(8) [where X = "{}"])

lemma Open_owned:
  assumes "Open E u d = (Inr p, d')" "tenant_ok d"
  shows "p_userID p = u \<and> ids_match p \<and> pool_owned p d' \<and> u \<noteq> []"
proof -
  obtain rows where l: "m_ListAccounts (e_mcfg E) u d = (Inr rows, d')"
    and p: "p = \<lparr>p_userID = u, p_accounts = build_accounts E rows [], p_ChunkSize = 0, p_MaxParallelUploads = 0\<rparr>"
    using assms(1) by (auto simp: Open_def split: sum.splits prod.splits)
  then have u: "u \<noteq> []" and acc: "db_accounts d' = db_accounts d"
    and "rows = map (with_token (e_mcfg E)) (sort_key (m_collate (e_mcfg E) \<circ> a_Label) (filter (\<lambda>a. a_UserID a = u) (db_accounts d)))"
    by (auto simp: m_ListAccounts_def scoped_def query_def split: if_splits list.splits option.splits sum.splits prod.splits)
  then have rows: "\<forall>r \<in> set rows. \<exists>b \<in> set (db_accounts d). a_ID b = a_ID r \<and> a_UserID b = u" by force
  have look: "map_of (p_accounts p) i = (case find (\<lambda>r. a_ID r = i) (rev rows) of None \<Rightarrow> None | Some r \<Rightarrow> Some (buildAccount E r))" for i
    unfolding p using build_accounts_lookup [of E rows "[]" i] by (auto split: option.splits)
  have "ids_match p" unfolding ids_match_def look by (auto simp: find_Some_iff split: option.splits)
  moreover have "pool_owned p d'"
  proof (unfold pool_owned_def, intro ballI impI)
    fix r assume r: "r \<in> set (db_accounts d')" "map_of (p_accounts p) (a_ID r) \<noteq> None"
    then obtain x where "x \<in> set rows" "a_ID x = a_ID r"
      unfolding look by (auto split: option.splits dest!: find_Some_iff_in)
    with rows acc r(1) uniq_on_inj [OF db_okD(3), of d] assms(2) show "a_UserID r = p_userID p"
      by (force simp: tenant_ok_def p)
  qed
  ultimately show ?thesis using u p by simp
qed

lemma Open_user:
  assumes "Open E u d = (res, d')"
  shows "user_step u {} d d'" and "res = Inr p \<Longrightarrow> p_userID p = u"
  using assms unfolding Open_def by (auto split: sum.splits prod.splits dest!: m_pairs(8) [where X = "{}"])

text \<open>A chunk is recorded on an account its upload was placed on.\<close>
lemma record_chunks_user:
  assumes "record_chunks now u vfid ucs d = (res, d')"
    and "\<forall>v \<in> set (db_vfiles d). vf_ID v = vfid \<longrightarrow> vf_UserID v = u"
    and "\<forall>uc \<in> set ucs. \<forall>a \<in> set (db_accounts d). a_ID a = uc_accountID uc \<longrightarrow> a_UserID a = u"
  shows "user_step u {} d d'"
  using assms
proof (induction ucs arbitrary: d)
  case (Cons uc ucs)
  let ?c = "chunk_row vfid uc"
  obtain r d1 where a: "m_AddChunk now u ?c d = (r, d1)" by (metis surj_pair)
  have "mop_allowed u (MAddChunk now ?c) d"
    using Cons.prems(2,3) by (auto simp: mop_allowed_def chunk_row_def list_all_iff)
  from m_AddChunk_user [OF this, of "{}"] a have s: "user_step u {} d d1" by simp
  have "db_vfiles d1 = db_vfiles d" "db_accounts d1 = db_accounts d"
    using a by (auto simp: m_AddChunk_def sql_insert_chunk_def Let_def query_def split: if_splits list.splits option.splits)
  with Cons a s show ?case by (auto split: sum.splits intro: user_step_trans)
qed simp

definition results_on :: "string set \<Rightarrow> 'd put_state \<Rightarrow> bool" where
  "results_on A s \<longleftrightarrow> (\<forall>uc. Some uc \<in> set (ps_results s) \<longrightarrow> uc_accountID uc \<in> A)
     \<and> (\<forall>t \<in> set (ps_tasks s). acc_ID (t_acc t) \<in> A)"

lemma send_upload_account:
  "send_upload E iv key acc i pt f ds = (Inr uc, ds') \<Longrightarrow> uc_accountID uc = acc_ID acc"
  by (auto simp: send_upload_def Let_def split: prod.splits sum.splits if_splits)

lemma results_on_update:
  assumes "results_on A s" "i < length (ps_tasks s)"
    and "ps_tasks s' = (ps_tasks s)[i := (ps_tasks s ! i)\<lparr>t_pc := pc\<rparr>]"
    and "ps_results s' = ps_results s \<or> (\<exists>uc. ps_results s' = (ps_results s)[i := Some uc] \<and> uc_accountID uc \<in> A)"
  shows "results_on A s'"
  unfolding results_on_def
proof (intro conjI allI impI ballI)
  fix t assume "t \<in> set (ps_tasks s')"
  then have "t = (ps_tasks s ! i)\<lparr>t_pc := pc\<rparr> \<or> t \<in> set (ps_tasks s)"
    using set_update_subset_insert [of "ps_tasks s" i] by (auto simp: assms(3))
  then show "acc_ID (t_acc t) \<in> A" using assms(1) nth_mem [OF assms(2)] by (auto simp: results_on_def)
next
  fix uc assume uc: "Some uc \<in> set (ps_results s')"
  from assms(4) show "uc_accountID uc \<in> A"
  proof
    assume "ps_results s' = ps_results s"
    with uc assms(1) show ?thesis by (simp add: results_on_def)
  next
    assume "\<exists>uc. ps_results s' = (ps_results s)[i := Some uc] \<and> uc_accountID uc \<in> A"
    then obtain u where u: "ps_results s' = (ps_results s)[i := Some u]" "uc_accountID u \<in> A" by blast
    have "Some uc \<in> insert (Some u) (set (ps_results s))"
      using uc set_update_subset_insert [of "ps_results s" i "Some u"] unfolding u(1) by blast
    with u(2) assms(1) show ?thesis by (auto simp: results_on_def)
  qed
qed

lemma task_step_results_on:
  assumes "results_on A s"
  shows "results_on A (task_step E ivs key fid i s)"
proof (rule task_step_cases [of E ivs key fid i s])
  fix res fr ds
  assume "i < length (ps_tasks s)" "task_step E ivs key fid i s = (case res of
         Inl e \<Rightarrow> finish_task i (Inl e) (s\<lparr>ps_folders := fr, ps_drives := ds\<rparr>)
       | Inr f \<Rightarrow> s\<lparr>ps_folders := fr, ps_drives := ds, ps_tasks := (ps_tasks s)[i := (ps_tasks s ! i)\<lparr>t_pc := Resolved f\<rparr>]\<rparr>)"
  with assms show ?thesis by (cases res) (auto intro!: results_on_update [of A s i])
next
  fix f res ds
  assume a: "i < length (ps_tasks s)"
    "send_upload E (ivs i) key (t_acc (ps_tasks s ! i)) i (t_plain (ps_tasks s ! i)) f (ps_drives s) = (res, ds)"
    "task_step E ivs key fid i s = finish_task i res (s\<lparr>ps_drives := ds\<rparr>)"
  have A: "acc_ID (t_acc (ps_tasks s ! i)) \<in> A" using assms a(1) by (auto simp: results_on_def)
  show ?thesis
  proof (cases res)
    case (Inr uc)
    with a(2) send_upload_account A have "uc_accountID uc \<in> A" by metis
    moreover have "ps_results (task_step E ivs key fid i s) = (ps_results s)[i := Some uc]"
      "ps_tasks (task_step E ivs key fid i s) = (ps_tasks s)[i := (ps_tasks s ! i)\<lparr>t_pc := Finished\<rparr>]"
      using a(3) Inr by simp_all
    ultimately show ?thesis using results_on_update [OF assms a(1)] by blast
  qed (use a assms in \<open>auto intro!: results_on_update [of A s i]\<close>)
qed (use assms in simp)

lemma finish_put_user:
  assumes "finish_put E p now vf err s d = (res, w')" "pool_owned p d" "tenant_ok d"
    and "\<forall>uc. Some uc \<in> set (ps_results s) \<longrightarrow> map_of (p_accounts p) (uc_accountID uc) \<noteq> None"
  shows "user_step (p_userID p) {} d (w_db w')"
proof (cases "err = None \<and> ps_firstErr s = None")
  case True
  let ?u = "p_userID p"
  obtain r d1 where c: "m_CreateVirtualFile now ?u vf d = (r, d1)" by (metis surj_pair)
  note s1 = m_pairs(4) [OF c, of "{}"]
  show ?thesis
  proof (cases r)
    case (Inl e)
    with assms(1) True c s1 show ?thesis by (auto simp: finish_put_def Let_def)
  next
    case (Inr row)
    define ucs where "ucs = List.map_filter id (ps_results s)"
    have d1: "db_accounts d1 = db_accounts d" and row: "row \<in> set (db_vfiles d1)" "vf_UserID row = ?u"
      using c Inr by (auto simp: m_CreateVirtualFile_def sql_insert_vfile_def Let_def query_def
          split: if_splits list.splits option.splits sum.splits prod.splits)
    have "tenant_ok d1" using s1 assms(3) by (simp add: user_step_def)
    then have "uniq_on vf_ID (db_vfiles d1)" using db_okD(5) by (auto simp: tenant_ok_def)
    then have own: "\<forall>v \<in> set (db_vfiles d1). vf_ID v = vf_ID row \<longrightarrow> vf_UserID v = ?u"
      using row uniq_on_inj by fastforce
    obtain r2 d2 where rc: "record_chunks now ?u (vf_ID row) ucs d1 = (r2, d2)" by (metis surj_pair)
    have "\<forall>uc \<in> set ucs. \<forall>a \<in> set (db_accounts d1). a_ID a = uc_accountID uc \<longrightarrow> a_UserID a = ?u"
      using assms(2,4) d1 unfolding ucs_def set_map_filter pool_owned_def by auto
    from record_chunks_user [OF rc own this] have s2: "user_step ?u {} d1 d2" .
    show ?thesis
      using assms(1) True c Inr rc user_step_trans [OF s1 s2]
      by (auto simp: finish_put_def Let_def ucs_def split: option.splits sum.splits prod.splits
          dest!: m_pairs(5) [where X = "{}"] intro: user_step_trans)
  qed
next
  case False
  with assms(1) show ?thesis by (auto simp: finish_put_def Let_def split: option.splits)
qed

lemma PutStream_user:
  assumes "PutStream E pe p r n name w = (res, w')" "pool_owned p (w_db w)" "ids_match p" "tenant_ok (w_db w)"
  shows "user_step (p_userID p) {} (w_db w) (w_db w')"
proof (cases "choose_placer E (w_drives w) (candidates p (pe_order pe)) (num_chunks n (chunkSize p))")
  case (Inl e)
  with assms(1) show ?thesis by (simp add: PutStream_def Let_def)
next
  case (Inr pl)
  let ?cs = "chunkSize p" and ?key = "NewEncryptionKey (pe_key pe)" and ?N = "nat (num_chunks n (chunkSize p))"
  let ?A = "{i. map_of (p_accounts p) i \<noteq> None}"
  obtain ts hashed err where plan: "plan_loop p (pe_ranks pe) ?cs ?N 0 n r pl = (ts, hashed, err)" by (metis surj_pair)
  define s0 where "s0 = \<lparr>ps_drives = w_drives w, ps_folders = [], ps_tasks = ts, ps_results = replicate ?N None, ps_firstErr = None\<rparr>"
  define s where "s = run_uploads E (pe_ivs pe) ?key (GenerateID (pe_id pe)) (pe_sched pe) s0"
  have "\<forall>t \<in> set ts. acc_ID (t_acc t) \<in> ?A"
    using plan_loop_accounts [OF choose_placer_ok [OF assms(3) Inr] plan] by (auto simp: usable_def)
  then have "results_on ?A s0" by (auto simp: results_on_def s0_def)
  then have "results_on ?A s" unfolding s_def by (rule run_uploads_invariant) (rule task_step_results_on)
  then have A: "\<forall>uc. Some uc \<in> set (ps_results s) \<longrightarrow> map_of (p_accounts p) (uc_accountID uc) \<noteq> None"
    by (simp add: results_on_def)
  show ?thesis
  proof (cases "num_chunks n ?cs < 0")
    case True
    with assms(1) Inr show ?thesis by (simp add: PutStream_def Let_def)
  next
    case False
    with assms(1) Inr plan obtain vf where "finish_put E p (pe_now pe) vf err s (w_db w) = (res, w')"
      by (simp add: PutStream_def Let_def s_def s0_def)
    from finish_put_user [OF this assms(2,4) A] show ?thesis .
  qed
qed

end
