(* ===== verification/CLI.thy ===== *)
theory CLI
  imports Auth_DB Config Pool_Tenancy "HOL-Library.Log_Nat"
begin

text \<open>
  The command line of \<open>cmd/rhino/main.go\<close> and the loopback consent flow of \<open>drivepool/auth/consent.go\<close>
  that \<open>rhino account add\<close> runs. Every command opens a pool of its own, acts on the machine (the
  shared world and the local file system) and prints lines; a printed line is modelled by the
  arguments of its \<open>Printf\<close>. Cobra parses flags and counts arguments before a command runs.
\<close>

subsection \<open>auth/consent.go\<close>

text \<open>What ends the wait of \<open>RunConsentFlow\<close>: the first callback, the context, or the time-out.\<close>
datatype consent_event = Callback "string \<Rightarrow> string" | CtxDone string | TimedOut

definition RunConsentFlow ::
  "(string, nat) result \<Rightarrow> (string \<Rightarrow> string \<Rightarrow> (string, token) result) \<Rightarrow> entropy \<Rightarrow> consent_event \<Rightarrow> (string, token) result"
where
  "RunConsentFlow listen exchange rnd ev = (case listen of
     Inl e \<Rightarrow> Inl (''auth: bind local callback listener: '' @ e)
   | Inr port \<Rightarrow>
      (let redirectURL = ''http://127.0.0.1:'' @ dec_digits port @ ''/callback''; state = randomState rnd in
       case ev of
         Callback q \<Rightarrow>
           (if q ''state'' \<noteq> state then Inl ''auth: state mismatch in callback''
            else if q ''error'' \<noteq> [] then Inl (''auth: authorization denied: '' @ q ''error'')
            else (case exchange redirectURL (q ''code'') of
                Inl e \<Rightarrow> Inl (''auth: exchange code for token: '' @ e)
              | Inr tok \<Rightarrow> Inr tok))
       | CtxDone e \<Rightarrow> Inl e
       | TimedOut \<Rightarrow> Inl ''auth: timed out waiting for authorization''))"

subsection \<open>humanBytes\<close>

text \<open>Correct rounding, ties to even: what \<open>float64\<close> conversion and \<open>%.1f\<close> do.\<close>
definition round_even :: "int \<Rightarrow> int \<Rightarrow> int" where
  "round_even a b = (let q = a div b; r = a mod b in if 2 * r > b \<or> (2 * r = b \<and> odd q) then q + 1 else q)"

text \<open>The conversion of a non-negative \<open>int64\<close> to \<open>float64\<close>: 53 significant bits.\<close>
definition to_float64 :: "int \<Rightarrow> int" where
  "to_float64 n = (if n < 2 ^ 53 then n
     else let u = 2 ^ (floorlog 2 (nat n) - 53) in round_even n u * u)"

function human_loop :: "int \<Rightarrow> int \<Rightarrow> nat \<Rightarrow> int \<times> nat" where
  "human_loop x dv ex = (if x \<ge> 1024 then human_loop (x div 1024) (i64 (dv * 1024)) (ex + 1) else (dv, ex))"
  by auto
termination by (relation "measure (\<lambda>(x, dv, ex). nat x)") auto

declare human_loop.simps [simp del]

definition dec_int :: "int \<Rightarrow> string" where
  "dec_int n = (if n < 0 then CHR ''-'' # dec_digits (nat (- n)) else dec_digits (nat n))"

text \<open>\<open>None\<close> is the panic of an index out of range.\<close>
definition humanBytes :: "int \<Rightarrow> string option" where
  "humanBytes n =
     (if n < 1024 then Some (dec_int n @ '' B'')
      else let (dv, ex) = human_loop (n div 1024) 1024 0; tenths = round_even (10 * to_float64 n) dv in
        if ex < length ''KMGTPE''
        then Some (dec_int (tenths div 10) @ ''.'' @ dec_int (tenths mod 10) @ '' '' @ [''KMGTPE'' ! ex] @ ''iB'')
        else None)"

subsection \<open>openPool\<close>

record 'd machine =
  mc_world :: "'d world"
  mc_fs :: fs

text \<open>The environment of one invocation: flags, variables, and what lies outside the repository.\<close>
record 'd cli_env =
  ce_environ :: environ
  ce_userFlag :: "string option"
  ce_credFlag :: "string option"
  ce_dbms :: dbms
  ce_parse :: "bytes \<Rightarrow> (string, unit) result"
  ce_configDir :: "(string, string) result"
  ce_penv :: "bytes \<Rightarrow> 'd penv"  \<comment> \<open>by the token encryption key\<close>
  ce_bcrypt :: bcrypt
  ce_salt :: entropy
  ce_uid :: entropy
  ce_pw :: entropy
  ce_now :: int
  ce_id :: entropy
  ce_iv :: entropy
  ce_listen :: "(string, nat) result"  \<comment> \<open>the port of the loopback listener\<close>
  ce_exchange :: "string \<Rightarrow> string \<Rightarrow> (string, token) result"  \<comment> \<open>Google's token endpoint\<close>
  ce_state :: entropy
  ce_event :: consent_event
  ce_put :: put_env
  ce_rank :: "nat \<Rightarrow> nat"
  ce_order :: map_order

datatype cli_err =
    NoUserConfigured | CfgError cfg_err | MigrateError string | DBOpenError string
  | ResolveUser string autherr | LabelRequired | PoolError perror | FileError file_err
  | IndexPanic

text \<open>\<open>--user\<close> and \<open>--credentials\<close>, whose defaults come from the environment.\<close>
definition cli_flag :: "environ \<Rightarrow> string option \<Rightarrow> string \<Rightarrow> string" where
  "cli_flag env flag key = (case flag of Some v \<Rightarrow> v | None \<Rightarrow> envOr env key [])"

definition openPool :: "'d cli_env \<Rightarrow> 'd machine \<Rightarrow> (cli_err, 'd penv \<times> pool) result \<times> 'd machine" where
  "openPool C m =
     (let env = ce_environ C; files = fs_nodes (mc_fs m); username = cli_flag env (ce_userFlag C) ''RHINO_USER'' in
      if username = [] then (Inl NoUserConfigured, m)
      else (case DatabaseURLFromEnv env files of Inl e \<Rightarrow> (Inl (CfgError e), m) | Inr databaseURL \<Rightarrow>
      (case Migrate (ce_dbms C) databaseURL of Some e \<Rightarrow> (Inl (MigrateError e), m) | None \<Rightarrow>
      (case db_Open (ce_dbms C) env databaseURL of Inl e \<Rightarrow> (Inl (DBOpenError e), m) | Inr gdb \<Rightarrow>
      (case TokenEncryptionKeyFromEnv env files of Inl e \<Rightarrow> (Inl (CfgError e), m) | Inr key \<Rightarrow>
      (case GetOrCreateCLIUser (ce_bcrypt C) (ce_salt C) (ce_uid C) (ce_pw C) (ce_now C) username (w_db (mc_world m)) of
         (Inl e, d) \<Rightarrow> (Inl (ResolveUser username e), m\<lparr>mc_world := (mc_world m)\<lparr>w_db := d\<rparr>\<rparr>)
       | (Inr user, d) \<Rightarrow>
          (case OpenWithUser (ce_parse C) (\<lambda>_. ce_penv C key) (ce_configDir C) files (u_ID user)
                  (cli_flag env (ce_credFlag C) ''RHINO_CLI_CLIENT_SECRET'') d of
             (Inl e, d') \<Rightarrow> (Inl (CfgError e), m\<lparr>mc_world := (mc_world m)\<lparr>w_db := d'\<rparr>\<rparr>)
           | (Inr p, d') \<Rightarrow> (Inr (ce_penv C key, p), m\<lparr>mc_world := (mc_world m)\<lparr>w_db := d'\<rparr>\<rparr>))))))))"

subsection \<open>The commands\<close>

datatype line =
    AccountRegistered string
  | NoAccounts
  | AccountUnavailable string status_err
  | AccountUnlimited string
  | AccountFree string string string
  | AccountRemoved string
  | StoredAs string
  | WroteFile string
  | NoFiles
  | FileLine string string vf_status
  | FilePurged string
  | FileRemoved string
  | StatusLine nat nat string string nat

type_synonym 'd command_result = "(cli_err, line list) result \<times> 'd machine"

text \<open>The common frame of the commands: a pool is opened, and a failure to open it ends the command.\<close>
definition with_pool :: "'d cli_env \<Rightarrow> ('d penv \<Rightarrow> pool \<Rightarrow> 'd machine \<Rightarrow> 'd command_result) \<Rightarrow> 'd machine \<Rightarrow> 'd command_result" where
  "with_pool C run m = (case openPool C m of
     (Inl e, m') \<Rightarrow> (Inl e, m') | (Inr (E, p), m') \<Rightarrow> run E p m')"

definition newAccountAddCmd :: "'d cli_env \<Rightarrow> string \<Rightarrow> 'd machine \<Rightarrow> 'd command_result" where
  "newAccountAddCmd C label m =
     (if label = [] then (Inl LabelRequired, m)
      else with_pool C (\<lambda>E p m. case AddAccount E (ce_id C) (ce_iv C) (ce_now C)
           (RunConsentFlow (ce_listen C) (ce_exchange C) (ce_state C) (ce_event C)) label p (mc_world m) of
         (Inl e, p', w) \<Rightarrow> (Inl (PoolError e), m\<lparr>mc_world := w\<rparr>)
       | (Inr acc, p', w) \<Rightarrow> (Inr [AccountRegistered (acc_Label acc)], m\<lparr>mc_world := w\<rparr>)) m)"

text \<open>A line of \<open>account list\<close>; \<open>None\<close> if \<open>humanBytes\<close> panics.\<close>
definition account_line :: "account_status \<Rightarrow> line option" where
  "account_line s = (case st_Err s of
     Some e \<Rightarrow> Some (AccountUnavailable (st_Label s) e)
   | None \<Rightarrow> if st_Unlimited s then Some (AccountUnlimited (st_Label s))
       else (case (humanBytes (st_Available s), humanBytes (st_Limit s)) of
           (Some a, Some l) \<Rightarrow> Some (AccountFree (st_Label s) a l) | _ \<Rightarrow> None))"

fun all_lines :: "line option list \<Rightarrow> (cli_err, line list) result" where
  "all_lines [] = Inr []"
| "all_lines (None # ls) = Inl IndexPanic"
| "all_lines (Some l # ls) = (case all_lines ls of Inl e \<Rightarrow> Inl e | Inr out \<Rightarrow> Inr (l # out))"

definition newAccountListCmd :: "'d cli_env \<Rightarrow> 'd machine \<Rightarrow> 'd command_result" where
  "newAccountListCmd C = with_pool C (\<lambda>E p m. case ListAccountStatus E p (mc_world m) of
     (Inl e, w) \<Rightarrow> (Inl (PoolError e), m\<lparr>mc_world := w\<rparr>)
   | (Inr statuses, w) \<Rightarrow> (if statuses = [] then Inr [NoAccounts] else all_lines (map account_line statuses), m\<lparr>mc_world := w\<rparr>))"

definition newAccountRemoveCmd :: "'d cli_env \<Rightarrow> string \<Rightarrow> bool \<Rightarrow> 'd machine \<Rightarrow> 'd command_result" where
  "newAccountRemoveCmd C label force = with_pool C (\<lambda>E p m. case RemoveAccount E label force p (w_db (mc_world m)) of
     (Inl e, p', d) \<Rightarrow> (Inl (PoolError e), m\<lparr>mc_world := (mc_world m)\<lparr>w_db := d\<rparr>\<rparr>)
   | (Inr _, p', d) \<Rightarrow> (Inr [AccountRemoved label], m\<lparr>mc_world := (mc_world m)\<lparr>w_db := d\<rparr>\<rparr>))"

text \<open>\<open>filepath.Base\<close>: the last element without trailing slashes.\<close>
definition filepath_Base :: "string \<Rightarrow> string" where
  "filepath_Base path = (if path = [] then ''.'' else
     let p = rev (dropWhile (\<lambda>c. c = CHR ''/'') (rev path)) in
     if p = [] then ''/'' else rev (takeWhile (\<lambda>c. c \<noteq> CHR ''/'') (rev p)))"

definition newPutCmd :: "'d cli_env \<Rightarrow> string \<Rightarrow> string \<Rightarrow> 'd machine \<Rightarrow> 'd command_result" where
  "newPutCmd C localPath as =
     (let virtualName = (if as = [] then filepath_Base localPath else as) in
      with_pool C (\<lambda>E p m. case pool_Put E (ce_put C) p (mc_fs m) localPath virtualName (mc_world m) of
         (Inl e, w) \<Rightarrow> (Inl (FileError e), m\<lparr>mc_world := w\<rparr>)
       | (Inr _, w) \<Rightarrow> (Inr [StoredAs virtualName], m\<lparr>mc_world := w\<rparr>)))"

definition newGetCmd :: "'d cli_env \<Rightarrow> string \<Rightarrow> string \<Rightarrow> 'd machine \<Rightarrow> 'd command_result" where
  "newGetCmd C name dest = with_pool C (\<lambda>E p m. case pool_Get E (ce_rank C) p (mc_fs m) name dest (mc_world m) of
     (Inl e, F, w) \<Rightarrow> (Inl (FileError e), \<lparr>mc_world = w, mc_fs = F\<rparr>)
   | (Inr _, F, w) \<Rightarrow> (Inr [WroteFile dest], \<lparr>mc_world = w, mc_fs = F\<rparr>))"

definition file_line :: "virtual_file \<Rightarrow> line option" where
  "file_line f = map_option (\<lambda>s. FileLine (vf_Name f) s (vf_Status f)) (humanBytes (vf_Size f))"

definition newLsCmd :: "'d cli_env \<Rightarrow> string option \<Rightarrow> 'd machine \<Rightarrow> 'd command_result" where
  "newLsCmd C arg = (let pre = (case arg of None \<Rightarrow> [] | Some a \<Rightarrow> a) in
     with_pool C (\<lambda>E p m. case List_files E p pre (w_db (mc_world m)) of
        (Inl e, d) \<Rightarrow> (Inl (PoolError e), m\<lparr>mc_world := (mc_world m)\<lparr>w_db := d\<rparr>\<rparr>)
      | (Inr fs, d) \<Rightarrow> (if fs = [] then Inr [NoFiles] else all_lines (map file_line fs), m\<lparr>mc_world := (mc_world m)\<lparr>w_db := d\<rparr>\<rparr>)))"

definition newRmCmd :: "'d cli_env \<Rightarrow> string \<Rightarrow> bool \<Rightarrow> 'd machine \<Rightarrow> 'd command_result" where
  "newRmCmd C name purge = with_pool C (\<lambda>E p m. case Remove E (ce_now C) (ce_order C) p name purge (mc_world m) of
     (Inl e, w) \<Rightarrow> (Inl (PoolError e), m\<lparr>mc_world := w\<rparr>)
   | (Inr _, w) \<Rightarrow> (Inr [if purge then FilePurged name else FileRemoved name], m\<lparr>mc_world := w\<rparr>))"

text \<open>The totals of \<open>status\<close>: healthy accounts, their limits and their free space, in \<open>int64\<close>.\<close>
fun status_totals :: "account_status list \<Rightarrow> nat \<Rightarrow> int \<Rightarrow> int \<Rightarrow> nat \<times> int \<times> int" where
  "status_totals [] healthy tot available = (healthy, tot, available)"
| "status_totals (s # ss) healthy tot available =
     (if st_Err s \<noteq> None then status_totals ss healthy tot available
      else status_totals ss (healthy + 1) (i64 (tot + st_Limit s)) (i64 (available + st_Available s)))"

definition newStatusCmd :: "'d cli_env \<Rightarrow> 'd machine \<Rightarrow> 'd command_result" where
  "newStatusCmd C = with_pool C (\<lambda>E p m. case ListAccountStatus E p (mc_world m) of
     (Inl e, w) \<Rightarrow> (Inl (PoolError e), m\<lparr>mc_world := w\<rparr>)
   | (Inr statuses, w) \<Rightarrow> (case List_files E p [] (w_db w) of
        (Inl e, d) \<Rightarrow> (Inl (PoolError e), m\<lparr>mc_world := w\<lparr>w_db := d\<rparr>\<rparr>)
      | (Inr files, d) \<Rightarrow>
         (let (healthy, tot, available) = status_totals statuses 0 0 0 in
          (case (humanBytes tot, humanBytes available) of
             (Some t, Some a) \<Rightarrow> Inr [StatusLine healthy (length statuses) t a (length files)]
           | _ \<Rightarrow> Inl IndexPanic, m\<lparr>mc_world := w\<lparr>w_db := d\<rparr>\<rparr>))))"

datatype command =
    AccountAdd string | AccountList | AccountRemove string bool | Put string string | Get string string
  | Ls "string option" | Rm string bool | Status

definition run_command :: "'d cli_env \<Rightarrow> command \<Rightarrow> 'd machine \<Rightarrow> 'd command_result" where
  "run_command C cmd = (case cmd of
     AccountAdd label \<Rightarrow> newAccountAddCmd C label
   | AccountList \<Rightarrow> newAccountListCmd C
   | AccountRemove label force \<Rightarrow> newAccountRemoveCmd C label force
   | Put path as \<Rightarrow> newPutCmd C path as
   | Get name dest \<Rightarrow> newGetCmd C name dest
   | Ls pre \<Rightarrow> newLsCmd C pre
   | Rm name purge \<Rightarrow> newRmCmd C name purge
   | Status \<Rightarrow> newStatusCmd C)"

definition cli_panics :: "cli_err \<Rightarrow> bool" where
  "cli_panics e = (let panic = (\<lambda>pe. case pe of PPanic s \<Rightarrow> True | _ \<Rightarrow> False) in
     case e of
       IndexPanic \<Rightarrow> True
     | PoolError pe \<Rightarrow> panic pe
     | CfgError ce \<Rightarrow> (case ce of OpenPoolErr pe \<Rightarrow> panic pe | _ \<Rightarrow> False)
     | FileError fe \<Rightarrow> (case fe of PStream pe \<Rightarrow> panic pe | _ \<Rightarrow> False)
     | _ \<Rightarrow> False)"

text \<open>\<open>main\<close> once the command is parsed: the exit status, which is 2 when the Go runtime ends a panicking process.\<close>
definition rhino_main :: "'d cli_env \<Rightarrow> command \<Rightarrow> 'd machine \<Rightarrow> nat \<times> 'd machine" where
  "rhino_main C cmd m = (case run_command C cmd m of
     (Inl e, m') \<Rightarrow> (if cli_panics e then 2 else 1, m') | (Inr out, m') \<Rightarrow> (0, m'))"

text \<open>A script can tell from the exit status whether the command did what it reports.\<close>
lemma rhino_main_status: "fst (rhino_main C cmd m) = 0 \<longleftrightarrow> (\<exists>out. fst (run_command C cmd m) = Inr out)"
  by (auto simp: rhino_main_def split: prod.splits sum.splits)

subsection \<open>Sizes for people\<close>

lemma round_even_close: "0 < b \<Longrightarrow> 2 * \<bar>a - round_even a b * b\<bar> \<le> b"
proof -
  assume b: "0 < b"
  define q r where "q = a div b" and "r = a mod b"
  have a: "a = q * b + r" unfolding q_def r_def by simp
  have r: "0 \<le> r" "r < b" using b by (simp_all add: r_def)
  have "round_even a b = (if 2 * r > b \<or> (2 * r = b \<and> odd q) then q + 1 else q)"
    by (simp add: round_even_def q_def r_def Let_def)
  with r show ?thesis unfolding a by (auto simp: algebra_simps)
qed

lemma human_loop_spec:
  assumes "x = n div dv" "dv = 1024 ^ (ex + 1)" "dv \<le> n" "n \<le> max_i64"
  shows "\<exists>e. human_loop x dv ex = (1024 ^ (e + 1), e) \<and> 1024 ^ (e + 1) \<le> n \<and> n < 1024 ^ (e + 2)"
  using assms
proof (induction x dv ex rule: human_loop.induct)
  case (1 x dv ex)
  have pos: "0 < dv" using 1(3) by simp
  show ?case
  proof (cases "1024 \<le> x")
    case True
    have "dv * 1024 \<le> dv * x" using True pos by simp
    also have "\<dots> \<le> n" unfolding 1(2) minus_mod_eq_mult_div [symmetric] using pos_mod_sign [OF pos] by simp
    finally have le: "dv * 1024 \<le> n" .
    then have i: "i64 (dv * 1024) = dv * 1024" using pos 1(5) by (intro i64_id) (simp add: in_i64_def)
    have "x div 1024 = n div (dv * 1024)" using 1(2) by (simp add: zdiv_zmult2_eq)
    with 1(1) [OF True, unfolded i] 1(3,5) le have
      "\<exists>e. human_loop (x div 1024) (dv * 1024) (ex + 1) = (1024 ^ (e + 1), e) \<and> 1024 ^ (e + 1) \<le> n \<and> n < 1024 ^ (e + 2)"
      by (simp add: mult.commute)
    then show ?thesis using True i by (simp add: human_loop.simps [of x])
  next
    case False
    then have "dv * x \<le> dv * 1023" using pos by simp
    moreover have "n = dv * x + n mod dv" unfolding 1(2) by simp
    moreover have "n mod dv < dv" using pos by simp
    ultimately have "n < 1024 * dv" by linarith
    with False 1(3,4) show ?thesis by (intro exI [of _ ex]) (simp add: human_loop.simps [of x])
  qed
qed

lemma humanBytes_large:
  assumes "1024 \<le> n" "n \<le> max_i64"
  obtains e t where "e < 6" "1024 ^ (e + 1) \<le> n" "n < 1024 ^ (e + 2)" "t = round_even (10 * to_float64 n) (1024 ^ (e + 1))"
    "humanBytes n = Some (dec_int (t div 10) @ ''.'' @ dec_int (t mod 10) @ '' '' @ [''KMGTPE'' ! e] @ ''iB'')"
proof -
  obtain e where e: "human_loop (n div 1024) 1024 0 = (1024 ^ (e + 1), e)" "1024 ^ (e + 1) \<le> n" "n < 1024 ^ (e + 2)"
    using human_loop_spec [of "n div 1024" n 1024 0] assms by auto
  have "e < 6"
  proof (rule ccontr)
    assume "\<not> e < 6"
    then have "(1024::int) ^ 7 \<le> 1024 ^ (e + 1)" by (intro power_increasing) auto
    with e(2) assms(2) show False by (simp add: max_i64_def)
  qed
  with e assms(1) show thesis by (intro that [of e]) (simp_all add: humanBytes_def Let_def)
qed

lemma humanBytes_total: "n \<le> max_i64 \<Longrightarrow> \<exists>s. humanBytes n = Some s"
proof (cases "n < 1024")
  case False
  assume "n \<le> max_i64"
  with False obtain e t where "humanBytes n = Some (dec_int (t div 10) @ ''.'' @ dec_int (t mod 10) @ '' '' @ [''KMGTPE'' ! e] @ ''iB'')"
    by (meson humanBytes_large not_less)
  then show ?thesis by blast
qed (simp add: humanBytes_def)

text \<open>
  \<open>humanBytes\<close> never indexes past its table of units, for any \<open>int64\<close>, and its divisor never
  wraps: a size below one KiB is printed exactly, a larger one in the unit whose range it lies in,
  with a decimal that is correct to half a tenth of the unit as long as the size is exact in a
  \<open>float64\<close>.
\<close>
theorem human_bytes_correct:
  assumes "in_i64 n"
  shows "(n < 1024 \<longrightarrow> humanBytes n = Some (dec_int n @ '' B''))
    \<and> (1024 \<le> n \<longrightarrow> (\<exists>e < 6. \<exists>t. 1024 ^ (e + 1) \<le> n \<and> n < 1024 ^ (e + 2)
        \<and> humanBytes n = Some (dec_int (t div 10) @ ''.'' @ dec_int (t mod 10) @ '' '' @ [''KMGTPE'' ! e] @ ''iB'')
        \<and> (n < 2 ^ 53 \<longrightarrow> 2 * \<bar>10 * n - t * 1024 ^ (e + 1)\<bar> \<le> 1024 ^ (e + 1))))"
proof (cases "1024 \<le> n")
  case True
  then obtain e t where e: "e < 6" "1024 ^ (e + 1) \<le> n" "n < 1024 ^ (e + 2)" "t = round_even (10 * to_float64 n) (1024 ^ (e + 1))"
    "humanBytes n = Some (dec_int (t div 10) @ ''.'' @ dec_int (t mod 10) @ '' '' @ [''KMGTPE'' ! e] @ ''iB'')"
    using assms by (auto simp: in_i64_def elim: humanBytes_large)
  have "2 * \<bar>10 * n - t * 1024 ^ (e + 1)\<bar> \<le> 1024 ^ (e + 1)" if "n < 2 ^ 53"
    using round_even_close [of "1024 ^ (e + 1)" "10 * n"] that unfolding e(4) by (simp add: to_float64_def)
  with e True show ?thesis by auto
qed (simp add: humanBytes_def)

theorem human_bytes_correct_witness:
  "humanBytes 1536 = Some ''1.5 KiB'' \<and> humanBytes 5 = Some ''5 B''
    \<and> (\<exists>e < 6. 1024 ^ (e + 1) \<le> (2 ^ 62 :: int) \<and> humanBytes (2 ^ 62) \<noteq> None)"
proof -
  have "\<exists>e < 6. 1024 ^ (e + 1) \<le> (2 ^ 62 :: int) \<and> humanBytes (2 ^ 62) \<noteq> None"
    using human_bytes_correct [of "2 ^ 62"] by (fastforce simp: in_i64_def max_i64_def)
  moreover have "humanBytes 1536 = Some ''1.5 KiB''" "humanBytes 5 = Some ''5 B''"
    by code_simp+
  ultimately show ?thesis by blast
qed

subsection \<open>The totals of status\<close>

definition healthy :: "account_status \<Rightarrow> bool" where
  "healthy s \<longleftrightarrow> st_Err s = None"

lemma i64_add: "i64 (i64 a + b) = i64 (a + b)"
  using i64_minus [of a "- b"] by simp

lemma status_totals_eq:
  "status_totals ss h t a = (h + length (filter healthy ss),
     if filter healthy ss = [] then t else i64 (t + sum_list (map st_Limit (filter healthy ss))),
     if filter healthy ss = [] then a else i64 (a + sum_list (map st_Available (filter healthy ss))))"
  by (induction ss h t a rule: status_totals.induct) (auto simp: healthy_def [symmetric] i64_add add.assoc)

lemma i64_0 [simp]: "i64 0 = 0"
  by (simp add: i64_def)

lemma status_totals_start:
  "status_totals ss 0 0 0 = (length (filter healthy ss), i64 (sum_list (map st_Limit (filter healthy ss))),
     i64 (sum_list (map st_Available (filter healthy ss))))"
  by (simp add: status_totals_eq)

text \<open>
  \<open>rhino status\<close> prints one line and cannot panic: the number of healthy accounts and of all,
  the files, and the sums of limit and free space over the healthy accounts modulo \<open>2 ^ 64\<close>, which
  are the true sums as long as these fit into an \<open>int64\<close>. Two unlimited accounts are enough to leave
  the range: the pool is then reported to have -2 bytes free.
\<close>
theorem status_line:
  assumes "openPool C m = (Inr (E, p), m1)" "ListAccountStatus E p (mc_world m1) = (Inr sts, w)"
    and "List_files E p [] (w_db w) = (Inr files, d)"
    and hs: "hs = filter healthy sts" "free = sum_list (map st_Available hs)" "cap = sum_list (map st_Limit hs)"
  shows "\<exists>t a. newStatusCmd C m = (Inr [StatusLine (length hs) (length sts) t a (length files)], m1\<lparr>mc_world := w\<lparr>w_db := d\<rparr>\<rparr>)
    \<and> humanBytes (i64 cap) = Some t \<and> humanBytes (i64 free) = Some a
    \<and> (in_i64 cap \<longrightarrow> humanBytes cap = Some t) \<and> (in_i64 free \<longrightarrow> humanBytes free = Some a)
    \<and> (map st_Available hs = [max_i64, max_i64] \<longrightarrow> a = ''-2 B'')"
proof -
  have "i64 cap \<le> max_i64" "i64 free \<le> max_i64" using i64_range by (simp_all add: in_i64_def)
  then obtain t a where ta: "humanBytes (i64 cap) = Some t" "humanBytes (i64 free) = Some a" using humanBytes_total by blast
  have "a = ''-2 B''" if "map st_Available hs = [max_i64, max_i64]"
  proof -
    have "i64 free = -2" unfolding hs(2) that by (simp add: i64_def max_i64_def)
    moreover have "humanBytes (-2) = Some ''-2 B''" by code_simp
    ultimately show ?thesis using ta(2) by simp
  qed
  moreover have "newStatusCmd C m = (Inr [StatusLine (length hs) (length sts) t a (length files)], m1\<lparr>mc_world := w\<lparr>w_db := d\<rparr>\<rparr>)"
    using assms(1-3) ta unfolding hs by (simp add: newStatusCmd_def with_pool_def status_totals_start)
  ultimately show ?thesis using ta by (auto simp: i64_id)
qed

subsection \<open>Opening the pool again\<close>

text \<open>Two invocations of the same installation: they differ in time and random choices only.\<close>
definition same_install :: "'d cli_env \<Rightarrow> 'd cli_env \<Rightarrow> bool" where
  "same_install C C' \<longleftrightarrow> ce_environ C' = ce_environ C \<and> ce_userFlag C' = ce_userFlag C \<and> ce_credFlag C' = ce_credFlag C
     \<and> ce_dbms C' = ce_dbms C \<and> ce_parse C' = ce_parse C
     \<and> ce_configDir C' = ce_configDir C \<and> ce_penv C' = ce_penv C \<and> ce_bcrypt C' = ce_bcrypt C"

text \<open>What a successful \<open>openPool\<close> did.\<close>
lemma openPool_success:
  assumes "openPool C m = (Inr (E, p), m')"
  obtains user d d' where "cli_flag (ce_environ C) (ce_userFlag C) ''RHINO_USER'' \<noteq> []"
    "GetOrCreateCLIUser (ce_bcrypt C) (ce_salt C) (ce_uid C) (ce_pw C) (ce_now C)
       (cli_flag (ce_environ C) (ce_userFlag C) ''RHINO_USER'') (w_db (mc_world m)) = (Inr user, d)"
    "Open E (u_ID user) d = (Inr p, d')" "m' = m\<lparr>mc_world := (mc_world m)\<lparr>w_db := d'\<rparr>\<rparr>"
    "\<forall>C' m2 d2 d3. same_install C C' \<longrightarrow> mc_fs m2 = mc_fs m \<longrightarrow>
       GetOrCreateCLIUser (ce_bcrypt C) (ce_salt C') (ce_uid C') (ce_pw C') (ce_now C')
         (cli_flag (ce_environ C) (ce_userFlag C) ''RHINO_USER'') (w_db (mc_world m2)) = (Inr user, d2) \<longrightarrow>
       Open E (u_ID user) d2 = (Inr p, d3) \<longrightarrow>
       openPool C' m2 = (Inr (E, p), m2\<lparr>mc_world := (mc_world m2)\<lparr>w_db := d3\<rparr>\<rparr>)"
proof -
  let ?u = "cli_flag (ce_environ C) (ce_userFlag C) ''RHINO_USER''" and ?F = "fs_nodes (mc_fs m)"
  let ?cred = "cli_flag (ce_environ C) (ce_credFlag C) ''RHINO_CLI_CLIENT_SECRET''"
  obtain url gdb key user d d' where s: "?u \<noteq> []" "DatabaseURLFromEnv (ce_environ C) ?F = Inr url" "Migrate (ce_dbms C) url = None"
    "db_Open (ce_dbms C) (ce_environ C) url = Inr gdb" "TokenEncryptionKeyFromEnv (ce_environ C) ?F = Inr key"
    "GetOrCreateCLIUser (ce_bcrypt C) (ce_salt C) (ce_uid C) (ce_pw C) (ce_now C) ?u (w_db (mc_world m)) = (Inr user, d)"
    and o: "OpenWithUser (ce_parse C) (\<lambda>_. ce_penv C key) (ce_configDir C) ?F (u_ID user) ?cred d = (Inr p, d')"
    and E: "E = ce_penv C key" "m' = m\<lparr>mc_world := (mc_world m)\<lparr>w_db := d'\<rparr>\<rparr>"
    using assms by (auto simp: openPool_def Let_def split: if_splits sum.splits option.splits prod.splits)
  from o obtain path cfg where path: "(if ?cred = [] then DefaultClientSecretPath (ce_configDir C) else Inr ?cred) = Inr path"
    and cfg: "LoadClientConfig (ce_parse C) ?F path = Inr cfg" and op: "Open E (u_ID user) d = (Inr p, d')"
    unfolding OpenWithUser_def E by (auto split: sum.splits prod.splits)
  have "openPool C' m2 = (Inr (E, p), m2\<lparr>mc_world := (mc_world m2)\<lparr>w_db := d3\<rparr>\<rparr>)"
    if i: "same_install C C'" "mc_fs m2 = mc_fs m" and g: "GetOrCreateCLIUser (ce_bcrypt C) (ce_salt C') (ce_uid C') (ce_pw C') (ce_now C')
         ?u (w_db (mc_world m2)) = (Inr user, d2)" and r: "Open E (u_ID user) d2 = (Inr p, d3)" for C' m2 d2 d3
  proof -
    have "OpenWithUser (ce_parse C) (\<lambda>_. ce_penv C key) (ce_configDir C) ?F (u_ID user) ?cred d2 = (Inr p, d3)"
      unfolding OpenWithUser_def path using cfg r E by simp
    with s i g E show ?thesis unfolding openPool_def Let_def same_install_def by simp
  qed
  with s(1,6) op E(2) show thesis by (intro that [of user d d']) blast+
qed

text \<open>The user a first invocation resolved is found by every later one, on any database with the same users.\<close>
lemma CLI_user_after:
  assumes "tenant_ok d" "db_faults d = []" and g: "GetOrCreateCLIUser B salt idr pwr now name d = (Inr u, d')"
  shows "tenant_ok d' \<and> db_faults d' = [] \<and> u \<in> set (db_users d') \<and> u_Username u = name \<and> (\<forall>B salt idr pwr now d2. db_ok d2 \<longrightarrow> db_faults d2 = [] \<longrightarrow> db_users d2 = db_users d' \<longrightarrow>
    GetOrCreateCLIUser B salt idr pwr now name d2 = (Inr u, d2))"
proof -
  have found: "GetOrCreateCLIUser B salt idr pwr now name d2 = (Inr u, d2)"
    if "db_ok d2" "db_faults d2 = []" "u \<in> set (db_users d2)" "u_Username u = name" for B salt idr pwr now d2
    using GetByUsername_found [OF that] by (simp add: GetOrCreateCLIUser_def)
  have "tenant_ok d' \<and> db_faults d' = [] \<and> u \<in> set (db_users d') \<and> u_Username u = name"
  proof (cases "\<exists>v \<in> set (db_users d). u_Username v = name")
    case True
    then obtain v where v: "v \<in> set (db_users d)" "u_Username v = name" by blast
    have "db_ok d" using assms(1) by (simp add: tenant_ok_def)
    from GetByUsername_found [OF this assms(2) v] g v assms(1,2) show ?thesis by (auto simp: GetOrCreateCLIUser_def)
  next
    case False
    then have cr: "CreateUser B salt idr now name (GenerateID pwr) d = (Inr u, d')"
      using GetByUsername_missing [OF assms(2), of name] g by (simp add: GetOrCreateCLIUser_def)
    with CreateUser_tenant [OF assms(1) cr] assms(2) show ?thesis by (elim CreateUser_cases) auto
  qed
  with found show ?thesis by auto
qed

text \<open>A put leaves the users and the accounts as they are.\<close>
lemma record_chunks_users: "db_users (snd (record_chunks now u vfid ucs d)) = db_users d"
proof (induction ucs arbitrary: d)
  case (Cons uc ucs)
  obtain res d1 where a: "m_AddChunk now u (chunk_row vfid uc) d = (res, d1)" by (metis surj_pair)
  then have "db_users d1 = db_users d"
    unfolding m_AddChunk_def by (cases rule: query_cases) (auto simp: sql_insert_chunk_def Let_def split: if_splits)
  with a Cons.IH show ?case by (auto split: sum.splits)
qed simp

lemma m_SetVirtualFileStatus_users: "db_users (snd (m_SetVirtualFileStatus now u i st d)) = db_users d"
  unfolding m_SetVirtualFileStatus_def scoped_def query_def sql_update_vfiles_def
  by (auto split: list.splits option.splits if_splits)

lemma put_tables:
  assumes "remote_contract (e_rs E) (md5_sum (m_prims (e_mcfg E)))" "db_ok (w_db w)" "db_faults (w_db w) = []"
    and "p_userID p \<noteq> []" "ids_match p" and put: "PutStream E pe p r n name w = (Inr (), w')"
  shows "db_ok (w_db w') \<and> db_faults (w_db w') = [] \<and> db_accounts (w_db w') = db_accounts (w_db w)
    \<and> db_users (w_db w') = db_users (w_db w)"
proof -
  obtain ucs vf row d1 d2 where db: "m_CreateVirtualFile (pe_now pe) (p_userID p) vf (w_db w) = (Inr row, d1)"
      "record_chunks (pe_now pe) (p_userID p) (vf_ID row) ucs d1 = (None, d2)"
      "m_SetVirtualFileStatus (pe_now pe) (p_userID p) (vf_ID row) StatusComplete d2 = (Inr (), w_db w')"
    by (rule remote_contract.PutStream_success [OF assms(1) refl assms(5) put]) blast
  have "db_users d1 = db_users (w_db w)"
    using db(1) assms(3) by (auto simp: m_CreateVirtualFile_def sql_insert_vfile_def Let_def split: if_splits)
  moreover have "db_users d2 = db_users d1" using record_chunks_users [of _ _ _ ucs d1] db(2) by (metis snd_conv)
  moreover have "db_users (w_db w') = db_users d2"
    using m_SetVirtualFileStatus_users [of "pe_now pe" "p_userID p" "vf_ID row" StatusComplete d2] db(3) by simp
  ultimately show ?thesis by - (rule put_records [OF assms(2-4) db], simp)
qed

lemma Open_again:
  assumes "Open E u d = (Inr p, d')" "db_faults d = []" "db_faults d2 = []" "db_accounts d2 = db_accounts d"
  shows "Open E u d2 = (Inr p, d2) \<and> d' = d"
proof -
  have u: "u \<noteq> []" using assms(1) by (auto simp: Open_def m_ListAccounts_def scoped_def)
  with assms show ?thesis by (auto simp: Open_def m_ListAccounts_eq)
qed

lemma filepath_Base_ne [simp]: "filepath_Base path \<noteq> []"
proof -
  let ?p = "dropWhile (\<lambda>c. c = CHR ''/'') (rev path)"
  have "takeWhile (\<lambda>c. c \<noteq> CHR ''/'') ?p \<noteq> []" if "?p \<noteq> []"
    using hd_dropWhile [OF that] that by (cases ?p) auto
  then show ?thesis by (simp add: filepath_Base_def Let_def)
qed

text \<open>
  What a successful \<open>rhino put\<close> leaves behind: the invoking user's row, a pool that opens again with
  the same accounts and holds the file, and an installation in which later commands open that pool.
\<close>
lemma cli_put_stored:
  assumes key: "TokenEncryptionKeyFromEnv (ce_environ C) (fs_nodes (mc_fs m)) = Inr key" and E: "E = ce_penv C key"
    and env: "remote_contract (e_rs E) (md5_sum (m_prims (e_mcfg E)))" "flate_ok (m_prims (e_mcfg E))" "whole_iv (e_rs E) (w_drives (mc_world m'))"
    and db: "tenant_ok (w_db (mc_world m))" "db_faults (w_db (mc_world m)) = []"
    and src: "os_Stat (fs_nodes (mc_fs m)) path = Inr (File b)" "int (length b) + DefaultChunkSize - 1 \<le> max_i64"
    and put: "newPutCmd C path as m = (Inr out, m')"
  obtains name p user where "out = [StoredAs name]" "name \<noteq> []" "mc_fs m' = mc_fs m"
    "db_ok (w_db (mc_world m'))" "user \<in> set (db_users (w_db (mc_world m')))"
    "u_Username user = cli_flag (ce_environ C) (ce_userFlag C) ''RHINO_USER''" "u_ID user \<noteq> []"
    "Open E (u_ID user) (w_db (mc_world m')) = (Inr p, w_db (mc_world m'))"
    "\<forall>rank. GetStream E rank p name (mc_world m') empty_buffer = (Inr (), mc_world m', empty_buffer\<lparr>wout := b\<rparr>)"
    "\<forall>C'. same_install C C' \<longrightarrow> openPool C' m' = (Inr (E, p), m')"
proof -
  define name where "name = (if as = [] then filepath_Base path else as)"
  let ?user = "cli_flag (ce_environ C) (ce_userFlag C) ''RHINO_USER''"
  obtain p m1 w' where o: "openPool C m = (Inr (E, p), m1)"
    and pp: "pool_Put E (ce_put C) p (mc_fs m1) path name (mc_world m1) = (Inr (), w')"
    and m': "m' = m1\<lparr>mc_world := w'\<rparr>" "out = [StoredAs name]"
  proof -
    obtain E' p m1 w' where o: "openPool C m = (Inr (E', p), m1)"
        "pool_Put E' (ce_put C) p (mc_fs m1) path name (mc_world m1) = (Inr (), w')" "m' = m1\<lparr>mc_world := w'\<rparr>" "out = [StoredAs name]"
      using put unfolding newPutCmd_def Let_def with_pool_def name_def [symmetric] by (auto split: sum.splits prod.splits)
    moreover have "E' = E" using o(1) key E by (auto simp: openPool_def Let_def split: if_splits sum.splits option.splits prod.splits)
    ultimately show thesis by (intro that) simp_all
  qed
  obtain user d d' where "?user \<noteq> []"
    and g: "GetOrCreateCLIUser (ce_bcrypt C) (ce_salt C) (ce_uid C) (ce_pw C) (ce_now C) ?user (w_db (mc_world m)) = (Inr user, d)"
    and op: "Open E (u_ID user) d = (Inr p, d')" and m1: "m1 = m\<lparr>mc_world := (mc_world m)\<lparr>w_db := d'\<rparr>\<rparr>"
    and again: "\<forall>C' m2 d2 d3. same_install C C' \<longrightarrow> mc_fs m2 = mc_fs m \<longrightarrow>
       GetOrCreateCLIUser (ce_bcrypt C) (ce_salt C') (ce_uid C') (ce_pw C') (ce_now C') ?user (w_db (mc_world m2)) = (Inr user, d2) \<longrightarrow>
       Open E (u_ID user) d2 = (Inr p, d3) \<longrightarrow> openPool C' m2 = (Inr (E, p), m2\<lparr>mc_world := (mc_world m2)\<lparr>w_db := d3\<rparr>\<rparr>)"
    by (rule openPool_success [OF o])
  note U = CLI_user_after [OF db g]
  have ok: "tenant_ok d" "db_faults d = []" "user \<in> set (db_users d)" "u_Username user = ?user" using U by auto
  have d': "d' = d" using Open_again [OF op ok(2) ok(2)] by simp
  have p: "p_userID p = u_ID user" "ids_match p" "p_userID p \<noteq> []" "chunkSize p = DefaultChunkSize"
    using Open_owned [OF op ok(1)] op by (auto simp: Open_def chunkSize_def split: sum.splits prod.splits)
  have w: "w_db (mc_world m1) = d" "mc_fs m1 = mc_fs m" by (simp_all add: m1 d')
  have ps: "PutStream E (ce_put C) p (bytes_reader b) (int (length b)) name (mc_world m1) = (Inr (), w')"
    using pp src(1) by (auto simp: pool_Put_def w split: sum.splits prod.splits)
  have okd: "db_ok d" using ok(1) by (simp add: tenant_ok_def)
  note t = put_tables [OF env(1) _ _ p(3,2) ps, unfolded w, OF okd ok(2)]
  have "GetStream E rank p name w' empty_buffer = (Inr (), w', empty_buffer\<lparr>wout := b\<rparr>)" for rank
    using get_after_put [OF env(1,2) _ _ p(3,2) _ _ ps, unfolded w, of empty_buffer rank]
      okd ok(2) src(2) env(3) m'(1) by (simp add: p(4))
  moreover have re: "Open E (u_ID user) (w_db w') = (Inr p, w_db w')" using Open_again [OF op ok(2), of "w_db w'"] t by simp
  moreover have "openPool C' m' = (Inr (E, p), m')" if "same_install C C'" for C'
    using again [rule_format, OF that, of m' "w_db w'" "w_db w'"] U t re m'(1) w by simp
  ultimately show thesis using m' w t p ok by (intro that [of name user p]) (simp_all add: name_def)
qed

text \<open>
  C18. Storing and fetching from the command line: after a successful \<open>rhino put\<close> of a local file, a
  \<open>rhino get\<close> of that name by a later invocation of the same installation succeeds and leaves
  exactly the bytes of the file at the destination, although each of the two opens the pool anew.
\<close>
theorem cli_put_get_roundtrip:
  assumes "TokenEncryptionKeyFromEnv (ce_environ C) (fs_nodes (mc_fs m)) = Inr key" "E = ce_penv C key"
    and "remote_contract (e_rs E) (md5_sum (m_prims (e_mcfg E)))" "flate_ok (m_prims (e_mcfg E))" "whole_iv (e_rs E) (w_drives (mc_world m'))"
    and "tenant_ok (w_db (mc_world m))" "db_faults (w_db (mc_world m)) = []"
    and "os_Stat (fs_nodes (mc_fs m)) path = Inr (File b)" "int (length b) + DefaultChunkSize - 1 \<le> max_i64"
    and "newPutCmd C path as m = (Inr out, m')"
    and "same_install C C'" "os_Create (fs_nodes (mc_fs m)) dest = Inr nodes" "fs_cap (mc_fs m) = None"
  shows "\<exists>name. out = [StoredAs name] \<and> newGetCmd C' name dest m' = (Inr [WroteFile dest],
    m'\<lparr>mc_fs := (mc_fs m)\<lparr>fs_nodes := nodes(path_of dest \<mapsto> File b)\<rparr>\<rparr>)"
proof -
  obtain name p user where "out = [StoredAs name]" "mc_fs m' = mc_fs m"
    "\<forall>rank. GetStream E rank p name (mc_world m') empty_buffer = (Inr (), mc_world m', empty_buffer\<lparr>wout := b\<rparr>)"
    "\<forall>C'. same_install C C' \<longrightarrow> openPool C' m' = (Inr (E, p), m')"
    by (rule cli_put_stored [OF assms(1-10)])
  with assms(11-13) show ?thesis by (simp add: newGetCmd_def with_pool_def pool_Get_def empty_buffer_def)
qed

subsection \<open>Connecting an account\<close>

lemma checkLabel_accounts: "checkLabelAvailable E p label d = (r, d') \<Longrightarrow> db_accounts d' = db_accounts d"
  unfolding checkLabelAvailable_def m_GetAccount_def scoped_def query_def
  by (auto split: if_splits list.splits option.splits sum.splits prod.splits)

lemma Open_accounts: "Open E u d = (r, d') \<Longrightarrow> db_accounts d' = db_accounts d"
  unfolding Open_def m_ListAccounts_def scoped_def query_def
  by (auto split: if_splits list.splits option.splits sum.splits prod.splits)

lemma CLI_user_accounts: "GetOrCreateCLIUser B salt idr pwr now name d = (r, d') \<Longrightarrow> db_accounts d' = db_accounts d"
  unfolding GetOrCreateCLIUser_def GetByUsername_def auth_first_def CreateUser_def query_def sql_insert_user_def
  by (auto split: if_splits list.splits option.splits sum.splits prod.splits)

lemma openPool_accounts: "openPool C m = (r, m') \<Longrightarrow> db_accounts (w_db (mc_world m')) = db_accounts (w_db (mc_world m))"
  unfolding openPool_def Let_def OpenWithUser_def
  by (auto split: if_splits sum.splits option.splits prod.splits dest!: CLI_user_accounts Open_accounts)


subsection \<open>Witnesses\<close>

definition toy_fs :: fs where
  "toy_fs = \<lparr>fs_nodes = [[] \<mapsto> Dir, [''s''] \<mapsto> File [], [''new''] \<mapsto> File [1, 2, 3]], fs_dirsize = 0, fs_cap = None\<rparr>"

definition toy_machine :: "mem_drive machine" where
  "toy_machine = \<lparr>mc_world = toy_world, mc_fs = toy_fs\<rparr>"

definition toy_dbms :: dbms where
  "toy_dbms = \<lparr>dm_source = None, dm_migrator = (\<lambda>u. None), dm_Up = (\<lambda>u. Some ErrNoChange), dm_gorm = (\<lambda>u. None), dm_sqlDB = (\<lambda>u. None)\<rparr>"

definition toy_cli :: "mem_drive cli_env" where
  "toy_cli = \<lparr>ce_environ = toy_environ, ce_userFlag = Some ''u'', ce_credFlag = Some ''s'', ce_dbms = toy_dbms,
     ce_parse = (\<lambda>b. Inr ()), ce_configDir = Inr ''/c'', ce_penv = (\<lambda>k. toy_penv), ce_bcrypt = toy_bcrypt, ce_salt = toy_rnd,
     ce_uid = toy_rnd, ce_pw = toy_rnd, ce_now = 5, ce_id = toy_rnd, ce_iv = toy_rnd, ce_listen = Inr 8085,
     ce_exchange = (\<lambda>u c. Inr toy_token), ce_state = toy_rnd,
     ce_event = Callback (\<lambda>k. if k = ''state'' then randomState toy_rnd else []), ce_put = toy_pe, ce_rank = (\<lambda>i. 0), ce_order = length\<rparr>"

lemma toy_key: "TokenEncryptionKeyFromEnv toy_environ F = Inr (replicate 32 5)"
  using hex_decode_encode [of "replicate 32 5"]
  by (auto simp: TokenEncryptionKeyFromEnv_def stringFromEnvOrFile_def toy_environ_def dest: arg_cong [where f = length])

lemma toy_openPool: "openPool toy_cli toy_machine = (Inr (toy_penv, toy_pool\<lparr>p_ChunkSize := 0\<rparr>), toy_machine)"
proof -
  have "GetByUsername ''u'' toy_db2 = (Inr (toy_user ''u''), toy_db2)"
    by (rule GetByUsername_found [OF toy_db2_ok(1)]) (simp_all add: toy_db2_def toy_user_def)
  moreover have "DatabaseURLFromEnv toy_environ F = Inr ''postgres://db''" for F
    by (simp add: DatabaseURLFromEnv_def stringFromEnvOrFile_def toy_environ_def)
  moreover have "u_ID (toy_user ''u'') = ''u''" by (simp add: toy_user_def)
  moreover have "Migrate toy_dbms url = None" for url by (simp add: Migrate_def toy_dbms_def)
  moreover obtain conn where "db_Open toy_dbms toy_environ ''postgres://db'' = Inr conn" by (simp add: db_Open_def toy_dbms_def)
  ultimately show ?thesis
    using toy_open toy_key
    by (simp add: openPool_def Let_def toy_cli_def toy_machine_def cli_flag_def GetOrCreateCLIUser_def OpenWithUser_def LoadClientConfig_def
        os_ReadFile_def os_Stat_def path_of_def push_comp_def toy_fs_def)
qed

lemma toy_cli_put: "\<exists>m'. newPutCmd toy_cli ''new'' [] toy_machine = (Inr [StoredAs ''new''], m')"
proof -
  have s: "os_Stat (fs_nodes toy_fs) ''new'' = Inr (File [1, 2, 3])" "filepath_Base ''new'' = ''new''"
    by (simp_all add: os_Stat_def path_of_def push_comp_def toy_fs_def filepath_Base_def)
  have "mc_fs toy_machine = toy_fs" "mc_world toy_machine = toy_world" "ce_put toy_cli = toy_pe"
    by (simp_all add: toy_machine_def toy_cli_def)
  with s toy_default_put show ?thesis by (auto simp: newPutCmd_def with_pool_def toy_openPool pool_Put_def Let_def)
qed

theorem cli_put_get_roundtrip_witness:
  "\<exists>m' m''. newPutCmd toy_cli ''new'' [] toy_machine = (Inr [StoredAs ''new''], m')
     \<and> newGetCmd toy_cli ''new'' ''copy'' m' = (Inr [WroteFile ''copy''], m'') \<and> fs_nodes (mc_fs m'') [''copy''] = Some (File [1, 2, 3])"
proof -
  obtain m' where put: "newPutCmd toy_cli ''new'' [] toy_machine = (Inr [StoredAs ''new''], m')" using toy_cli_put by blast
  have E: "ce_penv toy_cli k = toy_penv" for k by (simp add: toy_cli_def)
  have f: "w_db (mc_world toy_machine) = toy_db2" "mc_fs toy_machine = toy_fs" "fs_cap toy_fs = None" "same_install toy_cli toy_cli"
      "ce_environ toy_cli = toy_environ"
    by (simp_all add: toy_machine_def toy_fs_def same_install_def toy_cli_def)
  have s: "os_Stat (fs_nodes toy_fs) ''new'' = Inr (File [1, 2, 3])" "path_of ''copy'' = [''copy'']"
    by (simp_all add: os_Stat_def path_of_def push_comp_def toy_fs_def)
  obtain nodes where c: "os_Create (fs_nodes toy_fs) ''copy'' = Inr nodes"
    by (simp add: os_Create_def s(2) toy_fs_def)
  have "\<exists>name. [StoredAs ''new''] = [StoredAs name] \<and> newGetCmd toy_cli name ''copy'' m' = (Inr [WroteFile ''copy''],
    m'\<lparr>mc_fs := (mc_fs toy_machine)\<lparr>fs_nodes := nodes(path_of ''copy'' \<mapsto> File [1, 2, 3])\<rparr>\<rparr>)"
    by (rule cli_put_get_roundtrip [OF _ _ _ _ _ _ _ _ _ put, where key = "replicate 32 5" and E = toy_penv])
      (use f s c toy_db2_ok precise_remote.axioms(1) [OF toy_contract] toy_flate toy_whole_iv toy_key in
        \<open>simp_all add: E DefaultChunkSize_def max_i64_def\<close>)
  with put s(2) show ?thesis by auto
qed


lemma toy_statuses:
  "ListAccountStatus toy_penv (toy_pool\<lparr>p_ChunkSize := 0\<rparr>) toy_world = (Inr [\<lparr>st_Label = ''work'', st_Available = 10,
     st_Unlimited = False, st_Limit = 10, st_Usage = 0, st_PhotoURL = [], st_Err = None\<rparr>], toy_world)"
proof -
  have q: "rs_Quota toy_rs (toy_drives 0) = Inr \<lparr>Limit = 10, Usage = 0, Unlimited = False, PhotoURL = []\<rparr>"
    using toy_quota unfolding live_quota_def by (auto simp: toy_penv_def split: sum.splits)
  show ?thesis
    by (simp add: ListAccountStatus_def m_ListAccounts_eq)
      (simp add: toy_db2_def toy_row_def toy_account_def toy_pool_def toy_penv_def account_status_of_def q
        blank_status_def toy_facts toy_world_def Let_def)
qed

theorem status_line_witness:
  "\<exists>t m'. newStatusCmd toy_cli toy_machine = (Inr [StatusLine 1 1 t ''10 B'' 1], m')"
proof -
  let ?p = "toy_pool\<lparr>p_ChunkSize := 0\<rparr>"
  have m: "mc_world toy_machine = toy_world" by (simp add: toy_machine_def)
  obtain files where l: "List_files toy_penv ?p [] (w_db toy_world) = (Inr files, toy_db2)" "length files = 1"
    by (simp add: List_files_def m_ListVirtualFiles_eq) (simp add: toy_db2_def toy_vfile_def)
  have h: "humanBytes (i64 10) = Some ''10 B''" by code_simp
  from status_line [OF toy_openPool toy_statuses [folded m] l(1) [folded m] refl refl refl] l(2) h show ?thesis
    by (auto simp: healthy_def)
qed

end
