(* ===== verification/Backend.thy ===== *)
theory Backend
  imports Auth_DB Config
begin

text \<open>
  The web portal of \<open>backend/\<close>: the cache of pools, the pending OAuth flows, the session
  middleware, one handler per route and the router. A request is served in one atomic step (the
  concurrency of requests is that of their steps; what happens inside an upload is the subject of
  \<open>Pool_Concurrency\<close>). The server's state is the database and the drives together with the two maps
  it keeps in memory. Gin, the cookie store, bcrypt and Google's OAuth endpoints are outside the
  repository: a request carries the user of its verified session cookie and its decoded fields,
  and what the environment chooses for a request (time, random bytes, Google's answer) is a record.
\<close>

subsection \<open>State\<close>

record pending_oauth =
  pd_userID :: string
  pd_label :: string
  pd_createdAt :: int

record 'd server =
  sv_world :: "'d world"
  sv_pools :: "(string \<times> pool \<times> int) list"  \<comment> \<open>user to pool and time of last use\<close>
  sv_pending :: "(string \<times> pending_oauth) list"  \<comment> \<open>keyed by the OAuth state\<close>

record 'd benv =
  be_penv :: "'d penv"
  be_bcrypt :: bcrypt
  be_cfg :: config
  be_parse :: "bytes \<Rightarrow> (string, unit) result"  \<comment> \<open>\<open>google.ConfigFromJSON\<close>\<close>
  be_configDir :: "(string, string) result"
  be_nodes :: nodes
  be_authURL :: "string \<Rightarrow> string \<Rightarrow> (string \<times> string) list \<Rightarrow> string"
    \<comment> \<open>\<open>oauth2.Config.AuthCodeURL\<close> of redirect URL, state and parameters\<close>
  be_assets :: "string \<Rightarrow> bytes option"  \<comment> \<open>what opens in the embedded \<open>dist\<close>\<close>
  be_slash :: "string \<Rightarrow> string \<Rightarrow> string option"  \<comment> \<open>gin's trailing-slash redirect of an unmatched method and path\<close>

text \<open>What the environment supplies to one request.\<close>
record renv =
  re_now :: int
  re_salt :: entropy
  re_id :: entropy
  re_iv :: entropy
  re_state :: entropy
  re_put :: put_env
  re_rank :: "nat \<Rightarrow> nat"
  re_order :: map_order
  re_exchange :: "string \<Rightarrow> string \<Rightarrow> (string, token) result"

record upload_form =
  uf_Filename :: string
  uf_Size :: int
  uf_Open :: "(string, reader) result"
  uf_name :: string  \<comment> \<open>the form field \<open>name\<close>\<close>

record request =
  rq_Method :: string
  rq_Path :: string
  rq_Query :: "string \<Rightarrow> string"
  rq_session :: "string option"  \<comment> \<open>\<open>user_id\<close> of the verified session\<close>
  rq_credentials :: "(string \<times> string) option"  \<comment> \<open>the JSON body, \<open>None\<close> if it does not decode\<close>
  rq_form :: "upload_form option"

datatype berr = Msg string | PoolOpen cfg_err | PoolFail perror

datatype account_json =
    AccountErr string status_err
  | AccountOK string int int int bool "string option"

datatype body =
    NoBody | JError berr | JUser string | JOk | JAccounts "account_json list"
  | JFiles "(string \<times> int \<times> vf_status \<times> int \<times> string list \<times> bool) list"
  | JName string | PlainText string | Redirect string | ConnectError berr
  | Stream bytes | StreamCut bytes perror | Asset string | Page bytes

datatype cookie = KeepSession | SetSession string | ClearSession

record response =
  resp_Status :: nat
  resp_Body :: body
  resp_Session :: cookie

definition reply :: "nat \<Rightarrow> body \<Rightarrow> response" where
  "reply st b = \<lparr>resp_Status = st, resp_Body = b, resp_Session = KeepSession\<rparr>"

definition is_panic :: "perror \<Rightarrow> bool" where
  "is_panic e = (case e of PPanic s \<Rightarrow> True | _ \<Rightarrow> False)"

text \<open>An error of the pool answered with a status; \<open>gin.Recovery\<close> answers a panic with 500.\<close>
definition fail_reply :: "nat \<Rightarrow> perror \<Rightarrow> response" where
  "fail_reply st e = (if is_panic e then reply 500 NoBody else reply st (JError (PoolFail e)))"

definition with_db :: "db \<Rightarrow> 'd server \<Rightarrow> 'd server" where
  "with_db d s = s\<lparr>sv_world := (sv_world s)\<lparr>w_db := d\<rparr>\<rparr>"

definition sv_db :: "'d server \<Rightarrow> db" where
  "sv_db s = w_db (sv_world s)"

subsection \<open>poolcache.go\<close>

text \<open>Durations are in nanoseconds.\<close>
definition minutes :: "int \<Rightarrow> int" where
  "minutes n = n * 60 * 10 ^ 9"

definition idlePoolTimeout :: int where
  "idlePoolTimeout = minutes 30"

definition oauthStateTTL :: int where
  "oauthStateTTL = minutes 10"

definition cache_get :: "'d benv \<Rightarrow> int \<Rightarrow> string \<Rightarrow> 'd server \<Rightarrow> (cfg_err, pool) result \<times> 'd server" where
  "cache_get B now userID s = (case map_of (sv_pools s) userID of
     Some (p, lastUsed) \<Rightarrow> (Inr p, s\<lparr>sv_pools := AList.update userID (p, now) (sv_pools s)\<rparr>)
   | None \<Rightarrow> (case OpenWithUser (be_parse B) (\<lambda>_. be_penv B) (be_configDir B) (be_nodes B) userID
                  (cf_ClientSecretPath (be_cfg B)) (sv_db s) of
       (Inl e, d) \<Rightarrow> (Inl e, with_db d s)
     | (Inr p, d) \<Rightarrow> (Inr p, (with_db d s)\<lparr>sv_pools := AList.update userID (p, now) (sv_pools s)\<rparr>)))"

text \<open>A sweep deletes the entries of a map that are older than a limit.\<close>
definition sweep :: "('v \<Rightarrow> int) \<Rightarrow> int \<Rightarrow> int \<Rightarrow> ('k \<times> 'v) list \<Rightarrow> ('k \<times> 'v) list" where
  "sweep stamp limit now m = filter (\<lambda>(k, v). \<not> now - stamp v > limit) m"

definition evictIdle :: "int \<Rightarrow> int \<Rightarrow> 'd server \<Rightarrow> 'd server" where
  "evictIdle maxIdle now s = s\<lparr>sv_pools := sweep snd maxIdle now (sv_pools s)\<rparr>"

definition closeAll :: "'d server \<Rightarrow> 'd server" where
  "closeAll s = s\<lparr>sv_pools := []\<rparr>"

definition sweepExpiredOAuthState :: "int \<Rightarrow> 'd server \<Rightarrow> 'd server" where
  "sweepExpiredOAuthState now s = s\<lparr>sv_pending := sweep pd_createdAt oauthStateTTL now (sv_pending s)\<rparr>"

text \<open>One tick of \<open>evictLoop\<close>.\<close>
definition evict_tick :: "int \<Rightarrow> 'd server \<Rightarrow> 'd server" where
  "evict_tick now s = sweepExpiredOAuthState now (evictIdle idlePoolTimeout now s)"

text \<open>The cache holds a pointer: a pool changed by a handler is changed in the cache.\<close>
definition set_pool :: "string \<Rightarrow> pool \<Rightarrow> 'd server \<Rightarrow> 'd server" where
  "set_pool u p s = s\<lparr>sv_pools := map (\<lambda>(v, e). (v, if v = u then (p, snd e) else e)) (sv_pools s)\<rparr>"

subsection \<open>middleware.go and handlers\_auth.go\<close>

definition requireSession :: "request \<Rightarrow> (string \<Rightarrow> 'd server \<Rightarrow> response \<times> 'd server) \<Rightarrow> 'd server \<Rightarrow> response \<times> 'd server" where
  "requireSession rq next s = (case rq_session rq of
     None \<Rightarrow> (reply 401 (JError (Msg ''not authenticated'')), s)
   | Some userID \<Rightarrow> if userID = [] then (reply 401 (JError (Msg ''not authenticated'')), s) else next userID s)"

text \<open>The runes of a decoded JSON string, which is valid UTF-8: its bytes but the continuation bytes.\<close>
definition rune_count :: "string \<Rightarrow> nat" where
  "rune_count s = length (filter (\<lambda>c. \<not> (128 \<le> (of_char c :: nat) \<and> (of_char c :: nat) < 192)) s)"

text \<open>\<open>ShouldBindJSON\<close> with the \<open>binding\<close> tags of \<open>credentialsRequest\<close>.\<close>
definition bind_credentials :: "request \<Rightarrow> (string \<times> string) option" where
  "bind_credentials rq = (case rq_credentials rq of
     None \<Rightarrow> None
   | Some (username, password) \<Rightarrow>
      if username = [] \<or> password = [] \<or> rune_count password < 8 then None else Some (username, password))"

definition startSession :: "string \<Rightarrow> response \<Rightarrow> response" where
  "startSession userID r = r\<lparr>resp_Session := SetSession userID\<rparr>"

definition handleRegister :: "'d benv \<Rightarrow> renv \<Rightarrow> request \<Rightarrow> 'd server \<Rightarrow> response \<times> 'd server" where
  "handleRegister B R rq s = (case bind_credentials rq of
     None \<Rightarrow> (reply 400 (JError (Msg ''invalid request'')), s)
   | Some (username, password) \<Rightarrow>
      (case CreateUser (be_bcrypt B) (re_salt R) (re_id R) (re_now R) username password (sv_db s) of
         (Inl e, d) \<Rightarrow> (if e = ErrUsernameTaken then reply 409 (JError (Msg ''username already taken''))
                        else reply 500 (JError (Msg ''could not create account'')), with_db d s)
       | (Inr u, d) \<Rightarrow> (startSession (u_ID u) (reply 201 (JUser (u_Username u))), with_db d s)))"

definition handleLogin :: "'d benv \<Rightarrow> request \<Rightarrow> 'd server \<Rightarrow> response \<times> 'd server" where
  "handleLogin B rq s = (case bind_credentials rq of
     None \<Rightarrow> (reply 400 (JError (Msg ''invalid request'')), s)
   | Some (username, password) \<Rightarrow>
      (case Authenticate (be_bcrypt B) username password (sv_db s) of
         (Inl e, d) \<Rightarrow> (reply 401 (JError (Msg ''invalid username or password'')), with_db d s)
       | (Inr u, d) \<Rightarrow> (startSession (u_ID u) (reply 200 (JUser (u_Username u))), with_db d s)))"

definition handleLogout :: "'d server \<Rightarrow> response \<times> 'd server" where
  "handleLogout s = ((reply 200 JOk)\<lparr>resp_Session := ClearSession\<rparr>, s)"

definition handleMe :: "string \<Rightarrow> 'd server \<Rightarrow> response \<times> 'd server" where
  "handleMe userID s = (case GetByID userID (sv_db s) of
     (Inl e, d) \<Rightarrow> (reply 500 (JError (Msg ''could not load user'')), with_db d s)
   | (Inr u, d) \<Rightarrow> (reply 200 (JUser (u_Username u)), with_db d s))"

subsection \<open>handlers.go\<close>

definition s_pool ::
  "'d benv \<Rightarrow> renv \<Rightarrow> string \<Rightarrow> (pool \<Rightarrow> 'd server \<Rightarrow> response \<times> 'd server) \<Rightarrow> 'd server \<Rightarrow> response \<times> 'd server"
where
  "s_pool B R userID next s = (case cache_get B (re_now R) userID s of
     (Inl e, s') \<Rightarrow> (reply 500 (JError (PoolOpen e)), s')
   | (Inr p, s') \<Rightarrow> next p s')"

definition account_entry :: "account_status \<Rightarrow> account_json" where
  "account_entry st = (case st_Err st of
     Some e \<Rightarrow> AccountErr (st_Label st) e
   | None \<Rightarrow> AccountOK (st_Label st) (st_Limit st) (st_Usage st) (st_Available st) (st_Unlimited st)
       (if st_PhotoURL st \<noteq> [] then Some (st_PhotoURL st) else None))"

definition handleListAccounts :: "'d benv \<Rightarrow> renv \<Rightarrow> string \<Rightarrow> 'd server \<Rightarrow> response \<times> 'd server" where
  "handleListAccounts B R userID = s_pool B R userID (\<lambda>p s. case ListAccountStatus (be_penv B) p (sv_world s) of
     (Inl e, w) \<Rightarrow> (fail_reply 500 e, s\<lparr>sv_world := w\<rparr>)
   | (Inr sts, w) \<Rightarrow> (reply 200 (JAccounts (map account_entry sts)), s\<lparr>sv_world := w\<rparr>))"

text \<open>\<open>strconv.ParseBool\<close>, whose error is ignored.\<close>
definition ParseBool :: "string \<Rightarrow> bool" where
  "ParseBool v \<longleftrightarrow> v \<in> {''1'', ''t'', ''T'', ''TRUE'', ''true'', ''True''}"

definition in_use :: "perror \<Rightarrow> bool" where
  "in_use e = (case e of ErrAccountInUse l n \<Rightarrow> True | _ \<Rightarrow> False)"

definition handleRemoveAccount :: "'d benv \<Rightarrow> renv \<Rightarrow> request \<Rightarrow> string \<Rightarrow> string \<Rightarrow> 'd server \<Rightarrow> response \<times> 'd server" where
  "handleRemoveAccount B R rq label userID = s_pool B R userID (\<lambda>p s.
     case RemoveAccount (be_penv B) label (ParseBool (rq_Query rq ''force'')) p (sv_db s) of
       (Inl e, p', d) \<Rightarrow> (if in_use e then reply 409 (JError (PoolFail e)) else fail_reply 404 e, set_pool userID p' (with_db d s))
     | (Inr _, p', d) \<Rightarrow> (reply 204 NoBody, set_pool userID p' (with_db d s)))"

definition file_entry :: "file_info \<Rightarrow> string \<times> int \<times> vf_status \<times> int \<times> string list \<times> bool" where
  "file_entry f = (vf_Name (fi_VirtualFile f), vf_Size (fi_VirtualFile f), vf_Status (fi_VirtualFile f),
     vf_ModifiedAt (fi_VirtualFile f), fi_Accounts f, fi_Degraded f)"

definition handleListFiles :: "'d benv \<Rightarrow> renv \<Rightarrow> request \<Rightarrow> string \<Rightarrow> 'd server \<Rightarrow> response \<times> 'd server" where
  "handleListFiles B R rq userID = s_pool B R userID (\<lambda>p s.
     case ListWithAccounts (be_penv B) p (rq_Query rq ''prefix'') (sv_db s) of
       (Inl e, d) \<Rightarrow> (fail_reply 500 e, with_db d s)
     | (Inr fs, d) \<Rightarrow> (reply 200 (JFiles (map file_entry fs)), with_db d s))"

definition handleUploadFile :: "'d benv \<Rightarrow> renv \<Rightarrow> request \<Rightarrow> string \<Rightarrow> 'd server \<Rightarrow> response \<times> 'd server" where
  "handleUploadFile B R rq userID = s_pool B R userID (\<lambda>p s.
     case rq_form rq of
       None \<Rightarrow> (reply 400 (JError (Msg ''missing file form field'')), s)
     | Some f \<Rightarrow>
        (let virtualName = (if uf_name f = [] then uf_Filename f else uf_name f) in
         case uf_Open f of
           Inl e \<Rightarrow> (reply 500 (JError (Msg e)), s)
         | Inr r \<Rightarrow> (case PutStream (be_penv B) (re_put R) p r (uf_Size f) virtualName (sv_world s) of
             (Inl e, w) \<Rightarrow> (if e = PRecordFile ErrNameExists
                 then reply 409 (JError (Msg ''a file of that name already exists'')) else fail_reply 500 e, s\<lparr>sv_world := w\<rparr>)
           | (Inr _, w) \<Rightarrow> (reply 201 (JName virtualName), s\<lparr>sv_world := w\<rparr>))))"

text \<open>
  The status 200 leaves with the first byte written, so an aborted download answers 500 only if
  nothing had been written; the bytes written so far are part of the answer.
\<close>
definition handleDownloadFile :: "'d benv \<Rightarrow> renv \<Rightarrow> request \<Rightarrow> string \<Rightarrow> 'd server \<Rightarrow> response \<times> 'd server" where
  "handleDownloadFile B R rq userID = s_pool B R userID (\<lambda>p s.
     let name = rq_Query rq ''name'' in
     if name = [] then (reply 400 (JError (Msg ''missing name query param'')), s)
     else (case GetStream (be_penv B) (re_rank R) p name (sv_world s) empty_buffer of
         (Inl e, w, out) \<Rightarrow> (if e = PManifest ErrNotFound then reply 404 (JError (Msg ''file not found''))
             else reply (if wout out = [] then 500 else 200) (StreamCut (wout out) e), s\<lparr>sv_world := w\<rparr>)
       | (Inr _, w, out) \<Rightarrow> (reply 200 (Stream (wout out)), s\<lparr>sv_world := w\<rparr>)))"

definition handleDeleteFile :: "'d benv \<Rightarrow> renv \<Rightarrow> request \<Rightarrow> string \<Rightarrow> 'd server \<Rightarrow> response \<times> 'd server" where
  "handleDeleteFile B R rq userID = s_pool B R userID (\<lambda>p s.
     let name = rq_Query rq ''name'' in
     if name = [] then (reply 400 (JError (Msg ''missing name query param'')), s)
     else (case Remove (be_penv B) (re_now R) (re_order R) p name (ParseBool (rq_Query rq ''purge'')) (sv_world s) of
         (Inl e, w) \<Rightarrow> (fail_reply 404 e, s\<lparr>sv_world := w\<rparr>)
       | (Inr _, w) \<Rightarrow> (reply 204 NoBody, s\<lparr>sv_world := w\<rparr>)))"

subsection \<open>handlers\_oauth.go and handlers\_health.go\<close>

text \<open>\<open>Pool.AuthCodeURL\<close>: a chooser for the account, and a refresh token every time.\<close>
definition AuthCodeURL :: "'d benv \<Rightarrow> string \<Rightarrow> string \<Rightarrow> string" where
  "AuthCodeURL B redirectURL state = be_authURL B redirectURL state
     [(''access_type'', ''offline''), (''prompt'', ''select_account consent'')]"

definition handleConnectAccount :: "'d benv \<Rightarrow> renv \<Rightarrow> request \<Rightarrow> string \<Rightarrow> 'd server \<Rightarrow> response \<times> 'd server" where
  "handleConnectAccount B R rq userID = s_pool B R userID (\<lambda>p s.
     let label = rq_Query rq ''label'' in
     if label = [] then (reply 400 (JError (Msg ''missing label query param'')), s)
     else let state = randomState (re_state R) in
       (reply 302 (Redirect (AuthCodeURL B (oauthRedirectURL (be_cfg B)) state)),
        s\<lparr>sv_pending := AList.update state \<lparr>pd_userID = userID, pd_label = label, pd_createdAt = re_now R\<rparr> (sv_pending s)\<rparr>))"

definition handleOAuthCallback :: "'d benv \<Rightarrow> renv \<Rightarrow> request \<Rightarrow> 'd server \<Rightarrow> response \<times> 'd server" where
  "handleOAuthCallback B R rq s =
     (let state = rq_Query rq ''state''; s1 = s\<lparr>sv_pending := AList.delete state (sv_pending s)\<rparr> in
      case map_of (sv_pending s) state of
        None \<Rightarrow> (reply 400 (PlainText ''invalid or expired authorization request''), s)
      | Some pending \<Rightarrow>
         if re_now R - pd_createdAt pending > oauthStateTTL
         then (reply 400 (PlainText ''invalid or expired authorization request''), s1)
         else if rq_Query rq ''error'' \<noteq> [] then (reply 302 (ConnectError (Msg (rq_Query rq ''error''))), s1)
         else (case cache_get B (re_now R) (pd_userID pending) s1 of
             (Inl e, s2) \<Rightarrow> (reply 302 (ConnectError (PoolOpen e)), s2)
           | (Inr p, s2) \<Rightarrow>
              (case CompleteConsent (be_penv B) (re_exchange R) (re_id R) (re_iv R) (re_now R) (oauthRedirectURL (be_cfg B))
                      (rq_Query rq ''code'') (pd_label pending) p (sv_world s2) of
                 (Inl e, p', w) \<Rightarrow> (if is_panic e then reply 500 NoBody else reply 302 (ConnectError (PoolFail e)),
                     set_pool (pd_userID pending) p' (s2\<lparr>sv_world := w\<rparr>))
               | (Inr a, p', w) \<Rightarrow> (reply 302 (Redirect ''/''), set_pool (pd_userID pending) p' (s2\<lparr>sv_world := w\<rparr>)))))"

definition handleHealthz :: "'d server \<Rightarrow> response \<times> 'd server" where
  "handleHealthz s = (reply 200 NoBody, s)"

definition handleReadyz :: "'d server \<Rightarrow> response \<times> 'd server" where
  "handleReadyz s = (case auth_Ping (sv_db s) of
     (Inl e, d) \<Rightarrow> (reply 503 (PlainText ''not ready''), with_db d s)
   | (Inr _, d) \<Rightarrow> (reply 200 NoBody, with_db d s))"

subsection \<open>assets.go and the router\<close>

text \<open>\<open>registerSPA\<close>: what happens to a request no route matches.\<close>
definition registerSPA :: "'d benv \<Rightarrow> request \<Rightarrow> 'd server \<Rightarrow> response \<times> 'd server" where
  "registerSPA B rq s =
     (if rq_Method rq \<noteq> ''GET'' \<or> prefix ''/api/'' (rq_Path rq) then (reply 404 NoBody, s)
      else let reqPath = (if prefix ''/'' (rq_Path rq) then drop 1 (rq_Path rq) else rq_Path rq) in
        if reqPath \<noteq> [] \<and> be_assets B reqPath \<noteq> None then (reply 200 (Asset reqPath), s)
        else (case be_assets B ''index.html'' of
           None \<Rightarrow> (reply 500 NoBody, s) | Some data \<Rightarrow> (reply 200 (Page data), s)))"

text \<open>The parameter of a route ending in \<open>/:label\<close>: one non-empty path segment.\<close>
definition path_param :: "string \<Rightarrow> string \<Rightarrow> string option" where
  "path_param pre path = (let rest = drop (length pre) path in
     if prefix pre path \<and> rest \<noteq> [] \<and> CHR ''/'' \<notin> set rest then Some rest else None)"

definition newRouter :: "'d benv \<Rightarrow> renv \<Rightarrow> request \<Rightarrow> 'd server \<Rightarrow> response \<times> 'd server" where
  "newRouter B R rq =
     (let route = (rq_Method rq, rq_Path rq) in
      if route = (''GET'', ''/healthz'') then handleHealthz
      else if route = (''GET'', ''/readyz'') then handleReadyz
      else if route = (''GET'', ''/api/accounts/oauth/callback'') then handleOAuthCallback B R rq
      else if route = (''POST'', ''/api/auth/register'') then handleRegister B R rq
      else if route = (''POST'', ''/api/auth/login'') then handleLogin B rq
      else if route = (''POST'', ''/api/auth/logout'') then handleLogout
      else if route = (''GET'', ''/api/me'') then requireSession rq handleMe
      else if route = (''GET'', ''/api/accounts'') then requireSession rq (handleListAccounts B R)
      else if route = (''GET'', ''/api/accounts/connect'') then requireSession rq (handleConnectAccount B R rq)
      else if rq_Method rq = ''DELETE'' \<and> path_param ''/api/accounts/'' (rq_Path rq) \<noteq> None
        then requireSession rq (handleRemoveAccount B R rq (the (path_param ''/api/accounts/'' (rq_Path rq))))
      else if route = (''GET'', ''/api/files'') then requireSession rq (handleListFiles B R rq)
      else if route = (''POST'', ''/api/files'') then requireSession rq (handleUploadFile B R rq)
      else if route = (''GET'', ''/api/files/download'') then requireSession rq (handleDownloadFile B R rq)
      else if route = (''DELETE'', ''/api/files'') then requireSession rq (handleDeleteFile B R rq)
      else (case be_slash B (rq_Method rq) (rq_Path rq) of
         Some loc \<Rightarrow> (\<lambda>s. (reply (if rq_Method rq = ''GET'' then 301 else 307) (Redirect loc), s))
       | None \<Rightarrow> registerSPA B rq))"

text \<open>
  The random identifiers a request draws (256 and 128 bits) are not in use in the server's memory.
\<close>
definition fresh_choice :: "renv \<Rightarrow> 'd server \<Rightarrow> bool" where
  "fresh_choice R s \<longleftrightarrow> list_all (\<lambda>(u, p, t). map_of (p_accounts p) (GenerateID (re_id R)) = None) (sv_pools s)
     \<and> map_of (sv_pending s) (randomState (re_state R)) = None"

text \<open>The life of a server: requests and ticks of the eviction loop, in any order, from an empty memory.\<close>
inductive server_reach :: "'d benv \<Rightarrow> 'd world \<Rightarrow> 'd server \<Rightarrow> bool" for B :: "'d benv" and w :: "'d world" where
  boot: "server_reach B w \<lparr>sv_world = w, sv_pools = [], sv_pending = []\<rparr>"
| serve: "server_reach B w s \<Longrightarrow> fresh_choice R s \<Longrightarrow> server_reach B w (snd (newRouter B R rq s))"
| tick: "server_reach B w s \<Longrightarrow> server_reach B w (evict_tick now s)"

end
