(* ===== verification/Backend_Isolation.thy ===== *)
theory Backend_Isolation
  imports Backend Pool_Tenancy
begin

text \<open>
  What the portal guarantees: entries of the two in-memory maps expire, an OAuth state works once,
  nothing behind the session middleware is reachable without a session, and a request of one user
  changes nothing of another's, in the database or in memory, whatever the order of requests and
  of ticks of the eviction loop.
\<close>

subsection \<open>Expiring maps\<close>

text \<open>
  The contract of a map whose entries carry a time stamp and are swept when they are older than a
  limit. The cache of pools and the pending OAuth flows are both such maps.
\<close>
locale expiring_map =
  fixes wf :: "'s \<Rightarrow> bool" and lookup :: "'s \<Rightarrow> 'k \<Rightarrow> 'v option" and sweep_at :: "int \<Rightarrow> 's \<Rightarrow> 's"
    and stamp :: "'v \<Rightarrow> int" and limit :: int
  assumes sweep_wf: "wf s \<Longrightarrow> wf (sweep_at now s)"
    and sweep_lookup: "wf s \<Longrightarrow> lookup (sweep_at now s) k = (case lookup s k of
      None \<Rightarrow> None | Some v \<Rightarrow> if now - stamp v > limit then None else Some v)"
begin

lemma swept_fresh: "wf s \<Longrightarrow> lookup (sweep_at now s) k = Some v \<longleftrightarrow> lookup s k = Some v \<and> now - stamp v \<le> limit"
  by (auto simp: sweep_lookup split: option.splits)

text \<open>A later sweep makes an earlier one superfluous: nothing depends on how often the loop ran.\<close>
lemma sweep_absorbs: "wf s \<Longrightarrow> t \<le> t' \<Longrightarrow> lookup (sweep_at t' (sweep_at t s)) k = lookup (sweep_at t' s) k"
  by (auto simp: sweep_lookup sweep_wf split: option.splits)

end

lemma sweep_map_of:
  assumes "distinct (map fst m)"
  shows "map_of (sweep stamp limit now m) k = (case map_of m k of
    None \<Rightarrow> None | Some v \<Rightarrow> if now - stamp v > limit then None else Some v)"
  using assms
proof (induction m)
  case (Cons x m)
  have "map_of m k = None" if "k \<notin> fst ` set m" using that by (simp add: map_of_eq_None_iff)
  moreover have "map_of (sweep stamp limit now m) k = None" if "k \<notin> fst ` set m"
    using that by (auto simp: map_of_eq_None_iff sweep_def)
  ultimately show ?case using Cons by (cases x) (auto simp: sweep_def split: option.splits)
qed (simp add: sweep_def)

lemma sweep_distinct: "distinct (map fst m) \<Longrightarrow> distinct (map fst (sweep stamp limit now m))"
  by (simp add: sweep_def distinct_map_filter)

interpretation pool_cache: expiring_map "\<lambda>s. distinct (map fst (sv_pools s))" "\<lambda>s. map_of (sv_pools s)"
  "evictIdle idlePoolTimeout" snd idlePoolTimeout
  by unfold_locales (simp_all add: evictIdle_def sweep_distinct sweep_map_of)

interpretation oauth_flows: expiring_map "\<lambda>s. distinct (map fst (sv_pending s))" "\<lambda>s. map_of (sv_pending s)"
  sweepExpiredOAuthState pd_createdAt oauthStateTTL
  by unfold_locales (simp_all add: sweepExpiredOAuthState_def sweep_distinct sweep_map_of)

subsection \<open>The invariant of the server\<close>

definition server_inv :: "'d server \<Rightarrow> bool" where
  "server_inv s \<longleftrightarrow> tenant_ok (sv_db s) \<and> distinct (map fst (sv_pools s)) \<and> distinct (map fst (sv_pending s))
     \<and> (\<forall>u p t. map_of (sv_pools s) u = Some (p, t) \<longrightarrow> u \<noteq> [] \<and> p_userID p = u \<and> ids_match p \<and> pool_owned p (sv_db s))
     \<and> (\<forall>st pd. map_of (sv_pending s) st = Some pd \<longrightarrow> pd_userID pd \<noteq> [])"

text \<open>What belongs to a user: rows, the cached pool, the pending flows.\<close>
definition same_for :: "string \<Rightarrow> 'd server \<Rightarrow> 'd server \<Rightarrow> bool" where
  "same_for v s s' \<longleftrightarrow> tenant_view v (sv_db s') = tenant_view v (sv_db s) \<and> map_of (sv_pools s') v = map_of (sv_pools s) v
     \<and> (\<forall>st pd. pd_userID pd = v \<longrightarrow> (map_of (sv_pending s') st = Some pd \<longleftrightarrow> map_of (sv_pending s) st = Some pd))"

definition acts_for :: "string \<Rightarrow> 'd server \<Rightarrow> 'd server \<Rightarrow> bool" where
  "acts_for u s s' \<longleftrightarrow> server_inv s' \<and> (\<forall>v. v \<noteq> u \<longrightarrow> same_for v s s')"

lemma acts_for_refl: "server_inv s \<Longrightarrow> acts_for u s s"
  by (simp add: acts_for_def same_for_def)

lemma acts_for_trans: "acts_for u s s' \<Longrightarrow> acts_for u s' s'' \<Longrightarrow> acts_for u s s''"
  by (simp add: acts_for_def same_for_def)

lemma server_simps [simp]:
  "sv_db (with_db d s) = d" "sv_pools (with_db d s) = sv_pools s" "sv_pending (with_db d s) = sv_pending s"
  "sv_db (s\<lparr>sv_world := w\<rparr>) = w_db w" "sv_db (s\<lparr>sv_pools := ps\<rparr>) = sv_db s" "sv_db (s\<lparr>sv_pending := fs\<rparr>) = sv_db s"
  "sv_db (set_pool u p s) = sv_db s" "sv_pending (set_pool u p s) = sv_pending s"
  by (simp_all add: sv_db_def with_db_def set_pool_def)

lemma set_pool_lookup:
  "map_of (sv_pools (set_pool u p s)) v = map_option (\<lambda>e. if v = u then (p, snd e) else e) (map_of (sv_pools s) v)"
proof -
  have "map_of (map (\<lambda>(v, e). (v, if v = u then (p, snd e) else e)) m) v =
      map_option (\<lambda>e. if v = u then (p, snd e) else e) (map_of m v)" for m :: "(string \<times> pool \<times> int) list"
    by (induction m) auto
  then show ?thesis by (simp add: set_pool_def)
qed

lemma set_pool_keys [simp]: "map fst (sv_pools (set_pool u p s)) = map fst (sv_pools s)"
  by (simp add: set_pool_def comp_def split_def)

lemma server_invD:
  "server_inv s \<Longrightarrow> map_of (sv_pools s) u = Some (p, t) \<Longrightarrow> u \<noteq> [] \<and> p_userID p = u \<and> ids_match p \<and> pool_owned p (sv_db s)"
  "server_inv s \<Longrightarrow> tenant_ok (sv_db s)"
  "server_inv s \<Longrightarrow> map_of (sv_pending s) st = Some pd \<Longrightarrow> pd_userID pd \<noteq> []"
  unfolding server_inv_def by metis+

text \<open>A step of a user on the database that does not touch the server's memory.\<close>
lemma acts_for_db:
  assumes "server_inv s" "user_step u X (sv_db s) d"
    and "\<And>v p t i. v \<noteq> u \<Longrightarrow> map_of (sv_pools s) v = Some (p, t) \<Longrightarrow> i \<in> X \<Longrightarrow> map_of (p_accounts p) i = None"
  shows "acts_for u s (with_db d s)"
proof -
  have "pool_owned p d" if "map_of (sv_pools s) v = Some (p, t)" for v p t
  proof (cases "v = u")
    case True
    then have "p_userID p = u" "pool_owned p (sv_db s)" using server_invD(1) [OF assms(1) that] by auto
    then show ?thesis using assms(2) pool_owned_own by blast
  next
    case False
    have "pool_owned p (sv_db s)" using server_invD(1) [OF assms(1) that] by simp
    then show ?thesis by (rule pool_owned_step [OF _ assms(2)]) (use assms(3) [OF False that] in simp)
  qed
  moreover have "tenant_ok d" "\<And>v. v \<noteq> u \<Longrightarrow> tenant_view v d = tenant_view v (sv_db s)"
    using assms(2) server_invD(2) [OF assms(1)] by (simp_all add: user_step_def)
  moreover have "distinct (map fst (sv_pools s))" "distinct (map fst (sv_pending s))" using assms(1) by (simp_all add: server_inv_def)
  ultimately have "server_inv (with_db d s)"
    unfolding server_inv_def server_simps using server_invD(1,3) [OF assms(1)] by blast
  with \<open>\<And>v. v \<noteq> u \<Longrightarrow> tenant_view v d = tenant_view v (sv_db s)\<close> show ?thesis by (simp add: acts_for_def same_for_def)
qed

lemma acts_for_world: "acts_for u s (with_db (w_db w) s) \<Longrightarrow> acts_for u s (s\<lparr>sv_world := w\<rparr>)"
  unfolding acts_for_def same_for_def server_inv_def by simp

text \<open>A step on the pools of one user.\<close>
lemma acts_for_pools:
  assumes inv: "server_inv s" and "sv_db s' = sv_db s" "sv_pending s' = sv_pending s" "distinct (map fst (sv_pools s'))"
    and "\<And>v. v \<noteq> u \<Longrightarrow> map_of (sv_pools s') v = map_of (sv_pools s) v"
    and "\<And>p t. map_of (sv_pools s') u = Some (p, t) \<Longrightarrow> u \<noteq> [] \<and> p_userID p = u \<and> ids_match p \<and> pool_owned p (sv_db s)"
  shows "acts_for u s s'"
proof -
  have "v \<noteq> [] \<and> p_userID p = v \<and> ids_match p \<and> pool_owned p (sv_db s)" if "map_of (sv_pools s') v = Some (p, t)" for v p t
    using that assms(5) [of v] assms(6) [of p t] server_invD(1) [OF inv, of v p t] by (cases "v = u") auto
  moreover have "tenant_ok (sv_db s)" "distinct (map fst (sv_pending s))" "\<And>st pd. map_of (sv_pending s) st = Some pd \<Longrightarrow> pd_userID pd \<noteq> []"
    using inv unfolding server_inv_def by metis+
  ultimately have "server_inv s'" unfolding server_inv_def assms(2,3) using assms(4) by blast
  then show ?thesis using assms(2,3,5) by (simp add: acts_for_def same_for_def)
qed

lemma acts_for_set_pool:
  assumes "server_inv s" "p_userID p = u \<and> ids_match p \<and> pool_owned p (sv_db s)"
  shows "acts_for u s (set_pool u p s)"
proof (rule acts_for_pools [OF assms(1)])
  show "distinct (map fst (sv_pools (set_pool u p s)))" using assms(1) by (simp add: server_inv_def)
  show "map_of (sv_pools (set_pool u p s)) v = map_of (sv_pools s) v" if "v \<noteq> u" for v
    using that by (simp add: set_pool_lookup option.map_ident)
  show "u \<noteq> [] \<and> p_userID q = u \<and> ids_match q \<and> pool_owned q (sv_db s)"
    if "map_of (sv_pools (set_pool u p s)) u = Some (q, t)" for q t
    using that assms(2) server_invD(1) [OF assms(1), of u] unfolding set_pool_lookup by auto
qed simp_all

lemma acts_for_put_pool:
  assumes "server_inv s" "u \<noteq> []" "p_userID p = u" "ids_match p" "pool_owned p (sv_db s)"
  shows "acts_for u s (s\<lparr>sv_pools := AList.update u (p, t) (sv_pools s)\<rparr>)"
  by (rule acts_for_pools [OF assms(1)]) (use assms in \<open>auto simp: update_conv' distinct_update server_inv_def\<close>)

subsection \<open>The cache\<close>

lemma OpenWithUser_cases:
  assumes "OpenWithUser parse mk cd m u path d = (res, d')"
  obtains (early) e where "res = Inl e" "d' = d"
  | (opened) c r where "Open (mk c) u d = (r, d')" "res = (case r of Inl e \<Rightarrow> Inl (OpenPoolErr e) | Inr p \<Rightarrow> Inr p)"
  using assms by (auto simp: OpenWithUser_def split: if_splits sum.splits prod.splits)

lemma cache_get_acts:
  assumes inv: "server_inv s" and "u \<noteq> []" and get: "cache_get B now u s = (res, s')"
  shows "acts_for u s s'" and "sv_pending s' = sv_pending s" and "w_drives (sv_world s') = w_drives (sv_world s)"
    and "res = Inr p \<Longrightarrow> \<exists>t. map_of (sv_pools s') u = Some (p, t)"
    and "\<And>v p t i. map_of (sv_pools s') v = Some (p, t) \<Longrightarrow> v \<noteq> u \<Longrightarrow> map_of (sv_pools s) v = Some (p, t)"
proof -
  have *: "acts_for u s s' \<and> sv_pending s' = sv_pending s \<and> w_drives (sv_world s') = w_drives (sv_world s)
    \<and> (\<forall>p. res = Inr p \<longrightarrow> (\<exists>t. map_of (sv_pools s') u = Some (p, t)))"
  proof (cases "map_of (sv_pools s) u")
    case (Some e)
    then obtain q t where q: "map_of (sv_pools s) u = Some (q, t)" by (cases e) auto
    with get have r: "res = Inr q" "s' = s\<lparr>sv_pools := AList.update u (q, now) (sv_pools s)\<rparr>"
      by (auto simp: cache_get_def)
    have "p_userID q = u \<and> ids_match q \<and> pool_owned q (sv_db s)" using server_invD(1) [OF inv q] by simp
    with r acts_for_put_pool [OF inv assms(2), of q now] show ?thesis by (auto simp: update_conv')
  next
    case None
    obtain r d where o: "OpenWithUser (be_parse B) (\<lambda>_. be_penv B) (be_configDir B) (be_nodes B) u
      (cf_ClientSecretPath (be_cfg B)) (sv_db s) = (r, d)" by (metis surj_pair)
    have ok: "tenant_ok (sv_db s)" using inv by (simp add: server_inv_def)
    from o have ud: "user_step u {} (sv_db s) d \<and> (\<forall>p. r = Inr p \<longrightarrow> p_userID p = u \<and> ids_match p \<and> pool_owned p d)"
    proof (cases rule: OpenWithUser_cases)
      case (opened c r')
      then show ?thesis using Open_user(1) [OF opened(1)] Open_owned [of "be_penv B" u "sv_db s" _ d] ok
        by (auto split: sum.splits)
    qed auto
    have a: "acts_for u s (with_db d s)" by (rule acts_for_db [OF inv]) (use ud in auto)
    show ?thesis
    proof (cases r)
      case (Inl e)
      with get None o have "res = Inl e" "s' = with_db d s" by (simp_all add: cache_get_def)
      with a show ?thesis by (simp add: with_db_def)
    next
      case (Inr p)
      with get None o have r: "res = Inr p" "s' = (with_db d s)\<lparr>sv_pools := AList.update u (p, now) (sv_pools (with_db d s))\<rparr>"
        by (simp_all add: cache_get_def)
      have "acts_for u (with_db d s) s'"
        unfolding r(2) using ud Inr a by (intro acts_for_put_pool assms(2)) (auto simp: acts_for_def)
      with a r show ?thesis by (auto simp: update_conv' with_db_def intro: acts_for_trans)
    qed
  qed
  then show "acts_for u s s'" "sv_pending s' = sv_pending s" "w_drives (sv_world s') = w_drives (sv_world s)"
    "res = Inr p \<Longrightarrow> \<exists>t. map_of (sv_pools s') u = Some (p, t)" by auto
  show "map_of (sv_pools s') v = Some (q, t) \<Longrightarrow> v \<noteq> u \<Longrightarrow> map_of (sv_pools s) v = Some (q, t)" for v q t
    using * unfolding acts_for_def same_for_def by metis
qed


subsection \<open>Every handler acts for its user\<close>

text \<open>
  A handler behind \<open>s_pool\<close> acts for its user if its body does, on a pool that satisfies the invariant.
\<close>
lemma s_pool_acts:
  assumes inv: "server_inv s" and "u \<noteq> []"
    and body: "\<And>p s1. server_inv s1 \<Longrightarrow> p_userID p = u \<Longrightarrow> ids_match p \<Longrightarrow> pool_owned p (sv_db s1) \<Longrightarrow>
        sv_pending s1 = sv_pending s \<Longrightarrow> acts_for u s1 (snd (k p s1))"
  shows "acts_for u s (snd (s_pool B R u k s))"
proof -
  obtain r s1 where g: "cache_get B (re_now R) u s = (r, s1)" by (metis surj_pair)
  note c = cache_get_acts [OF inv assms(2) g]
  show ?thesis
  proof (cases r)
    case (Inl e)
    with g c(1) show ?thesis by (simp add: s_pool_def)
  next
    case (Inr p)
    have inv1: "server_inv s1" using c(1) by (simp add: acts_for_def)
    obtain t where "map_of (sv_pools s1) u = Some (p, t)" using c(4) [OF Inr] by blast
    from server_invD(1) [OF inv1 this] body [OF inv1, of p] c(2) have "acts_for u s1 (snd (k p s1))" by simp
    with g Inr c(1) show ?thesis by (auto simp: s_pool_def intro: acts_for_trans)
  qed
qed

lemma acts_for_db0: "server_inv s \<Longrightarrow> user_step u {} (sv_db s) d \<Longrightarrow> acts_for u s (with_db d s)"
  by (rule acts_for_db) auto

lemma acts_for_world0: "server_inv s \<Longrightarrow> user_step u {} (w_db (sv_world s)) (w_db w) \<Longrightarrow> acts_for u s (s\<lparr>sv_world := w\<rparr>)"
  by (rule acts_for_world, rule acts_for_db0) (simp_all add: sv_db_def)

lemma handleListAccounts_acts: "server_inv s \<Longrightarrow> u \<noteq> [] \<Longrightarrow> acts_for u s (snd (handleListAccounts B R u s))"
  unfolding handleListAccounts_def
  by (erule s_pool_acts)
    (auto split: prod.splits sum.splits intro!: acts_for_world0 dest!: ListAccountStatus_user)

lemma handleListFiles_acts: "server_inv s \<Longrightarrow> u \<noteq> [] \<Longrightarrow> acts_for u s (snd (handleListFiles B R rq u s))"
  unfolding handleListFiles_def
  by (erule s_pool_acts)
    (auto split: prod.splits sum.splits intro!: acts_for_db0 dest!: ListWithAccounts_user)

lemma handleDownloadFile_acts: "server_inv s \<Longrightarrow> u \<noteq> [] \<Longrightarrow> acts_for u s (snd (handleDownloadFile B R rq u s))"
  unfolding handleDownloadFile_def
  by (erule s_pool_acts)
    (auto simp: Let_def split: prod.splits sum.splits intro!: acts_for_world0 acts_for_refl dest!: GetStream_user)

lemma handleDeleteFile_acts: "server_inv s \<Longrightarrow> u \<noteq> [] \<Longrightarrow> acts_for u s (snd (handleDeleteFile B R rq u s))"
  unfolding handleDeleteFile_def
  by (erule s_pool_acts)
    (auto simp: Let_def split: prod.splits sum.splits intro!: acts_for_world0 acts_for_refl dest!: Remove_user)

lemma PutStream_acts:
  assumes "PutStream E pe p r n name (sv_world s) = (res, w)" "server_inv s" "p_userID p = u" "ids_match p" "pool_owned p (sv_db s)"
  shows "acts_for u s (s\<lparr>sv_world := w\<rparr>)"
  using PutStream_user [OF assms(1)] assms(3-5) server_invD(2) [OF assms(2)] by (intro acts_for_world0 assms(2)) (auto simp: sv_db_def)

lemma handleUploadFile_acts: "server_inv s \<Longrightarrow> u \<noteq> [] \<Longrightarrow> acts_for u s (snd (handleUploadFile B R rq u s))"
  unfolding handleUploadFile_def
  by (erule s_pool_acts)
    (auto simp: Let_def acts_for_refl split: option.splits sum.splits prod.splits intro: PutStream_acts)

text \<open>A pool operation that changes the database and the pool itself.\<close>
lemma acts_for_pool_op:
  assumes "acts_for u s s1" "p_userID p' = u" "ids_match p'" "pool_owned p' (sv_db s1)"
  shows "acts_for u s (set_pool u p' s1)"
proof -
  have "server_inv s1" using assms(1) by (simp add: acts_for_def)
  from acts_for_set_pool [OF this] assms show ?thesis by (blast intro: acts_for_trans)
qed

lemma RemoveAccount_acts:
  assumes r: "RemoveAccount E label f p (sv_db s) = (res, p', d)"
    and "server_inv s" "p_userID p = u" "ids_match p" "pool_owned p (sv_db s)"
  shows "acts_for u s (set_pool u p' (with_db d s))"
  using RemoveAccount_user(1,2) [OF r] RemoveAccount_owned [OF r assms(5,4)] assms(2,3)
  by (intro acts_for_pool_op acts_for_db0) simp_all

lemma handleRemoveAccount_acts: "server_inv s \<Longrightarrow> u \<noteq> [] \<Longrightarrow> acts_for u s (snd (handleRemoveAccount B R rq label u s))"
  unfolding handleRemoveAccount_def
  by (erule s_pool_acts) (auto split: sum.splits prod.splits intro: RemoveAccount_acts)

text \<open>A new flow under a state that is not in use.\<close>
lemma acts_for_pending:
  assumes "server_inv s" "map_of (sv_pending s) st = None" "pd_userID pd = u" "u \<noteq> []"
  shows "acts_for u s (s\<lparr>sv_pending := AList.update st pd (sv_pending s)\<rparr>)"
proof -
  have "distinct (map fst (AList.update st pd (sv_pending s)))"
    using assms(1) by (intro distinct_update) (simp add: server_inv_def)
  moreover have "pd_userID pd' \<noteq> []" if "map_of (AList.update st pd (sv_pending s)) st' = Some pd'" for st' pd'
    using that assms(3,4) server_invD(3) [OF assms(1)] by (auto simp: update_conv' split: if_splits)
  ultimately have "server_inv (s\<lparr>sv_pending := AList.update st pd (sv_pending s)\<rparr>)"
    using assms(1) unfolding server_inv_def by simp
  then show ?thesis using assms(2,3) by (auto simp: acts_for_def same_for_def update_conv')
qed

lemma acts_for_pending':
  "server_inv s \<Longrightarrow> sv_pending s = m \<Longrightarrow> map_of m st = None \<Longrightarrow> pd_userID pd = u \<Longrightarrow> u \<noteq> [] \<Longrightarrow>
    acts_for u s (s\<lparr>sv_pending := AList.update st pd m\<rparr>)"
  using acts_for_pending by blast

lemma handleConnectAccount_acts:
  "server_inv s \<Longrightarrow> u \<noteq> [] \<Longrightarrow> fresh_choice R s \<Longrightarrow> acts_for u s (snd (handleConnectAccount B R rq u s))"
  unfolding handleConnectAccount_def
  by (erule s_pool_acts) (auto simp: Let_def acts_for_refl fresh_choice_def intro!: acts_for_pending')

lemma acts_for_drop_pending:
  assumes "server_inv s" "\<And>pd. map_of (sv_pending s) st = Some pd \<Longrightarrow> pd_userID pd = u"
  shows "acts_for u s (s\<lparr>sv_pending := AList.delete st (sv_pending s)\<rparr>)"
proof -
  have "distinct (map fst (AList.delete st (sv_pending s)))"
    using assms(1) by (intro distinct_delete) (simp add: server_inv_def)
  moreover have "pd_userID pd' \<noteq> []" if "map_of (AList.delete st (sv_pending s)) st' = Some pd'" for st' pd'
    using that server_invD(3) [OF assms(1)] by (auto simp: delete_conv' split: if_splits)
  ultimately have "server_inv (s\<lparr>sv_pending := AList.delete st (sv_pending s)\<rparr>)"
    using assms(1) unfolding server_inv_def by simp
  then show ?thesis using assms(2) by (auto simp: acts_for_def same_for_def delete_conv')
qed

lemma CompleteConsent_acts:
  assumes r: "CompleteConsent E ex idr ivr now url code label p (sv_world s) = (res, p', w)"
    and "server_inv s" "p_userID p = u" "ids_match p" "pool_owned p (sv_db s)"
    and fresh: "\<And>v q t. v \<noteq> u \<Longrightarrow> map_of (sv_pools s) v = Some (q, t) \<Longrightarrow> map_of (p_accounts q) (GenerateID idr) = None"
  shows "acts_for u s (set_pool u p' (s\<lparr>sv_world := w\<rparr>))"
proof -
  have db: "w_db (sv_world s) = sv_db s" by (simp add: sv_db_def)
  have "acts_for u s (with_db (w_db w) s)"
    by (rule acts_for_db [OF assms(2) CompleteConsent_user(1) [OF r, unfolded db assms(3)]]) (use fresh in auto)
  then have "acts_for u s (s\<lparr>sv_world := w\<rparr>)" by (rule acts_for_world)
  moreover have "pool_owned p' (w_db w) \<and> ids_match p'"
    using CompleteConsent_owned [OF r] assms(4,5) server_invD(2) [OF assms(2)] by (simp add: db)
  ultimately show ?thesis
    using CompleteConsent_user(2) [OF r] assms(3) by (intro acts_for_pool_op) simp_all
qed

lemma handleOAuthCallback_acts:
  assumes "server_inv s" "fresh_choice R s"
    and u: "\<And>pd. map_of (sv_pending s) (rq_Query rq ''state'') = Some pd \<Longrightarrow> pd_userID pd = u"
  shows "acts_for u s (snd (handleOAuthCallback B R rq s))"
proof (cases "map_of (sv_pending s) (rq_Query rq ''state'')")
  case None
  with assms(1) show ?thesis by (simp add: handleOAuthCallback_def Let_def acts_for_refl)
next
  case (Some pd)
  let ?s1 = "s\<lparr>sv_pending := AList.delete (rq_Query rq ''state'') (sv_pending s)\<rparr>"
  have pd: "pd_userID pd = u" "u \<noteq> []" using u [OF Some] server_invD(3) [OF assms(1) Some] by simp_all
  have a1: "acts_for u s ?s1" by (rule acts_for_drop_pending [OF assms(1) u])
  then have inv1: "server_inv ?s1" by (simp add: acts_for_def)
  obtain r s2 where g: "cache_get B (re_now R) u ?s1 = (r, s2)" by (metis surj_pair)
  note c = cache_get_acts [OF inv1 pd(2) g]
  have inv2: "server_inv s2" using c(1) by (simp add: acts_for_def)
  have a2: "acts_for u s s2" using a1 c(1) by (rule acts_for_trans)
  have fresh: "map_of (p_accounts q) (GenerateID (re_id R)) = None" if "v \<noteq> u" "map_of (sv_pools s2) v = Some (q, t)" for v q t
    using c(5) [OF that(2,1)] assms(2) by (auto simp: fresh_choice_def list_all_iff dest: map_of_SomeD)
  have fin: "acts_for u s (set_pool u p' (s2\<lparr>sv_world := w\<rparr>))"
    if op: "r = Inr p" "CompleteConsent (be_penv B) (re_exchange R) (re_id R) (re_iv R) (re_now R) (oauthRedirectURL (be_cfg B))
          (rq_Query rq ''code'') (pd_label pd) p (sv_world s2) = (res, p', w)" for p res p' w
  proof -
    obtain t where "map_of (sv_pools s2) u = Some (p, t)" using c(4) [OF op(1)] by blast
    from server_invD(1) [OF inv2 this] CompleteConsent_acts [OF op(2) inv2, of u] fresh
    have "acts_for u s2 (set_pool u p' (s2\<lparr>sv_world := w\<rparr>))" by blast
    with a2 show ?thesis by (rule acts_for_trans)
  qed
  show ?thesis using Some pd(1) g a1 a2 fin
    by (auto simp: handleOAuthCallback_def Let_def split: sum.splits prod.splits)
qed

subsection \<open>The handlers that need no pool\<close>

lemma auth_first_user: "auth_first Q d = (res, d') \<Longrightarrow> user_step u X d d'"
  using user_step_read [of "\<lambda>d. (case sql_first u_ID Q (db_users d) of None \<Rightarrow> Inl ErrNotFound | Some u \<Rightarrow> Inr u, d)" u X d]
  by (auto simp: auth_first_def split: prod.splits sum.splits)

lemma handleMe_acts: "server_inv s \<Longrightarrow> acts_for u s (snd (handleMe v s))"
  by (auto simp: handleMe_def GetByID_def split: prod.splits sum.splits intro!: acts_for_db0 dest!: auth_first_user)

lemma handleReadyz_acts: "server_inv s \<Longrightarrow> acts_for u s (snd (handleReadyz s))"
  using user_step_read [of "\<lambda>d. (Inr (), d)" u "{}" "sv_db s"]
  by (auto simp: handleReadyz_def auth_Ping_def split: prod.splits sum.splits intro!: acts_for_db0)

lemma handleLogin_acts: "server_inv s \<Longrightarrow> acts_for u s (snd (handleLogin B rq s))"
  by (auto simp: handleLogin_def Authenticate_def GetByUsername_def acts_for_refl
      split: option.splits prod.splits sum.splits intro!: acts_for_db0 dest!: auth_first_user)

lemma handleRegister_acts:
  assumes "server_inv s"
  shows "acts_for u s (snd (handleRegister B R rq s))"
proof -
  have "acts_for u s (with_db d s)"
    if "CreateUser (be_bcrypt B) (re_salt R) (re_id R) (re_now R) name pw (sv_db s) = (res, d)" for name pw res d
    using CreateUser_tenant [OF server_invD(2) [OF assms] that] assms by (intro acts_for_db0) (auto simp: user_step_def)
  with assms show ?thesis
    by (auto simp: handleRegister_def acts_for_refl split: option.splits prod.splits sum.splits)
qed

lemma registerSPA_state [simp]: "snd (registerSPA B rq s) = s"
  by (simp add: registerSPA_def Let_def split: option.splits)

subsection \<open>Every request acts for one user\<close>

definition callback_route :: "request \<Rightarrow> bool" where
  "callback_route rq \<longleftrightarrow> rq_Method rq = ''GET'' \<and> rq_Path rq = ''/api/accounts/oauth/callback''"

text \<open>On whose behalf a request acts: the user of its session, on the OAuth callback the user who started the flow.\<close>
definition acting_user :: "request \<Rightarrow> 'd server \<Rightarrow> string option" where
  "acting_user rq s = (if callback_route rq then map_option pd_userID (map_of (sv_pending s) (rq_Query rq ''state''))
     else rq_session rq)"

lemma requireSession_acts:
  assumes "server_inv s" "\<And>v. rq_session rq = Some v \<Longrightarrow> v = u"
    and "u \<noteq> [] \<Longrightarrow> acts_for u s (snd (next u s))"
  shows "acts_for u s (snd (requireSession rq next s))"
  using assms by (auto simp: requireSession_def acts_for_refl split: option.splits)

lemmas handler_acts = handleMe_acts handleReadyz_acts handleLogin_acts handleRegister_acts handleListAccounts_acts
  handleListFiles_acts handleDownloadFile_acts handleDeleteFile_acts handleUploadFile_acts handleRemoveAccount_acts
  handleConnectAccount_acts

lemma newRouter_acts:
  assumes inv: "server_inv s" and fresh: "fresh_choice R s" and actor: "\<And>v. acting_user rq s = Some v \<Longrightarrow> v = u"
  shows "acts_for u s (snd (newRouter B R rq s))"
proof (cases "callback_route rq")
  case True
  with actor have "\<And>pd. map_of (sv_pending s) (rq_Query rq ''state'') = Some pd \<Longrightarrow> pd_userID pd = u"
    by (simp add: acting_user_def)
  from handleOAuthCallback_acts [OF inv fresh this] True show ?thesis by (simp add: newRouter_def callback_route_def)
next
  case False
  then have ses: "\<And>v. rq_session rq = Some v \<Longrightarrow> v = u" using actor by (simp add: acting_user_def)
  note R = requireSession_acts [OF inv ses]
  from False show ?thesis
    unfolding newRouter_def Let_def
    by (simp add: callback_route_def inv fresh R handler_acts acts_for_refl handleHealthz_def handleLogout_def split: option.split)
qed

lemma evict_tick_inv:
  assumes "server_inv s"
  shows "server_inv (evict_tick now s)"
proof -
  have d: "distinct (map fst (sv_pools s))" "distinct (map fst (sv_pending s))" using assms by (simp_all add: server_inv_def)
  let ?s = "evictIdle idlePoolTimeout now s"
  have eq: "sv_db (evict_tick now s) = sv_db s" "sv_pools (evict_tick now s) = sv_pools ?s"
    "sv_pending (evict_tick now s) = sv_pending (sweepExpiredOAuthState now s)"
    by (simp_all add: evict_tick_def evictIdle_def sweepExpiredOAuthState_def)
  show ?thesis
    unfolding server_inv_def eq
    using pool_cache.sweep_wf [OF d(1)] oauth_flows.sweep_wf [OF d(2)] server_invD [OF assms]
    by (auto simp: pool_cache.swept_fresh [OF d(1)] oauth_flows.swept_fresh [OF d(2)])
qed

lemma server_reach_inv: "server_reach B w s \<Longrightarrow> tenant_ok (w_db w) \<Longrightarrow> server_inv s"
proof (induction rule: server_reach.induct)
  case boot
  then show ?case by (simp add: server_inv_def sv_db_def)
next
  case (serve s R rq)
  then have "acts_for (the (acting_user rq s)) s (snd (newRouter B R rq s))" by (intro newRouter_acts) auto
  then show ?case by (simp add: acts_for_def)
next
  case (tick s now)
  then show ?case by (simp add: evict_tick_inv)
qed

subsection \<open>Properties\<close>

text \<open>
  C3. Tenant isolation of the whole portal: from any database with integrity, after any sequence of
  requests and eviction ticks, a request changes no row, no cached pool and no pending OAuth flow of
  a user other than the one it acts for; and the server's memory stays in step with the database
  (every cached pool belongs to its key and holds only accounts of its user).
\<close>
theorem portal_isolation:
  assumes "tenant_ok (w_db w)" "server_reach B w s" "fresh_choice R s" "acting_user rq s \<noteq> Some v"
  shows "same_for v s (snd (newRouter B R rq s)) \<and> server_inv (snd (newRouter B R rq s))"
proof -
  have inv: "server_inv s" using assms(1,2) by (blast intro: server_reach_inv)
  obtain u where u: "u \<noteq> v" "\<And>x. acting_user rq s = Some x \<Longrightarrow> x = u"
  proof (cases "acting_user rq s")
    case None
    have "v @ ''x'' \<noteq> v" by simp
    with None show thesis by (intro that [of "v @ ''x''"]) simp_all
  next
    case (Some x)
    with assms(4) show thesis by (intro that [of x]) simp_all
  qed
  from newRouter_acts [OF inv assms(3) u(2)] u(1) show ?thesis by (simp add: acts_for_def)
qed


lemma cache_get_pending [simp]: "cache_get B now u s = (r, s') \<Longrightarrow> sv_pending s' = sv_pending s"
  by (auto simp: cache_get_def with_db_def split: option.splits prod.splits sum.splits)

text \<open>
  C13. An OAuth state works once: after a callback the state it carried is gone and the other flows
  are kept, a second callback with it is answered 400 and changes nothing, and an unknown or
  expired state is answered 400 without touching the database, the drives or the pools.
\<close>
theorem oauth_state_single_use:
  assumes "callback_route rq" "callback_route rq'" "rq_Query rq' ''state'' = rq_Query rq ''state''"
    and serve: "newRouter B R rq s = (r, s')"
  shows "sv_pending s' = AList.delete (rq_Query rq ''state'') (sv_pending s)
    \<and> newRouter B R' rq' s' = (reply 400 (PlainText ''invalid or expired authorization request''), s')
    \<and> ((\<forall>pd. map_of (sv_pending s) (rq_Query rq ''state'') = Some pd \<longrightarrow> re_now R - pd_createdAt pd > oauthStateTTL)
        \<longrightarrow> r = reply 400 (PlainText ''invalid or expired authorization request'')
          \<and> sv_world s' = sv_world s \<and> sv_pools s' = sv_pools s)"
proof -
  have cb: "newRouter B R rq = handleOAuthCallback B R rq" "newRouter B R' rq' = handleOAuthCallback B R' rq'"
    using assms(1,2) by (simp_all add: newRouter_def callback_route_def)
  have p: "sv_pending s' = AList.delete (rq_Query rq ''state'') (sv_pending s)"
    using serve [unfolded cb]
    by (auto simp: handleOAuthCallback_def Let_def set_pool_def delete_idem map_of_eq_None_iff split: option.splits if_splits prod.splits sum.splits)
  then have "map_of (sv_pending s') (rq_Query rq ''state'') = None" by (simp add: delete_conv')
  then have "newRouter B R' rq' s' = (reply 400 (PlainText ''invalid or expired authorization request''), s')"
    unfolding cb using assms(3) by (simp add: handleOAuthCallback_def)
  with p serve [unfolded cb] show ?thesis by (auto simp: handleOAuthCallback_def Let_def split: option.splits if_splits)
qed

text \<open>The routes of \<open>/api\<close> that are registered outside the authenticated group.\<close>
definition public_api :: "(string \<times> string) list" where
  "public_api = [(''GET'', ''/api/accounts/oauth/callback''), (''POST'', ''/api/auth/register''),
     (''POST'', ''/api/auth/login''), (''POST'', ''/api/auth/logout'')]"

text \<open>
  C14. Nothing of the API is reachable without a session but the four public routes: any other
  request under \<open>/api/\<close> is answered 401, or, where there is no such route, 404 or gin's redirect to
  the path without the trailing slash, with a body that depends on no state, and changes nothing.
\<close>
theorem unauthenticated_blocked:
  assumes "rq_session rq = None \<or> rq_session rq = Some []" "prefix ''/api/'' (rq_Path rq)"
    and "(rq_Method rq, rq_Path rq) \<notin> set public_api"
  shows "newRouter B R rq s \<in> {(reply 401 (JError (Msg ''not authenticated'')), s), (reply 404 NoBody, s)}
    \<union> {(reply st (Redirect loc), s) | st loc. st \<in> {301, 307} \<and> be_slash B (rq_Method rq) (rq_Path rq) = Some loc}"
proof -
  have no: "requireSession rq h s = (reply 401 (JError (Msg ''not authenticated'')), s)"
    for h :: "string \<Rightarrow> 'a server \<Rightarrow> response \<times> 'a server"
    using assms(1) by (auto simp: requireSession_def)
  have spa: "registerSPA B rq s = (reply 404 NoBody, s)" using assms(2) by (simp add: registerSPA_def)
  have r: "(rq_Method rq, rq_Path rq) \<noteq> (''GET'', ''/healthz'')" "(rq_Method rq, rq_Path rq) \<noteq> (''GET'', ''/readyz'')"
    "(rq_Method rq, rq_Path rq) \<noteq> (''GET'', ''/api/accounts/oauth/callback'')" "(rq_Method rq, rq_Path rq) \<noteq> (''POST'', ''/api/auth/register'')"
    "(rq_Method rq, rq_Path rq) \<noteq> (''POST'', ''/api/auth/login'')" "(rq_Method rq, rq_Path rq) \<noteq> (''POST'', ''/api/auth/logout'')"
    using assms(2,3) by (auto simp: public_api_def)
  let ?rest = "(case be_slash B (rq_Method rq) (rq_Path rq) of
      Some loc \<Rightarrow> (\<lambda>s. (reply (if rq_Method rq = ''GET'' then 301 else 307) (Redirect loc), s)) | None \<Rightarrow> registerSPA B rq)"
  have "newRouter B R rq s \<in> {(reply 401 (JError (Msg ''not authenticated'')), s), ?rest s}"
    unfolding newRouter_def Let_def by (simp only: r if_False) (simp add: no)
  with spa show ?thesis by (auto simp: reply_def split: option.splits if_splits)
qed

text \<open>
  C15. Upload and download over HTTP: on a reachable server, when an upload by a user whose pool is
  cached is answered 201, the following download of that name by the same user is answered 200 with
  exactly the announced bytes of the uploaded source.
\<close>
theorem portal_roundtrip:
  assumes "remote_contract (e_rs (be_penv B)) md5" "md5 = md5_sum (m_prims (e_mcfg (be_penv B)))" "flate_ok (m_prims (e_mcfg (be_penv B)))"
    and "tenant_ok (w_db w)" "server_reach B w s" "db_faults (sv_db s) = []" "map_of (sv_pools s) u = Some (p, t)"
    and rq: "rq_Method rq = ''POST''" "rq_Path rq = ''/api/files''" "rq_session rq = Some u" "rq_form rq = Some f" "uf_Open f = Inr r"
    and n: "0 \<le> uf_Size f" "uf_Size f + chunkSize p - 1 \<le> max_i64"
    and up: "newRouter B R rq s = (resp, s')" "resp_Status resp = 201"
    and "whole_iv (e_rs (be_penv B)) (w_drives (sv_world s'))"
    and rq': "rq_Method rq' = ''GET''" "rq_Path rq' = ''/api/files/download''" "rq_session rq' = Some u"
      "rq_Query rq' ''name'' = (if uf_name f = [] then uf_Filename f else uf_name f)" "rq_Query rq' ''name'' \<noteq> []"
  shows "fst (newRouter B R' rq' s') = reply 200 (Stream (take (nat (uf_Size f)) (content r)))
    \<and> uf_Size f \<le> int (length (content r)) \<and> sv_world (snd (newRouter B R' rq' s')) = sv_world s'"
proof -
  have inv: "server_inv s" using assms(4,5) by (blast intro: server_reach_inv)
  have p: "u \<noteq> []" "p_userID p = u" "ids_match p" using server_invD(1) [OF inv assms(7)] by simp_all
  let ?name = "rq_Query rq' ''name''" and ?s1 = "s\<lparr>sv_pools := AList.update u (p, re_now R) (sv_pools s)\<rparr>"
  have "newRouter B R rq s = handleUploadFile B R rq u s"
    using rq p(1) by (simp add: newRouter_def requireSession_def path_param_def)
  with up obtain w' where put: "PutStream (be_penv B) (re_put R) p r (uf_Size f) ?name (sv_world s) = (Inr (), w')"
    and s': "s' = ?s1\<lparr>sv_world := w'\<rparr>"
    using rq assms(7) unfolding rq'(4)
    by (auto simp: handleUploadFile_def s_pool_def cache_get_def reply_def fail_reply_def Let_def split: sum.splits prod.splits if_splits)
  have db: "db_ok (w_db (sv_world s))" using server_invD(2) [OF inv] by (simp add: tenant_ok_def sv_db_def)
  have g: "GetStream (be_penv B) (re_rank R') p ?name w' empty_buffer
      = (Inr (), w', empty_buffer\<lparr>wout := take (nat (uf_Size f)) (content r)\<rparr>) \<and> uf_Size f \<le> int (length (content r))"
    using get_after_put [OF assms(1) [unfolded assms(2)] assms(3) db _ _ p(3) n put, of empty_buffer "re_rank R'"]
      assms(6) p(1,2) assms(17) s' by (simp add: empty_buffer_def sv_db_def)
  have "newRouter B R' rq' s' = handleDownloadFile B R' rq' u s'"
    using rq' p(1) by (simp add: newRouter_def requireSession_def path_param_def)
  moreover have "map_of (sv_pools s') u = Some (p, re_now R)" unfolding s' by (simp add: update_conv')
  ultimately show ?thesis using g rq'(5) unfolding s'
    by (simp add: handleDownloadFile_def s_pool_def cache_get_def Let_def)
qed

text \<open>
  Eviction is exact: after a tick of the loop on a reachable server, the cached pools are those
  used within the idle timeout and the pending flows those younger than the state's lifetime, the
  database and the drives are untouched, and how often the loop ran before does not matter.
\<close>
theorem eviction_exact:
  assumes "tenant_ok (w_db w)" "server_reach B w s" "t \<le> now"
  shows "(map_of (sv_pools (evict_tick now s)) u = Some e \<longleftrightarrow> map_of (sv_pools s) u = Some e \<and> now - snd e \<le> minutes 30)
    \<and> (map_of (sv_pending (evict_tick now s)) st = Some pd \<longleftrightarrow>
        map_of (sv_pending s) st = Some pd \<and> now - pd_createdAt pd \<le> minutes 10)
    \<and> sv_world (evict_tick now s) = sv_world s
    \<and> map_of (sv_pools (evict_tick now (evict_tick t s))) u = map_of (sv_pools (evict_tick now s)) u
    \<and> map_of (sv_pending (evict_tick now (evict_tick t s))) st = map_of (sv_pending (evict_tick now s)) st"
proof -
  have "server_inv s" using assms(1,2) by (blast intro: server_reach_inv)
  then have d: "distinct (map fst (sv_pools s))" "distinct (map fst (sv_pending s))" by (simp_all add: server_inv_def)
  have eq: "sv_pools (evict_tick now s) = sv_pools (evictIdle idlePoolTimeout now s)"
    "sv_pending (evict_tick now s) = sv_pending (sweepExpiredOAuthState now s)"
    "sv_pools (evict_tick now (evict_tick t s)) = sv_pools (evictIdle idlePoolTimeout now (evictIdle idlePoolTimeout t s))"
    "sv_pending (evict_tick now (evict_tick t s)) = sv_pending (sweepExpiredOAuthState now (sweepExpiredOAuthState t s))"
    "sv_world (evict_tick now s) = sv_world s"
    by (simp_all add: evict_tick_def evictIdle_def sweepExpiredOAuthState_def)
  show ?thesis
    unfolding eq using pool_cache.sweep_absorbs [OF d(1) assms(3), of u] oauth_flows.sweep_absorbs [OF d(2) assms(3), of st]
    pool_cache.swept_fresh [OF d(1), of now u e] oauth_flows.swept_fresh [OF d(2), of now st pd]
    by (simp add: idlePoolTimeout_def oauthStateTTL_def)
qed

subsection \<open>Witnesses\<close>

definition toy_benv :: "mem_drive benv" where
  "toy_benv = \<lparr>be_penv = toy_penv, be_bcrypt = toy_bcrypt, be_cfg = \<lparr>cf_DatabaseURL = ''d'', cf_TokenEncryptionKey = replicate 32 5,
       cf_ClientSecretPath = ''s'', cf_SessionSecret = [1], cf_SessionSecure = False, cf_PublicURL = ''http://p''\<rparr>,
     be_parse = (\<lambda>b. Inr ()), be_configDir = Inr ''/c'', be_nodes = [[] \<mapsto> Dir, [''s''] \<mapsto> File []], be_authURL = (\<lambda>u st ps. u @ st),
     be_assets = (\<lambda>p. None), be_slash = (\<lambda>m p. None)\<rparr>"

definition toy_renv :: "int \<Rightarrow> renv" where
  "toy_renv now = \<lparr>re_now = now, re_salt = toy_rnd, re_id = toy_rnd, re_iv = toy_rnd, re_state = toy_rnd, re_put = toy_pe,
     re_rank = (\<lambda>i. 0), re_order = length, re_exchange = (\<lambda>u c. Inr toy_token)\<rparr>"

definition toy_request :: "string \<Rightarrow> string \<Rightarrow> string option \<Rightarrow> request" where
  "toy_request method path u = \<lparr>rq_Method = method, rq_Path = path, rq_Query = (\<lambda>k. if k = ''name'' then ''new'' else []),
     rq_session = u, rq_credentials = None,
     rq_form = Some \<lparr>uf_Filename = ''new'', uf_Size = 3, uf_Open = Inr (bytes_reader [1, 2, 3]), uf_name = []\<rparr>\<rparr>"

definition toy_boot :: "mem_drive server" where
  "toy_boot = \<lparr>sv_world = toy_world, sv_pools = [], sv_pending = []\<rparr>"

lemma toy_boot_reach: "server_reach toy_benv toy_world toy_boot"
  unfolding toy_boot_def by (rule server_reach.boot)

lemma toy_boot_fresh: "fresh_choice (toy_renv t) toy_boot"
  by (simp add: fresh_choice_def toy_boot_def)

text \<open>The server once the user's pool is open.\<close>
definition toy_served :: "mem_drive server" where
  "toy_served = toy_boot\<lparr>sv_pools := [(''u'', toy_pool\<lparr>p_ChunkSize := 0\<rparr>, 7)]\<rparr>"

lemma toy_cache_get: "cache_get toy_benv 7 ''u'' toy_boot = (Inr (toy_pool\<lparr>p_ChunkSize := 0\<rparr>), toy_served)"
  using toy_open by (simp add: cache_get_def toy_boot_def toy_served_def OpenWithUser_def toy_benv_def LoadClientConfig_def
      os_ReadFile_def os_Stat_def path_of_def push_comp_def with_db_def sv_db_def)

lemma toy_connect_route:
  "newRouter toy_benv R (toy_request ''GET'' ''/api/accounts/connect'' (Some ''u'')) = handleConnectAccount toy_benv R
     (toy_request ''GET'' ''/api/accounts/connect'' (Some ''u'')) ''u''"
  by (rule ext) (simp add: newRouter_def toy_request_def requireSession_def)

lemma toy_served_reach: "server_reach toy_benv toy_world toy_served"
proof -
  let ?rq = "toy_request ''GET'' ''/api/accounts/connect'' (Some ''u'')"
  have "snd (newRouter toy_benv (toy_renv 7) ?rq toy_boot) = toy_served"
    unfolding toy_connect_route handleConnectAccount_def s_pool_def
    using toy_cache_get by (simp add: toy_renv_def toy_request_def)
  with server_reach.serve [OF toy_boot_reach toy_boot_fresh, of 7 ?rq] show ?thesis by simp
qed

lemma toy_tenant_ok2: "tenant_ok (w_db toy_world)"
  using toy_db2_ok by simp

theorem portal_isolation_witness:
  "same_for ''u'' toy_served (snd (newRouter toy_benv (toy_renv 9) (toy_request ''DELETE'' ''/api/files'' (Some ''w'')) toy_served))
    \<and> map_of (sv_pools toy_served) ''u'' \<noteq> None"
proof -
  have "GenerateID toy_rnd \<noteq> ''A''" by (simp add: GenerateID_other)
  then have "fresh_choice (toy_renv 9) toy_served"
    by (simp add: fresh_choice_def toy_served_def toy_boot_def toy_renv_def toy_pool_def)
  moreover have "acting_user (toy_request ''DELETE'' ''/api/files'' (Some ''w'')) toy_served \<noteq> Some ''u''"
    by (simp add: acting_user_def callback_route_def toy_request_def)
  ultimately show ?thesis
    using portal_isolation [OF toy_tenant_ok2 toy_served_reach] by (simp add: toy_served_def)
qed


theorem oauth_state_single_use_witness:
  "\<exists>r s'. newRouter toy_benv (toy_renv 9) (toy_request ''GET'' ''/api/accounts/oauth/callback'' None)
        (toy_served\<lparr>sv_pending := [([], \<lparr>pd_userID = ''u'', pd_label = ''home'', pd_createdAt = 8\<rparr>)]\<rparr>) = (r, s')
     \<and> sv_pending s' = [] \<and> resp_Status (fst (newRouter toy_benv (toy_renv 9)
        (toy_request ''GET'' ''/api/accounts/oauth/callback'' None) s')) = 400"
proof -
  let ?rq = "toy_request ''GET'' ''/api/accounts/oauth/callback'' None"
  let ?s = "toy_served\<lparr>sv_pending := [([], \<lparr>pd_userID = ''u'', pd_label = ''home'', pd_createdAt = 8\<rparr>)]\<rparr>"
  obtain r s' where s': "newRouter toy_benv (toy_renv 9) ?rq ?s = (r, s')" by (metis surj_pair)
  have cb: "callback_route ?rq" "rq_Query ?rq ''state'' = []" by (simp_all add: callback_route_def toy_request_def)
  from oauth_state_single_use [OF cb(1,1) refl s', of "toy_renv 9"] s' cb(2) show ?thesis
    by (intro exI [of _ r] exI [of _ s']) (simp add: reply_def)
qed

theorem unauthenticated_blocked_witness:
  "resp_Status (fst (newRouter toy_benv (toy_renv 9) (toy_request ''POST'' ''/api/files'' None) toy_served)) \<in> {401, 404}
    \<and> snd (newRouter toy_benv (toy_renv 9) (toy_request ''POST'' ''/api/files'' None) toy_served) = toy_served"
  using unauthenticated_blocked [of "toy_request ''POST'' ''/api/files'' None" toy_benv "toy_renv 9" toy_served]
  by (auto simp: toy_request_def public_api_def reply_def toy_benv_def)

lemma toy_portal_upload:
  "\<exists>r s'. newRouter toy_benv (toy_renv 8) (toy_request ''POST'' ''/api/files'' (Some ''u'')) toy_served = (r, s') \<and> resp_Status r = 201"
proof -
  obtain w' where "PutStream toy_penv toy_pe (toy_pool\<lparr>p_ChunkSize := 0\<rparr>) (bytes_reader [1, 2, 3]) 3 ''new'' toy_world = (Inr (), w')"
    using toy_default_put by blast
  then show ?thesis
    by (simp add: newRouter_def toy_request_def requireSession_def path_param_def handleUploadFile_def s_pool_def
        cache_get_def toy_served_def toy_boot_def toy_benv_def toy_renv_def reply_def)
qed

theorem portal_roundtrip_witness:
  "\<exists>r s'. newRouter toy_benv (toy_renv 8) (toy_request ''POST'' ''/api/files'' (Some ''u'')) toy_served = (r, s')
     \<and> fst (newRouter toy_benv (toy_renv 9) (toy_request ''GET'' ''/api/files/download'' (Some ''u'')) s')
         = reply 200 (Stream [1, 2, 3])"
proof -
  let ?f = "\<lparr>uf_Filename = ''new'', uf_Size = 3, uf_Open = Inr (bytes_reader [1, 2, 3]), uf_name = []\<rparr>"
  obtain r s' where up: "newRouter toy_benv (toy_renv 8) (toy_request ''POST'' ''/api/files'' (Some ''u'')) toy_served = (r, s')"
    "resp_Status r = 201" using toy_portal_upload by blast
  have e: "be_penv toy_benv = toy_penv" by (simp add: toy_benv_def)
  have p: "db_faults (sv_db toy_served) = []" "map_of (sv_pools toy_served) ''u'' = Some (toy_pool\<lparr>p_ChunkSize := 0\<rparr>, 7)"
    "3 + chunkSize (toy_pool\<lparr>p_ChunkSize := 0\<rparr>) - 1 \<le> max_i64"
    by (simp_all add: toy_served_def toy_boot_def sv_db_def chunkSize_def DefaultChunkSize_def max_i64_def)
  have "fst (newRouter toy_benv (toy_renv 9) (toy_request ''GET'' ''/api/files/download'' (Some ''u'')) s')
      = reply 200 (Stream (take (nat (uf_Size ?f)) (content (bytes_reader [1, 2, 3]))))"
    using portal_roundtrip [OF precise_remote.axioms(1) [OF toy_contract, folded e] refl toy_flate [folded e] toy_tenant_ok2
        toy_served_reach p(1,2) _ _ _ _ _ _ _ up, of ?f "bytes_reader [1, 2, 3]"
        "toy_request ''GET'' ''/api/files/download'' (Some ''u'')" "toy_renv 9"] toy_whole_iv p(3)
    by (simp add: toy_request_def e)
  with up(1) show ?thesis by (auto simp: toy_facts)
qed

theorem eviction_exact_witness:
  "map_of (sv_pools toy_served) ''u'' \<noteq> None \<and> map_of (sv_pools (evict_tick (minutes 31) toy_served)) ''u'' = None
    \<and> map_of (sv_pools (evict_tick (minutes 29) toy_served)) ''u'' \<noteq> None"
proof -
  have e: "map_of (sv_pools (evict_tick t toy_served)) ''u'' = Some e \<longleftrightarrow>
      map_of (sv_pools toy_served) ''u'' = Some e \<and> t - snd e \<le> minutes 30" for t e
    using eviction_exact [OF toy_tenant_ok2 toy_served_reach order_refl, of t "''u''" e] by blast
  have "map_of (sv_pools toy_served) ''u'' = Some (toy_pool\<lparr>p_ChunkSize := 0\<rparr>, 7)" by (simp add: toy_served_def)
  with e [of "minutes 31"] e [of "minutes 29" "(toy_pool\<lparr>p_ChunkSize := 0\<rparr>, 7)"] show ?thesis
    by (cases "map_of (sv_pools (evict_tick (minutes 31) toy_served)) ''u''") (auto simp: minutes_def)
qed

end
