(* ===== verification/Serve.thy ===== *)
theory Serve
  imports CLI Backend_Isolation
begin

text \<open>
  The life of the portal: \<open>New\<close>, \<open>Router\<close> and \<open>Close\<close> of \<open>backend/server.go\<close> and the command \<open>rhino serve\<close>
  of \<open>cmd/rhino/serve.go\<close>. While the HTTP server runs, requests and ticks of the eviction loop arrive in
  any order; what ends it (a signal, or the listener) and the errors of shutting down are chosen by
  the environment.
\<close>

subsection \<open>backend/server.go\<close>

datatype serve_err =
    SrvConfig cfg_err | SrvMigrate string | SrvOpen string | SrvListen string | SrvShutdown string | SrvClose string

record 'd portal =
  pt_server :: "'d server"
  pt_gdb :: gorm_conn
  pt_evicting :: bool  \<comment> \<open>\<open>evictLoop\<close> is running\<close>
  pt_open :: bool  \<comment> \<open>the connection pool is open\<close>

definition server_New :: "dbms \<Rightarrow> environ \<Rightarrow> config \<Rightarrow> 'd world \<Rightarrow> (serve_err, 'd portal) result" where
  "server_New D env cfg w = (case Migrate D (cf_DatabaseURL cfg) of
     Some e \<Rightarrow> Inl (SrvMigrate e)
   | None \<Rightarrow> (case db_Open D env (cf_DatabaseURL cfg) of
       Inl e \<Rightarrow> Inl (SrvOpen e)
     | Inr gdb \<Rightarrow> Inr \<lparr>pt_server = \<lparr>sv_world = w, sv_pools = [], sv_pending = []\<rparr>, pt_gdb = gdb, pt_evicting = True, pt_open = True\<rparr>))"

text \<open>\<open>sqlDB\<close> is the error of \<open>gdb.DB()\<close>, \<open>cl\<close> that of closing the connections.\<close>
definition server_Close :: "string option \<Rightarrow> string option \<Rightarrow> 'd portal \<Rightarrow> serve_err option \<times> 'd portal" where
  "server_Close sqlDB cl P =
     (let P1 = P\<lparr>pt_evicting := False, pt_server := closeAll (pt_server P)\<rparr> in
      case sqlDB of Some e \<Rightarrow> (Some (SrvClose e), P1)
      | None \<Rightarrow> (map_option SrvClose cl, P1\<lparr>pt_open := False\<rparr>))"

subsection \<open>cmd/rhino/serve.go\<close>

datatype serve_event = Request renv request | Tick int

definition portal_event :: "'d benv \<Rightarrow> serve_event \<Rightarrow> 'd portal \<Rightarrow> 'd portal" where
  "portal_event B ev P = (case ev of
     Request R rq \<Rightarrow> P\<lparr>pt_server := snd (newRouter B R rq (pt_server P))\<rparr>
   | Tick now \<Rightarrow> if pt_evicting P then P\<lparr>pt_server := evict_tick now (pt_server P)\<rparr> else P)"

text \<open>What \<open>select\<close> sees first: the signal, or the end of \<open>ListenAndServe\<close> (\<open>None\<close> for \<open>ErrServerClosed\<close>).\<close>
datatype serve_end = Interrupted | ServeReturned "string option"

record 'd serve_env =
  se_environ :: environ
  se_nodes :: nodes
  se_configDir :: "(string, string) result"
  se_rnd :: entropy
  se_dbms :: dbms
  se_addrFlag :: "string option"
  se_certFlag :: "string option"
  se_keyFlag :: "string option"
  se_benv :: "config \<Rightarrow> 'd benv"  \<comment> \<open>what lies outside the repository, for a configuration\<close>
  se_listen :: "string \<Rightarrow> (string \<times> string) option \<Rightarrow> serve_end"  \<comment> \<open>address, certificate and key\<close>
  se_shutdown :: "string option"
  se_sqlDB :: "string option"
  se_close :: "string option"

definition serve_flag :: "environ \<Rightarrow> string option \<Rightarrow> string \<Rightarrow> string \<Rightarrow> string" where
  "serve_flag env flag key fallback = (case flag of Some v \<Rightarrow> v | None \<Rightarrow> envOr env key fallback)"

definition serve_benv :: "'d serve_env \<Rightarrow> config \<Rightarrow> 'd benv" where
  "serve_benv S cfg = (se_benv S cfg)\<lparr>be_cfg := cfg\<rparr>"

text \<open>The portal is part of the result as soon as there is one.\<close>
definition newServeCmd :: "'d serve_env \<Rightarrow> serve_event list \<Rightarrow> 'd world \<Rightarrow> serve_err option \<times> 'd portal option" where
  "newServeCmd S events w =
     (let env = se_environ S; addr = serve_flag env (se_addrFlag S) ''RHINO_ADDR'' '':8080'';
          certFile = serve_flag env (se_certFlag S) ''RHINO_TLS_CERT'' [];
          keyFile = serve_flag env (se_keyFlag S) ''RHINO_TLS_KEY'' [] in
      case ConfigFromEnv env (se_nodes S) (se_configDir S) (se_rnd S) of
        Inl e \<Rightarrow> (Some (SrvConfig e), None)
      | Inr cfg \<Rightarrow> (case server_New (se_dbms S) env cfg w of
          Inl e \<Rightarrow> (Some e, None)
        | Inr P \<Rightarrow>
           (let P1 = fold (portal_event (serve_benv S cfg)) events P;
                close = (case se_shutdown S of
                    Some e \<Rightarrow> (Some (SrvShutdown e), Some P1)
                  | None \<Rightarrow> (case server_Close (se_sqlDB S) (se_close S) P1 of (e, P2) \<Rightarrow> (e, Some P2))) in
            case se_listen S addr (if certFile \<noteq> [] then Some (certFile, keyFile) else None) of
              Interrupted \<Rightarrow> close
            | ServeReturned None \<Rightarrow> close
            | ServeReturned (Some e) \<Rightarrow> (Some (SrvListen e), Some P1))))"

subsection \<open>The life of a portal\<close>

fun fresh_run :: "'d benv \<Rightarrow> serve_event list \<Rightarrow> 'd portal \<Rightarrow> bool" where
  "fresh_run B [] P \<longleftrightarrow> True"
| "fresh_run B (ev # evs) P \<longleftrightarrow>
     (case ev of Request R rq \<Rightarrow> fresh_choice R (pt_server P) | Tick now \<Rightarrow> True) \<and> fresh_run B evs (portal_event B ev P)"

lemma portal_run_reach:
  "server_reach B w (pt_server P) \<Longrightarrow> fresh_run B evs P \<Longrightarrow>
    server_reach B w (pt_server (fold (portal_event B) evs P)) \<and> pt_open (fold (portal_event B) evs P) = pt_open P
      \<and> pt_evicting (fold (portal_event B) evs P) = pt_evicting P"
proof (induction evs arbitrary: P)
  case (Cons ev evs)
  have "server_reach B w (pt_server (portal_event B ev P))"
    using Cons.prems by (cases ev) (auto simp: portal_event_def intro: server_reach.intros)
  moreover have "pt_open (portal_event B ev P) = pt_open P" "pt_evicting (portal_event B ev P) = pt_evicting P"
    by (simp_all add: portal_event_def split: serve_event.splits)
  ultimately show ?case using Cons.IH [of "portal_event B ev P"] Cons.prems(2) by simp
qed simp

lemma server_New_boot:
  "server_New D env cfg w = Inr P \<Longrightarrow> pt_server P = \<lparr>sv_world = w, sv_pools = [], sv_pending = []\<rparr> \<and> pt_open P \<and> pt_evicting P
    \<and> cf_DatabaseURL cfg \<noteq> []"
  by (auto simp: server_New_def db_Open_def split: option.splits sum.splits if_splits)


text \<open>Opening a pool anew after a put into it, when the put was into a pool just opened.\<close>
lemma cache_get_again:
  assumes "cache_get B now u s = (Inr p, s1)" "map_of (sv_pools s) u = None" "db_faults (sv_db s) = []"
    and "db_faults (w_db w2) = []" "db_accounts (w_db w2) = db_accounts (sv_db s)"
  shows "sv_world s1 = sv_world s \<and> Open (be_penv B) u (sv_db s) = (Inr p, sv_db s)
    \<and> cache_get B now2 u \<lparr>sv_world = w2, sv_pools = [], sv_pending = []\<rparr> =
        (Inr p, \<lparr>sv_world = w2, sv_pools = [(u, p, now2)], sv_pending = []\<rparr>)"
proof -
  let ?path = "if cf_ClientSecretPath (be_cfg B) = [] then DefaultClientSecretPath (be_configDir B) else Inr (cf_ClientSecretPath (be_cfg B))"
  from assms(1,2) obtain d where o: "OpenWithUser (be_parse B) (\<lambda>_. be_penv B) (be_configDir B) (be_nodes B) u
      (cf_ClientSecretPath (be_cfg B)) (sv_db s) = (Inr p, d)" and s1: "sv_world s1 = (sv_world s)\<lparr>w_db := d\<rparr>"
    by (auto simp: cache_get_def with_db_def split: sum.splits prod.splits)
  then obtain path cfg where l: "?path = Inr path" "LoadClientConfig (be_parse B) (be_nodes B) path = Inr cfg"
      and op: "Open (be_penv B) u (sv_db s) = (Inr p, d)"
    unfolding OpenWithUser_def by (auto split: sum.splits prod.splits)
  have d: "d = sv_db s" and again: "Open (be_penv B) u (w_db w2) = (Inr p, w_db w2)"
    using Open_again [OF op assms(3,4,5)] by simp_all
  with l have "OpenWithUser (be_parse B) (\<lambda>_. be_penv B) (be_configDir B) (be_nodes B) u (cf_ClientSecretPath (be_cfg B)) (w_db w2)
      = (Inr p, w_db w2)" by (simp add: OpenWithUser_def)
  with d s1 op show ?thesis by (simp add: cache_get_def with_db_def sv_db_def)
qed


subsection \<open>Witnesses\<close>

definition toy_serve :: "mem_drive serve_env" where
  "toy_serve = \<lparr>se_environ = toy_environ, se_nodes = be_nodes toy_benv, se_configDir = Inr ''/c'', se_rnd = toy_rnd, se_dbms = toy_dbms,
     se_addrFlag = None, se_certFlag = None, se_keyFlag = None, se_benv = (\<lambda>cfg. toy_benv), se_listen = (\<lambda>a c. Interrupted),
     se_shutdown = None, se_sqlDB = None, se_close = None\<rparr>"

lemma toy_New: "cf_DatabaseURL cfg \<noteq> [] \<Longrightarrow> \<exists>P. server_New toy_dbms env cfg w = Inr P"
  by (simp add: server_New_def db_Open_def Migrate_def toy_dbms_def)

lemma toy_config: "\<exists>cfg. ConfigFromEnv toy_environ F (Inr ''/c'') toy_rnd = Inr cfg \<and> cf_DatabaseURL cfg \<noteq> []"
  using toy_key [of F]
  by (simp add: ConfigFromEnv_def DatabaseURLFromEnv_def stringFromEnvOrFile_def toy_environ_def DefaultClientSecretPath_def)


lemma toy_boot_upload:
  "\<exists>r s'. newRouter toy_benv (toy_renv 7) (toy_request ''POST'' ''/api/files'' (Some ''u'')) toy_boot = (r, s') \<and> resp_Status r = 201"
proof -
  obtain w' where "PutStream toy_penv toy_pe (toy_pool\<lparr>p_ChunkSize := 0\<rparr>) (bytes_reader [1, 2, 3]) 3 ''new'' toy_world = (Inr (), w')"
    using toy_default_put by blast
  moreover have "be_penv toy_benv = toy_penv" "re_put (toy_renv 7) = toy_pe" "re_now (toy_renv 7) = 7" "sv_world toy_served = toy_world"
    by (simp_all add: toy_benv_def toy_renv_def toy_served_def toy_boot_def)
  ultimately show ?thesis
    by (simp add: newRouter_def toy_request_def requireSession_def path_param_def handleUploadFile_def s_pool_def toy_cache_get reply_def)
qed


end
