(* ===== verification/Portal_Cache.thy ===== *)
theory Portal_Cache
  imports Serve "HOL-Library.Countable"
begin

text \<open>
  The cache of pools of \<open>backend/poolcache.go\<close> against its reference: opening the pool anew on every
  request. Inside one portal the two agree, whatever the order of requests and ticks, because every
  operation that changes the accounts of a user changes the cached pool in the same way. They do not
  agree once another process, the command line, changes the accounts behind the portal's back.
\<close>

subsection \<open>Statements that leave the accounts alone\<close>

text \<open>On a database whose statements do not fail: the accounts are kept, and nothing fails afterwards.\<close>
definition quiet :: "db \<Rightarrow> db \<Rightarrow> bool" where
  "quiet d d' \<longleftrightarrow> (db_faults d = [] \<longrightarrow> db_accounts d' = db_accounts d \<and> db_faults d' = [])"

lemma quiet_refl [simp, intro]: "quiet d d"
  by (simp add: quiet_def)

lemma quiet_trans: "quiet d d1 \<Longrightarrow> quiet d1 d2 \<Longrightarrow> quiet d d2"
  by (simp add: quiet_def)

lemma quiet_reads:
  "m_GetAccount m u label d = (r1, d') \<Longrightarrow> quiet d d'" "m_ListAccounts m u d = (r2, d') \<Longrightarrow> quiet d d'"
  "m_CountActiveChunks u i d = (r3, d') \<Longrightarrow> quiet d d'" "m_GetVirtualFile u name d = (r4, d') \<Longrightarrow> quiet d d'"
  "m_ListVirtualFiles m u pre d = (r5, d') \<Longrightarrow> quiet d d'" "m_ListChunks u j d = (r6, d') \<Longrightarrow> quiet d d'"
  "auth_first Q d = (r7, d') \<Longrightarrow> quiet d d'" "auth_Ping d = (r8, d') \<Longrightarrow> quiet d d'"
  unfolding quiet_def m_GetAccount_def m_ListAccounts_def m_CountActiveChunks_def m_GetVirtualFile_def
    m_ListVirtualFiles_def m_ListChunks_def auth_first_def auth_Ping_def scoped_def
  by (auto split: if_splits sum.splits prod.splits option.splits)

lemma quiet_writes:
  "m_CreateVirtualFile now u vf d = (r1, d') \<Longrightarrow> quiet d d'" "m_SetVirtualFileStatus now u i st d = (r2, d') \<Longrightarrow> quiet d d'"
  "m_DeleteVirtualFile now u name purge d = (r3, d') \<Longrightarrow> quiet d d'" "m_AddChunk now u c d = (r4, d') \<Longrightarrow> quiet d d'"
  "CreateUser bc salt idr now name pw d = (r5, d') \<Longrightarrow> quiet d d'"
  unfolding quiet_def m_CreateVirtualFile_def m_SetVirtualFileStatus_def m_DeleteVirtualFile_def m_AddChunk_def
    CreateUser_def scoped_def sql_insert_vfile_def sql_update_vfiles_def sql_delete_vfiles_def sql_insert_chunk_def
    sql_insert_user_def Let_def
  by (auto split: if_splits sum.splits prod.splits option.splits)

lemmas quiet_manifest = quiet_reads quiet_writes

lemma record_chunks_quiet: "record_chunks now u i ucs d = (r, d') \<Longrightarrow> quiet d d'"
proof (induction ucs arbitrary: d)
  case (Cons uc ucs)
  then show ?case by (auto split: sum.splits prod.splits dest!: quiet_writes(4) intro: quiet_trans)
qed simp

lemma list_infos_quiet: "list_infos p fs d = (r, d') \<Longrightarrow> quiet d d'"
proof (induction fs arbitrary: d r)
  case (Cons f fs)
  then show ?case
    by (fastforce simp: Let_def split: sum.splits prod.splits dest!: quiet_reads(6) intro: quiet_trans)
qed simp

lemma PutStream_quiet: "PutStream E pe p r n name w = (res, w') \<Longrightarrow> quiet (w_db w) (w_db w')"
  unfolding PutStream_def finish_put_def Let_def
  by (auto split: if_splits sum.splits prod.splits option.splits dest!: quiet_manifest record_chunks_quiet intro: quiet_trans)

lemma GetStream_quiet: "GetStream E rank p name w out = (res, w', out') \<Longrightarrow> quiet (w_db w) (w_db w')"
  unfolding GetStream_def Let_def
  by (auto split: if_splits sum.splits prod.splits option.splits dest!: quiet_reads intro: quiet_trans)

lemma Remove_quiet: "Remove E now rank p name purge w = (res, w') \<Longrightarrow> quiet (w_db w) (w_db w')"
  unfolding Remove_def Let_def
  by (auto split: if_splits sum.splits prod.splits option.splits dest!: quiet_manifest intro: quiet_trans)

lemma listing_quiet:
  "ListWithAccounts E p pre d = (res, d') \<Longrightarrow> quiet d d'" "ListAccountStatus E p w = (st, w') \<Longrightarrow> quiet (w_db w) (w_db w')"
  unfolding ListWithAccounts_def ListAccountStatus_def
  by (auto split: sum.splits prod.splits dest!: quiet_reads list_infos_quiet intro: quiet_trans)


subsection \<open>Pools that stand for the same map of accounts\<close>

text \<open>The accounts of a pool are a Go map: two lists of entries are the same if they look up the same.\<close>
definition pool_eq :: "pool \<Rightarrow> pool \<Rightarrow> bool" where
  "pool_eq p q \<longleftrightarrow> p_userID p = p_userID q \<and> map_of (p_accounts p) = map_of (p_accounts q)
     \<and> distinct (map fst (p_accounts p)) \<and> distinct (map fst (p_accounts q))
     \<and> p_ChunkSize p = p_ChunkSize q \<and> p_MaxParallelUploads p = p_MaxParallelUploads q"

lemma pool_eqD:
  "pool_eq p q \<Longrightarrow> p_userID p = p_userID q" "pool_eq p q \<Longrightarrow> map_of (p_accounts p) = map_of (p_accounts q)"
  "pool_eq p q \<Longrightarrow> chunkSize p = chunkSize q"
  by (simp_all add: pool_eq_def chunkSize_def)

lemma sort_key_same_set:
  assumes "set xs = set ys" "distinct xs" "distinct ys" "inj_on f (set xs)"
  shows "sort_key f xs = sort_key f ys"
  using assms by (intro sort_key_inj_key_eq) (simp_all add: set_eq_iff_mset_eq_distinct)

lemma candidates_eq:
  assumes "pool_eq p q" "inj rank"
  shows "candidates p rank = candidates q rank"
proof -
  have "set (map fst (p_accounts p)) = set (map fst (p_accounts q))"
    using arg_cong [where f = dom, OF pool_eqD(2) [OF assms(1)]] by (simp add: dom_map_of_conv_image_fst)
  then have "map_iter rank (map fst (p_accounts p)) = map_iter rank (map fst (p_accounts q))"
    unfolding map_iter_def using assms by (intro sort_key_same_set) (auto simp: pool_eq_def intro: inj_on_subset)
  with pool_eqD(2) [OF assms(1)] show ?thesis by (simp add: candidates_def)
qed

lemma plan_loop_eq:
  assumes "pool_eq p q"
  shows "plan_loop p ranks cs k idx n r pl = plan_loop q ranks cs k idx n r pl"
proof -
  have "place_chunk p = place_chunk q" unfolding place_chunk_def [abs_def] pool_eqD(2) [OF assms] ..
  then show ?thesis by (induction k arbitrary: idx n r pl) (simp_all only: plan_loop.simps)
qed

lemma finish_put_eq:
  assumes "pool_eq p q"
  shows "finish_put E p now vf err s d = finish_put E q now vf err s d"
proof -
  have "cleanupChunks E p cs ds = cleanupChunks E q cs ds" for cs ds
    by (induction cs arbitrary: ds) (simp_all add: pool_eqD(2) [OF assms] split: prod.split sum.split option.split)
  then show ?thesis by (simp only: finish_put_def pool_eqD(1) [OF assms])
qed

lemma PutStream_eq:
  "pool_eq p q \<Longrightarrow> inj (pe_order pe) \<Longrightarrow> PutStream E pe p r n name w = PutStream E pe q r n name w"
  unfolding PutStream_def by (simp only: candidates_eq [of p q] plan_loop_eq [of p q] finish_put_eq [of p q] pool_eqD(3) [of p q])

lemma GetStream_eq: "pool_eq p q \<Longrightarrow> GetStream E rank p name w out = GetStream E rank q name w out"
proof -
  assume pq: "pool_eq p q"
  have "downloadChunk E p = downloadChunk E q" unfolding downloadChunk_def [abs_def] pool_eqD(2) [OF pq] ..
  then show ?thesis by (simp only: GetStream_def pool_eqD(1) [OF pq])
qed

lemma listing_eq:
  assumes "pool_eq p q"
  shows "ListWithAccounts E p pre d = ListWithAccounts E q pre d" "ListAccountStatus E p w = ListAccountStatus E q w"
proof -
  have "chunk_labels p cs seen = chunk_labels q cs seen" for cs seen
    by (induction cs arbitrary: seen) (simp_all only: chunk_labels.simps pool_eqD(2) [OF assms])
  then have "list_infos p fs d = list_infos q fs d" for fs d
    by (induction fs arbitrary: d) (simp_all add: pool_eqD(1) [OF assms] split: prod.split sum.split)
  then show "ListWithAccounts E p pre d = ListWithAccounts E q pre d"
    by (simp only: ListWithAccounts_def pool_eqD(1) [OF assms])
  have "account_status_of E ds p = account_status_of E ds q" for ds
    unfolding account_status_of_def [abs_def] pool_eqD(2) [OF assms] ..
  then show "ListAccountStatus E p w = ListAccountStatus E q w"
    by (simp only: ListAccountStatus_def pool_eqD(1) [OF assms])
qed

lemma Remove_eq:
  assumes "pool_eq p q"
  shows "Remove E now rank p name purge w = Remove E now rank q name purge w"
proof -
  have "purge_chunks E p cs fs ds = purge_chunks E q cs fs ds" for cs fs ds
    by (induction cs arbitrary: fs ds) (simp_all only: purge_chunks.simps pool_eqD(2) [OF assms])
  moreover have "purge_folders E p fs is ds = purge_folders E q fs is ds" for fs "is" ds
    by (induction "is" arbitrary: ds) (simp_all only: purge_folders.simps pool_eqD(2) [OF assms])
  ultimately show ?thesis by (simp only: Remove_def pool_eqD(1) [OF assms])
qed

lemma RemoveAccount_eq:
  assumes "pool_eq p q" "RemoveAccount E label force p d = (r, p', d')"
  shows "\<exists>q'. RemoveAccount E label force q d = (r, q', d')"
  using assms(2) unfolding RemoveAccount_def Let_def pool_eqD(1) [OF assms(1)]
  by (auto split: sum.splits prod.splits if_splits)

lemma finishAddAccount_eq:
  assumes "pool_eq p q" "finishAddAccount E idr ivr now label tok p w = (r, p', w')"
  shows "\<exists>q'. finishAddAccount E idr ivr now label tok q w = (r, q', w')"
  using assms(2) unfolding finishAddAccount_def Let_def pool_eqD(1) [OF assms(1)]
  by (auto split: sum.splits prod.splits if_splits)

lemma CompleteConsent_eq:
  assumes "pool_eq p q" "CompleteConsent E ex idr ivr now url code label p w = (r, p', w')"
  shows "\<exists>q'. CompleteConsent E ex idr ivr now url code label q w = (r, q', w')"
  using assms(2) finishAddAccount_eq [OF assms(1)]
  unfolding CompleteConsent_def checkLabelAvailable_def Let_def pool_eqD(1) [OF assms(1)]
  by (auto split: sum.splits prod.splits if_splits)


subsection \<open>The reference: opening the pool anew\<close>

text \<open>The accounts of a user as \<open>Open\<close> builds them from the rows of the database.\<close>
definition accounts_of :: "'d penv \<Rightarrow> string \<Rightarrow> db \<Rightarrow> string \<Rightarrow> account option" where
  "accounts_of E u d i = map_option (\<lambda>a. buildAccount E (with_token (e_mcfg E) a))
     (find (\<lambda>a. a_UserID a = u \<and> a_ID a = i) (db_accounts d))"

definition pool_current :: "'d penv \<Rightarrow> pool \<Rightarrow> db \<Rightarrow> bool" where
  "pool_current E p d \<longleftrightarrow> map_of (p_accounts p) = accounts_of E (p_userID p) d \<and> distinct (map fst (p_accounts p))
     \<and> p_ChunkSize p = 0 \<and> p_MaxParallelUploads p = 0"

lemma accounts_of_in:
  assumes "db_ok d" "a \<in> set (db_accounts d)"
  shows "accounts_of E u d (a_ID a) = (if a_UserID a = u then Some (buildAccount E (with_token (e_mcfg E) a)) else None)"
proof -
  let ?f = "find (\<lambda>b. a_UserID b = u \<and> a_ID b = a_ID a) (db_accounts d)"
  have only: "b = a" if "?f = Some b" for b
    using find_Some_iff_in [OF that] uniq_on_inj [OF db_okD(3) [OF assms(1)] _ assms(2), of b] by simp
  have "?f = (if a_UserID a = u then Some a else None)"
  proof (cases ?f)
    case None
    with assms(2) show ?thesis by (auto simp: find_None_iff)
  next
    case (Some b)
    with only [OF Some] find_Some_iff_in [OF Some] show ?thesis by simp
  qed
  then show ?thesis by (simp add: accounts_of_def)
qed

lemma accounts_of_out: "i \<notin> a_ID ` {a \<in> set (db_accounts d). a_UserID a = u} \<Longrightarrow> accounts_of E u d i = None"
  by (auto simp: accounts_of_def find_None_iff)

lemma build_accounts_distinct: "distinct (map fst m) \<Longrightarrow> distinct (map fst (build_accounts E rows m))"
  by (induction rows arbitrary: m) (simp_all add: distinct_update)

text \<open>On a database whose statements do not fail, \<open>Open\<close> succeeds and its pool is current.\<close>
lemma Open_current:
  assumes "db_ok d" "db_faults d = []" "u \<noteq> []"
  obtains q where "Open E u d = (Inr q, d)" "pool_current E q d" "p_userID q = u"
proof -
  let ?rows = "map (with_token (e_mcfg E)) (sort_key (m_collate (e_mcfg E) \<circ> a_Label) (filter (\<lambda>a. a_UserID a = u) (db_accounts d)))"
  let ?q = "\<lparr>p_userID = u, p_accounts = build_accounts E ?rows [], p_ChunkSize = 0, p_MaxParallelUploads = 0\<rparr>"
  have open_eq: "Open E u d = (Inr ?q, d)" using assms(2,3) by (simp add: Open_def m_ListAccounts_eq)
  have "map_of (build_accounts E ?rows []) i = accounts_of E u d i" for i
  proof (cases "i \<in> a_ID ` {a \<in> set (db_accounts d). a_UserID a = u}")
    case True
    then obtain a where a: "a \<in> set (db_accounts d)" "a_UserID a = u" "a_ID a = i" by auto
    have "find (\<lambda>r. a_ID r = i) (rev ?rows) \<noteq> None" unfolding find_rev_None using a by auto
    then obtain r where r: "find (\<lambda>r. a_ID r = i) (rev ?rows) = Some r" by blast
    then obtain b where b: "b \<in> set (db_accounts d)" "r = with_token (e_mcfg E) b" "a_ID b = i"
      by (fastforce dest: find_Some_iff_in)
    with a uniq_on_inj [OF db_okD(3) [OF assms(1)], of b a] have "b = a" by simp
    with r b accounts_of_in [OF assms(1) a(1), of E u] a show ?thesis by (simp add: build_accounts_lookup)
  next
    case False
    then have "find (\<lambda>r. a_ID r = i) (rev ?rows) = None" unfolding find_rev_None by auto
    with accounts_of_out [OF False, of E] show ?thesis by (simp add: build_accounts_lookup)
  qed
  then have "pool_current E ?q d" by (auto simp: pool_current_def build_accounts_distinct)
  with open_eq show thesis by (rule that) simp
qed

lemma pool_current_eq: "pool_current E p d \<Longrightarrow> pool_current E q d \<Longrightarrow> p_userID p = p_userID q \<Longrightarrow> pool_eq p q"
  by (simp add: pool_current_def pool_eq_def)

lemma pool_current_accounts: "db_accounts d' = db_accounts d \<Longrightarrow> pool_current E p d' = pool_current E p d"
  by (simp add: pool_current_def accounts_of_def [abs_def])

lemma pool_current_ids: "pool_current E p d \<Longrightarrow> ids_match p"
  by (auto simp: pool_current_def ids_match_def accounts_of_def dest: find_Some_iff_in)

lemma pool_current_sync:
  assumes "pool_current E p d" "db_ok d"
  shows "pool_sync p d"
proof -
  have "accounts_of E u d i \<noteq> None \<longleftrightarrow> i \<in> a_ID ` {a \<in> set (db_accounts d). a_UserID a = u}" for u i
    using accounts_of_in [OF assms(2), of _ E u] accounts_of_out [of i d u E] by fastforce
  then show ?thesis using pool_current_ids [OF assms(1)] assms(1) by (simp add: pool_sync_def pool_current_def ids_match_def)
qed

lemma pool_current_owned:
  assumes "pool_current E p d" "db_ok d"
  shows "pool_owned p d"
  using assms accounts_of_in [OF assms(2), of _ E "p_userID p"] by (auto simp: pool_current_def pool_owned_def split: if_splits)


subsection \<open>Operations that change the accounts\<close>

text \<open>\<open>json.Unmarshal\<close> reads back what \<open>json.Marshal\<close> wrote of a token.\<close>
definition json_ok :: "mcfg \<Rightarrow> bool" where
  "json_ok m \<longleftrightarrow> (\<forall>tok j. m_marshal m (Some tok) = Inr j \<longrightarrow> m_unmarshal m j = Inr tok)"

lemma decrypt_encryptToken: "json_ok m \<Longrightarrow> encryptToken m rnd (Some tok) = Inr c \<Longrightarrow> decryptToken m c = Inr tok"
  by (auto simp: json_ok_def encryptToken_def decryptToken_def split: sum.splits dest: aes_ctr.dec_enc_bytes)

text \<open>The row a successful connection leaves holds the token the account was built from.\<close>
lemma finishAddAccount_row:
  assumes fin: "finishAddAccount E idr ivr now label tok p w = (Inr a, p', w')"
    and "db_faults (w_db w) = []" "p_userID p \<noteq> []" "json_ok (e_mcfg E)"
  obtains row where "db_accounts (w_db w') = db_accounts (w_db w) @ [row]" "db_faults (w_db w') = []"
    "a_ID row = acc_ID a" "a_UserID row = p_userID p" "buildAccount E (with_token (e_mcfg E) row) = a"
    "acc_ID a \<notin> a_ID ` set (db_accounts (w_db w))" "p' = p\<lparr>p_accounts := AList.update (acc_ID a) a (p_accounts p)\<rparr>"
proof -
  let ?i = "GenerateID idr"
  obtain row where row: "db_accounts (w_db w') = db_accounts (w_db w) @ [row]" "a_ID row = ?i" "acc_ID a = ?i"
      "a_UserID row = p_userID p" "?i \<notin> a_ID ` set (db_accounts (w_db w))"
      "p' = p\<lparr>p_accounts := AList.update (acc_ID a) a (p_accounts p)\<rparr>"
    using finishAddAccount_cases [OF assms(1-3)] by auto
  obtain h c where h: "e_newClient E tok = Inr h" "encryptToken (e_mcfg E) ivr (Some tok) = Inr c"
      "a = \<lparr>acc_ID = ?i, acc_Label = label, acc_Store = Inr h\<rparr>"
    and "last (db_accounts (w_db w')) = last (db_accounts (w_db w')) \<longrightarrow> a_Label (last (db_accounts (w_db w'))) = label
      \<and> a_TokenCiphertext (last (db_accounts (w_db w'))) = c \<and> db_faults (w_db w') = []"
    using fin assms(2,3)
    by (auto simp: finishAddAccount_def m_AddAccount_def sql_insert_account_def m_UpdateAccountQuota_def
        scoped_def sql_update_accounts_def Let_def split: if_splits sum.splits)
  with row(1) have l: "a_Label row = label" "a_TokenCiphertext row = c" "db_faults (w_db w') = []" by simp_all
  have "buildAccount E (with_token (e_mcfg E) row) = a"
    using h l row(2) decrypt_encryptToken [OF assms(4) h(2)] by (simp add: buildAccount_def with_token_def)
  with row l(3) show thesis by (intro that) simp_all
qed

lemma accounts_of_add:
  assumes "db_accounts d' = db_accounts d @ [row]" "a_ID row \<notin> a_ID ` set (db_accounts d)"
  shows "accounts_of E v d' = (if v = a_UserID row
    then (accounts_of E v d)(a_ID row \<mapsto> buildAccount E (with_token (e_mcfg E) row)) else accounts_of E v d)"
proof -
  have "find (\<lambda>a. a_UserID a = v \<and> a_ID a = a_ID row) (db_accounts d) = None"
    unfolding find_None_iff using assms(2) by (metis imageI)
  then show ?thesis using assms(1) by (auto simp: accounts_of_def find_append fun_eq_iff split: option.splits)
qed

lemma accounts_of_remove:
  assumes "db_accounts d' = filter (\<lambda>a. a \<noteq> row) (db_accounts d)" "row \<in> set (db_accounts d)" "db_ok d"
  shows "accounts_of E v d' = (if v = a_UserID row then (accounts_of E v d)(a_ID row := None) else accounts_of E v d)"
proof
  fix i
  have only: "a = row" if "a \<in> set (db_accounts d)" "a_ID a = a_ID row" for a
    using uniq_on_inj [OF db_okD(3) [OF assms(3)] that(1) assms(2) that(2)] .
  have "find (\<lambda>a. a_UserID a = v \<and> a_ID a = i) (filter (\<lambda>a. a \<noteq> row) xs) =
      (if v = a_UserID row \<and> i = a_ID row then None else find (\<lambda>a. a_UserID a = v \<and> a_ID a = i) xs)"
    if "set xs \<subseteq> set (db_accounts d)" for xs
    using that by (induction xs) (auto dest: only)
  then show "accounts_of E v d' i = (if v = a_UserID row then (accounts_of E v d)(a_ID row := None) else accounts_of E v d) i"
    using assms(1) by (simp add: accounts_of_def)
qed

text \<open>What an operation of the pool \<open>p\<close> of a user does to it and to the pools of the others.\<close>
definition stays_current :: "'d penv \<Rightarrow> pool \<Rightarrow> db \<Rightarrow> pool \<Rightarrow> db \<Rightarrow> bool" where
  "stays_current E p d p' d' \<longleftrightarrow> db_faults d' = [] \<and> p_userID p' = p_userID p
     \<and> (pool_current E p d \<longrightarrow> pool_current E p' d')
     \<and> (\<forall>q. p_userID q \<noteq> p_userID p \<longrightarrow> pool_current E q d \<longrightarrow> pool_current E q d')"

lemma stays_current_quiet: "quiet d d' \<Longrightarrow> db_faults d = [] \<Longrightarrow> stays_current E p d p d'"
  using pool_current_accounts [of d' d] by (auto simp: stays_current_def quiet_def)

lemma finishAddAccount_current:
  assumes "finishAddAccount E idr ivr now label tok p w = (res, p', w')"
    and "db_faults (w_db w) = []" "p_userID p \<noteq> []" "json_ok (e_mcfg E)"
  shows "stays_current E p (w_db w) p' (w_db w')"
proof (cases res)
  case (Inl e)
  with finishAddAccount_cases [OF assms(1-3)] assms(2) show ?thesis by (auto intro: stays_current_quiet)
next
  case (Inr a)
  obtain row where row: "db_accounts (w_db w') = db_accounts (w_db w) @ [row]" "db_faults (w_db w') = []"
    "a_ID row = acc_ID a" "a_UserID row = p_userID p" "buildAccount E (with_token (e_mcfg E) row) = a"
    "acc_ID a \<notin> a_ID ` set (db_accounts (w_db w))" "p' = p\<lparr>p_accounts := AList.update (acc_ID a) a (p_accounts p)\<rparr>"
    by (rule finishAddAccount_row [OF assms(1) [unfolded Inr] assms(2-4)])
  have "accounts_of E v (w_db w') = (if v = p_userID p then (accounts_of E v (w_db w))(acc_ID a \<mapsto> a) else accounts_of E v (w_db w))" for v
    using accounts_of_add [OF row(1), of E v] row(3-6) by simp
  with row(2,7) show ?thesis by (auto simp: stays_current_def pool_current_def update_conv distinct_update)
qed

lemma RemoveAccount_current:
  assumes rem: "RemoveAccount E label force p d = (res, p', d')" and "db_faults d = []" "p_userID p \<noteq> []" "db_ok d"
  shows "stays_current E p d p' d'"
proof (cases res)
  case (Inl e)
  have "quiet d d'" "p' = p"
    using rem Inl assms(2) unfolding RemoveAccount_def Let_def m_RemoveAccount_def sql_delete_accounts_def scoped_def
    by (auto simp: quiet_def filter_id_conv filter_empty_conv split: if_splits sum.splits prod.splits dest!: quiet_reads)
  with assms(2) show ?thesis by (simp add: stays_current_quiet)
next
  case (Inr x)
  obtain row where row: "row \<in> set (db_accounts d)" "a_UserID row = p_userID p"
      "p' = p\<lparr>p_accounts := AList.delete (a_ID row) (p_accounts p)\<rparr>" "db_accounts d' = filter (\<lambda>a. a \<noteq> row) (db_accounts d)"
    using RemoveAccount_success [of E label force p d p' d'] rem Inr assms(2-4) by auto
  have "db_faults d' = []"
    using rem assms(2) unfolding RemoveAccount_def Let_def m_RemoveAccount_def sql_delete_accounts_def scoped_def
    by (auto simp: quiet_def split: if_splits sum.splits prod.splits dest!: quiet_reads)
  with row accounts_of_remove [OF row(4,1) assms(4), of E] show ?thesis
    by (auto simp: stays_current_def pool_current_def delete_conv distinct_delete)
qed

lemma CompleteConsent_current:
  assumes "CompleteConsent E ex idr ivr now url code label p w = (res, p', w')"
    and "db_faults (w_db w) = []" "p_userID p \<noteq> []" "json_ok (e_mcfg E)"
  shows "stays_current E p (w_db w) p' (w_db w')"
proof -
  obtain r d where c: "checkLabelAvailable E p label (w_db w) = (r, d)" by (metis surj_pair)
  then have q: "quiet (w_db w) d" by (auto simp: checkLabelAvailable_def split: sum.splits prod.splits dest!: quiet_reads)
  then have d: "db_faults d = []" "db_accounts d = db_accounts (w_db w)" using assms(2) by (simp_all add: quiet_def)
  have "stays_current E p d p' (w_db w')" if "finishAddAccount E idr ivr now label tok p (w\<lparr>w_db := d\<rparr>) = (res, p', w')" for tok
    using finishAddAccount_current [OF that] d(1) assms(3,4) by simp
  with assms(1,2) c q d show ?thesis
    by (auto simp: CompleteConsent_def stays_current_def pool_current_accounts [OF d(2)] split: option.splits sum.splits intro: stays_current_quiet)
qed


subsection \<open>The portal with its cache and without\<close>

abbreviation portal_open :: "'d benv \<Rightarrow> string \<Rightarrow> db \<Rightarrow> (cfg_err, pool) result \<times> db" where
  "portal_open B u d \<equiv> OpenWithUser (be_parse B) (\<lambda>_. be_penv B) (be_configDir B) (be_nodes B) u (cf_ClientSecretPath (be_cfg B)) d"

text \<open>The client secret can be loaded, so that opening a pool can succeed.\<close>
definition loads :: "'d benv \<Rightarrow> bool" where
  "loads B \<longleftrightarrow> (case (if cf_ClientSecretPath (be_cfg B) = [] then DefaultClientSecretPath (be_configDir B)
       else Inr (cf_ClientSecretPath (be_cfg B))) of
     Inl e \<Rightarrow> False | Inr path \<Rightarrow> (case LoadClientConfig (be_parse B) (be_nodes B) path of Inl e \<Rightarrow> False | Inr c \<Rightarrow> True))"

definition cache_ok :: "'d benv \<Rightarrow> 'd server \<Rightarrow> bool" where
  "cache_ok B s \<longleftrightarrow> tenant_ok (sv_db s) \<and> db_faults (sv_db s) = [] \<and> distinct (map fst (sv_pools s)) \<and> (\<forall>u p t. map_of (sv_pools s) u = Some (p, t) \<longrightarrow>
     u \<noteq> [] \<and> p_userID p = u \<and> pool_current (be_penv B) p (sv_db s) \<and> loads B)"

lemma cache_okD:
  assumes "cache_ok B s"
  shows "db_ok (sv_db s)" "tenant_ok (sv_db s)" "db_faults (sv_db s) = []" "distinct (map fst (sv_pools s))"
    and "map_of (sv_pools s) u = Some (p, t) \<Longrightarrow> u \<noteq> [] \<and> p_userID p = u \<and> pool_current (be_penv B) p (sv_db s) \<and> loads B"
  using assms unfolding cache_ok_def tenant_ok_def by blast+

text \<open>Opening a pool on a sound database changes nothing and gives a current pool, or fails whoever asks.\<close>
lemma portal_open_current:
  assumes "db_ok d" "db_faults d = []"
  obtains (fails) e where "portal_open B u d = (Inl e, d)" "loads B \<Longrightarrow> u = []"
  | (opens) q where "portal_open B u d = (Inr q, d)" "pool_current (be_penv B) q d" "p_userID q = u" "u \<noteq> []" "loads B"
proof (cases "loads B \<and> u \<noteq> []")
  case True
  obtain q where q: "Open (be_penv B) u d = (Inr q, d)" "pool_current (be_penv B) q d" "p_userID q = u"
    by (rule Open_current [OF assms, of u "be_penv B"]) (use True in auto)
  from True have "portal_open B u d = (Inr q, d)"
    using q(1) by (auto simp: loads_def OpenWithUser_def split: sum.splits if_splits)
  with q True show thesis by (intro opens) auto
next
  case False
  have "Open (be_penv B) [] d = (Inl (PPanic ''scoped called with empty userID''), d)"
    by (simp add: Open_def m_ListAccounts_def scoped_def m_err_def)
  with False obtain e where "portal_open B u d = (Inl e, d)"
    by (auto simp: loads_def OpenWithUser_def split: sum.splits)
  then show thesis by (rule fails) (use False in auto)
qed

text \<open>An answer with the cache and one without: the same response, database, drives and flows.\<close>
definition agrees :: "'d benv \<Rightarrow> response \<times> 'd server \<Rightarrow> response \<times> 'd server \<Rightarrow> bool" where
  "agrees B x y \<longleftrightarrow> fst x = fst y \<and> sv_world (snd x) = sv_world (snd y) \<and> sv_pending (snd x) = sv_pending (snd y)
     \<and> cache_ok B (snd x)"

definition same_but_pools :: "'d server \<Rightarrow> 'd server \<Rightarrow> bool" where
  "same_but_pools s s0 \<longleftrightarrow> sv_world s = sv_world s0 \<and> sv_pending s = sv_pending s0"

lemma same_but_pools_db: "same_but_pools s s0 \<Longrightarrow> sv_db s = sv_db s0"
  by (simp add: same_but_pools_def sv_db_def)

lemma cache_ok_quiet:
  assumes "cache_ok B s" "user_step u X (sv_db s) (sv_db s')" "quiet (sv_db s) (sv_db s')" "sv_pools s' = sv_pools s"
  shows "cache_ok B s'"
proof -
  have d: "db_faults (sv_db s') = []" "db_accounts (sv_db s') = db_accounts (sv_db s)"
    using assms(3) cache_okD(3) [OF assms(1)] by (simp_all add: quiet_def)
  moreover have "tenant_ok (sv_db s')" using assms(2) cache_okD(2) [OF assms(1)] by (simp add: user_step_def)
  ultimately show ?thesis
    using cache_okD(4,5) [OF assms(1)] unfolding cache_ok_def assms(4) pool_current_accounts [OF d(2)] by blast
qed

lemma agrees_db:
  assumes "cache_ok B s" "same_but_pools s s0" "user_step u X (sv_db s) d" "quiet (sv_db s) d"
  shows "agrees B (r, with_db d s) (r, with_db d s0)"
  using assms cache_ok_quiet [of B s u X "with_db d s"] by (simp add: agrees_def same_but_pools_def with_db_def)

lemma agrees_world:
  assumes "cache_ok B s" "same_but_pools s s0" "user_step u X (w_db (sv_world s)) (w_db w)" "quiet (w_db (sv_world s)) (w_db w)"
  shows "agrees B (r, s\<lparr>sv_world := w\<rparr>) (r, s0\<lparr>sv_world := w\<rparr>)"
  using assms cache_ok_quiet [of B s u X "s\<lparr>sv_world := w\<rparr>"] by (simp add: agrees_def same_but_pools_def sv_db_def)

lemma agrees_same: "cache_ok B s \<Longrightarrow> same_but_pools s s0 \<Longrightarrow> agrees B (r, s) (r, s0)"
  by (simp add: agrees_def same_but_pools_def)

text \<open>An operation that replaces the cached pool.\<close>
lemma cache_ok_op:
  assumes "cache_ok B s" "map_of (sv_pools s) u = Some (p, t)" "user_step u X (sv_db s) (sv_db s')" "sv_pools s' = sv_pools s"
    and "stays_current (be_penv B) p (sv_db s) p' (sv_db s')"
  shows "cache_ok B (set_pool u p' s')"
proof -
  have u: "u \<noteq> []" "p_userID p = u" "pool_current (be_penv B) p (sv_db s)" "loads B" using cache_okD(5) [OF assms(1,2)] by auto
  have "v \<noteq> [] \<and> p_userID q = v \<and> pool_current (be_penv B) q (sv_db s') \<and> loads B"
    if q: "map_of (sv_pools (set_pool u p' s')) v = Some (q, t')" for v q t'
  proof (cases "v = u")
    case True
    with q u assms(4,5) show ?thesis by (auto simp: set_pool_lookup stays_current_def)
  next
    case False
    with q have "map_of (sv_pools s) v = Some (q, t')" by (auto simp: set_pool_lookup assms(4))
    with cache_okD(5) [OF assms(1) this] u(2) assms(5) False show ?thesis by (auto simp: stays_current_def)
  qed
  moreover have "tenant_ok (sv_db s')" using cache_okD(2) [OF assms(1)] assms(3) by (simp add: user_step_def)
  moreover have "db_faults (sv_db s') = []" using assms(5) by (simp add: stays_current_def)
  ultimately show ?thesis using cache_okD(4) [OF assms(1)] by (simp add: cache_ok_def assms(4))
qed

lemma agrees_op:
  assumes "cache_ok B s" "map_of (sv_pools s) u = Some (p, t)" "same_but_pools s s0" "user_step u X (sv_db s) (w_db w)"
    and "stays_current (be_penv B) p (sv_db s) p' (w_db w)"
  shows "agrees B (r, set_pool u p' (s\<lparr>sv_world := w\<rparr>)) (r, set_pool u q' (s0\<lparr>sv_world := w\<rparr>))"
  using assms cache_ok_op [of B s u p t X "s\<lparr>sv_world := w\<rparr>" p'] by (simp add: agrees_def same_but_pools_def set_pool_def)

lemma with_db_world: "with_db d s = s\<lparr>sv_world := (sv_world s)\<lparr>w_db := d\<rparr>\<rparr>"
  by (simp add: with_db_def)

lemma cache_ok_add:
  assumes "cache_ok B s" "u \<noteq> []" "p_userID p = u" "pool_current (be_penv B) p (sv_db s)" "loads B"
  shows "cache_ok B (s\<lparr>sv_pools := AList.update u (p, t) (sv_pools s)\<rparr>)"
  using assms by (auto simp: cache_ok_def update_conv' distinct_update)

text \<open>The pool the cache hands out and the one opened anew stand for the same map.\<close>
lemma cache_get_agrees:
  assumes ok: "cache_ok B s" and s0: "same_but_pools s s0" "sv_pools s0 = []"
  obtains (fails) e where "cache_get B now u s = (Inl e, s)" "cache_get B now u s0 = (Inl e, s0)"
  | (gives) p q s1 s2 t where "cache_get B now u s = (Inr p, s1)" "cache_get B now u s0 = (Inr q, s2)" "pool_eq p q"
    "cache_ok B s1" "same_but_pools s1 s2" "map_of (sv_pools s1) u = Some (p, t)" "p_userID p = u" "u \<noteq> []"
proof -
  note d = cache_okD(1,3) [OF ok]
  have id: "with_db (sv_db s) s = s" "with_db (sv_db s) s0 = s0" using same_but_pools_db [OF s0(1)] by (simp_all add: with_db_def sv_db_def)
  show thesis using d
  proof (cases rule: portal_open_current [where B = B and u = u])
    case (fails e)
    have "map_of (sv_pools s) u = None" using fails(2) cache_okD(5) [OF ok, of u] by (cases "map_of (sv_pools s) u") auto
    with fails(1) s0 have "cache_get B now u s = (Inl e, s)" "cache_get B now u s0 = (Inl e, s0)"
      by (simp_all add: cache_get_def id flip: same_but_pools_db [OF s0(1)])
    then show thesis by (rule that(1))
  next
    case (opens q)
    let ?s0 = "s0\<lparr>sv_pools := AList.update u (q, now) (sv_pools s0)\<rparr>"
    have g0: "cache_get B now u s0 = (Inr q, ?s0)"
      using opens(1) s0 by (simp add: cache_get_def id flip: same_but_pools_db [OF s0(1)])
    obtain p where g: "cache_get B now u s = (Inr p, s\<lparr>sv_pools := AList.update u (p, now) (sv_pools s)\<rparr>)"
      and p: "p_userID p = u" "pool_current (be_penv B) p (sv_db s)"
    proof (cases "map_of (sv_pools s) u")
      case None
      with opens(1-3) show thesis by (intro that [of q]) (simp_all add: cache_get_def id)
    next
      case (Some e)
      then obtain p t where pt: "map_of (sv_pools s) u = Some (p, t)" by (cases e) auto
      with cache_okD(5) [OF ok pt] show thesis by (intro that [of p]) (simp_all add: cache_get_def)
    qed
    show thesis
      by (rule that(2) [OF g g0 pool_current_eq [OF p(2) opens(2)] cache_ok_add [OF ok opens(4) p opens(5)]])
        (use p opens s0 in \<open>simp_all add: update_conv' same_but_pools_def\<close>)
  qed
qed


subsection \<open>Every handler\<close>

lemma s_pool_agrees:
  assumes "cache_ok B s" "same_but_pools s s0" "sv_pools s0 = []"
    and body: "\<And>p q s1 s2 t. cache_ok B s1 \<Longrightarrow> map_of (sv_pools s1) u = Some (p, t) \<Longrightarrow> pool_eq p q \<Longrightarrow> same_but_pools s1 s2 \<Longrightarrow>
      agrees B (k p s1) (k q s2)"
  shows "agrees B (s_pool B R u k s) (s_pool B R u k s0)"
  using assms(1-3)
proof (cases rule: cache_get_agrees [where now = "re_now R" and u = u])
  case (fails e)
  with assms(1,2) show ?thesis by (simp add: s_pool_def agrees_same)
next
  case (gives p q s1 s2 t)
  with body show ?thesis by (simp add: s_pool_def)
qed

lemma same_world: "same_but_pools s s0 \<Longrightarrow> sv_world s0 = sv_world s" "same_but_pools s s0 \<Longrightarrow> sv_db s0 = sv_db s"
    "same_but_pools s s0 \<Longrightarrow> sv_pending s0 = sv_pending s"
  by (simp_all add: same_but_pools_def sv_db_def)

lemma cached_user: "cache_ok B s \<Longrightarrow> map_of (sv_pools s) u = Some (p, t) \<Longrightarrow>
    p_userID p = u \<and> u \<noteq> [] \<and> ids_match p \<and> pool_owned p (sv_db s)"
  using cache_okD(1,5) [of B s] pool_current_ids pool_current_owned by blast

text \<open>The bodies: what a handler does with the pool it is given.\<close>
lemma handleListAccounts_agrees:
  assumes "cache_ok B s" "same_but_pools s s0" "sv_pools s0 = []"
  shows "agrees B (handleListAccounts B R u s) (handleListAccounts B R u s0)"
  unfolding handleListAccounts_def
proof (rule s_pool_agrees [OF assms], goal_cases)
  case (1 p q s1 s2 t)
  then show ?case
    unfolding same_world [OF 1(4)] listing_eq(2) [OF 1(3), symmetric]
    by (auto split: prod.splits sum.splits intro!: agrees_world dest: listing_quiet(2) ListAccountStatus_user)
qed

lemma handleListFiles_agrees:
  assumes "cache_ok B s" "same_but_pools s s0" "sv_pools s0 = []"
  shows "agrees B (handleListFiles B R rq u s) (handleListFiles B R rq u s0)"
  unfolding handleListFiles_def
proof (rule s_pool_agrees [OF assms], goal_cases)
  case (1 p q s1 s2 t)
  then show ?case
    unfolding same_world [OF 1(4)] listing_eq(1) [OF 1(3), symmetric]
    by (auto split: prod.splits sum.splits intro!: agrees_db dest: listing_quiet(1) ListWithAccounts_user)
qed

lemma handleDownloadFile_agrees:
  assumes "cache_ok B s" "same_but_pools s s0" "sv_pools s0 = []"
  shows "agrees B (handleDownloadFile B R rq u s) (handleDownloadFile B R rq u s0)"
  unfolding handleDownloadFile_def
proof (rule s_pool_agrees [OF assms], goal_cases)
  case (1 p q s1 s2 t)
  then show ?case
    unfolding same_world [OF 1(4)] GetStream_eq [OF 1(3), symmetric] Let_def
    by (auto split: prod.splits sum.splits intro!: agrees_world agrees_same [OF 1(1,4)] dest: GetStream_quiet GetStream_user)
qed

lemma handleDeleteFile_agrees:
  assumes "cache_ok B s" "same_but_pools s s0" "sv_pools s0 = []"
  shows "agrees B (handleDeleteFile B R rq u s) (handleDeleteFile B R rq u s0)"
  unfolding handleDeleteFile_def
proof (rule s_pool_agrees [OF assms], goal_cases)
  case (1 p q s1 s2 t)
  then show ?case
    unfolding same_world [OF 1(4)] Remove_eq [OF 1(3), symmetric] Let_def
    by (auto split: prod.splits sum.splits intro!: agrees_world agrees_same [OF 1(1,4)] dest: Remove_quiet Remove_user)
qed

lemma handleUploadFile_agrees:
  assumes "cache_ok B s" "same_but_pools s s0" "sv_pools s0 = []" and ord: "inj (pe_order (re_put R))"
  shows "agrees B (handleUploadFile B R rq u s) (handleUploadFile B R rq u s0)"
  unfolding handleUploadFile_def
proof (rule s_pool_agrees [OF assms(1-3)], goal_cases)
  case (1 p q s1 s2 t)
  note u = cached_user [OF 1(1,2)] cache_okD(2) [OF 1(1)]
  have "agrees B (r, s1\<lparr>sv_world := w\<rparr>) (r, s2\<lparr>sv_world := w\<rparr>)"
    if "PutStream (be_penv B) (re_put R) p rd n name (sv_world s1) = (res, w)" for rd n name res w r
    using PutStream_user [OF that] PutStream_quiet [OF that] u by (intro agrees_world [OF 1(1,4)]) (simp_all add: sv_db_def)
  with 1 show ?case
    unfolding same_world [OF 1(4)] PutStream_eq [OF 1(3) ord, symmetric] Let_def
    by (auto split: option.splits prod.splits sum.splits intro!: agrees_same [OF 1(1,4)])
qed

lemma handleRemoveAccount_agrees:
  assumes "cache_ok B s" "same_but_pools s s0" "sv_pools s0 = []"
  shows "agrees B (handleRemoveAccount B R rq label u s) (handleRemoveAccount B R rq label u s0)"
  unfolding handleRemoveAccount_def
proof (rule s_pool_agrees [OF assms], goal_cases)
  case (1 p q s1 s2 t)
  obtain r p' d where p: "RemoveAccount (be_penv B) label (ParseBool (rq_Query rq ''force'')) p (sv_db s1) = (r, p', d)"
    by (metis prod_cases3)
  then obtain q' where q: "RemoveAccount (be_penv B) label (ParseBool (rq_Query rq ''force'')) q (sv_db s1) = (r, q', d)"
    using RemoveAccount_eq [OF 1(3)] by blast
  have "stays_current (be_penv B) p (sv_db s1) p' d"
    using RemoveAccount_current [OF p] cache_okD(1,3) [OF 1(1)] cached_user [OF 1(1,2)] by simp
  then have "agrees B (resp, set_pool u p' (with_db d s1)) (resp, set_pool u q' (with_db d s2))" for resp
    using agrees_op [OF 1(1,2,4), of "{}" "(sv_world s1)\<lparr>w_db := d\<rparr>"] RemoveAccount_user(1) [OF p] cached_user [OF 1(1,2)]
    by (simp add: with_db_world same_world [OF 1(4)])
  then show ?case unfolding same_world [OF 1(4)] by (auto simp: p q split: sum.splits)
qed

lemma handleConnectAccount_agrees:
  assumes "cache_ok B s" "same_but_pools s s0" "sv_pools s0 = []"
  shows "agrees B (handleConnectAccount B R rq u s) (handleConnectAccount B R rq u s0)"
  unfolding handleConnectAccount_def
proof (rule s_pool_agrees [OF assms], goal_cases)
  case (1 p q s1 s2 t)
  then show ?case by (auto simp: Let_def agrees_def same_but_pools_def cache_ok_def)
qed


lemma handleOAuthCallback_agrees:
  assumes ok: "cache_ok B s" and s0: "same_but_pools s s0" "sv_pools s0 = []" and json: "json_ok (e_mcfg (be_penv B))"
  shows "agrees B (handleOAuthCallback B R rq s) (handleOAuthCallback B R rq s0)"
proof (cases "map_of (sv_pending s) (rq_Query rq ''state'')")
  case None
  with agrees_same [OF ok s0(1)] show ?thesis by (simp add: handleOAuthCallback_def same_world(3) [OF s0(1)])
next
  case (Some pd)
  let ?drop = "\<lambda>s. s\<lparr>sv_pending := AList.delete (rq_Query rq ''state'') (sv_pending s)\<rparr>" and ?u = "pd_userID pd"
  have ok1: "cache_ok B (?drop s)" "same_but_pools (?drop s) (?drop s0)" "sv_pools (?drop s0) = []"
    using ok s0 by (simp_all add: cache_ok_def same_but_pools_def)
  let ?op = "\<lambda>p s. CompleteConsent (be_penv B) (re_exchange R) (re_id R) (re_iv R) (re_now R) (oauthRedirectURL (be_cfg B))
    (rq_Query rq ''code'') (pd_label pd) p (sv_world s)"
  let ?k = "\<lambda>p s. case ?op p s of
      (Inl e, p', w) \<Rightarrow> (if is_panic e then reply 500 NoBody else reply 302 (ConnectError (PoolFail e)), set_pool ?u p' (s\<lparr>sv_world := w\<rparr>))
    | (Inr a, p', w) \<Rightarrow> (reply 302 (Redirect ''/''), set_pool ?u p' (s\<lparr>sv_world := w\<rparr>))"
  have fin: "agrees B (?k p s1) (?k q s2)"
    if 1: "cache_ok B s1" "map_of (sv_pools s1) ?u = Some (p, t)" "pool_eq p q" "same_but_pools s1 s2" for p q s1 s2 t
  proof -
    obtain r p' w where p: "?op p s1 = (r, p', w)" by (metis prod_cases3)
    then obtain q' where q: "?op q s1 = (r, q', w)" using CompleteConsent_eq [OF 1(3)] by blast
    have "stays_current (be_penv B) p (sv_db s1) p' (w_db w)"
      using CompleteConsent_current [OF p] cache_okD(3) [OF 1(1)] cached_user [OF 1(1,2)] json by (simp add: sv_db_def)
    then have "agrees B (resp, set_pool ?u p' (s1\<lparr>sv_world := w\<rparr>)) (resp, set_pool ?u q' (s2\<lparr>sv_world := w\<rparr>))" for resp
      using agrees_op [OF 1(1,2,4)] CompleteConsent_user(1) [OF p] cached_user [OF 1(1,2)] by (simp add: sv_db_def)
    then show ?thesis unfolding same_world [OF 1(4)] by (simp add: p q split: sum.split)
  qed
  have pd0: "map_of (sv_pending s0) (rq_Query rq ''state'') = Some pd" using Some by (simp add: same_world(3) [OF s0(1)])
  show ?thesis using ok1
  proof (cases rule: cache_get_agrees [where now = "re_now R" and u = ?u])
    case (fails e)
    with Some pd0 agrees_same [OF ok1(1,2)] show ?thesis by (simp add: handleOAuthCallback_def Let_def)
  next
    case (gives p q s1 s2 t)
    with Some pd0 agrees_same [OF ok1(1,2)] fin [OF gives(4,6,3,5)] show ?thesis by (simp add: handleOAuthCallback_def Let_def)
  qed
qed

lemma handleMe_agrees:
  "cache_ok B s \<Longrightarrow> same_but_pools s s0 \<Longrightarrow> agrees B (handleMe u s) (handleMe u s0)"
  by (auto simp: handleMe_def GetByID_def same_world(2) split: prod.splits sum.splits intro!: agrees_db dest: auth_first_user quiet_reads(7))

lemma Ping_user: "auth_Ping d = (r, d') \<Longrightarrow> user_step u X d d'"
  using user_step_read [of "\<lambda>d. (Inr (), d)" u X d] by (auto simp: auth_Ping_def split: prod.splits sum.splits)

lemma handleReadyz_agrees: "cache_ok B s \<Longrightarrow> same_but_pools s s0 \<Longrightarrow> agrees B (handleReadyz s) (handleReadyz s0)"
  by (auto simp: handleReadyz_def same_world(2) split: prod.splits sum.splits intro!: agrees_db dest: Ping_user quiet_reads(8))

lemma handleLogin_agrees: "cache_ok B s \<Longrightarrow> same_but_pools s s0 \<Longrightarrow> agrees B (handleLogin B rq s) (handleLogin B rq s0)"
  by (auto simp: handleLogin_def Authenticate_def GetByUsername_def same_world(2) split: option.splits prod.splits sum.splits
      intro!: agrees_db dest: auth_first_user quiet_reads(7) intro: agrees_same)

lemma handleRegister_agrees:
  assumes "cache_ok B s" "same_but_pools s s0"
  shows "agrees B (handleRegister B R rq s) (handleRegister B R rq s0)"
proof -
  have "agrees B (r, with_db d s) (r, with_db d s0)"
    if "CreateUser (be_bcrypt B) (re_salt R) (re_id R) (re_now R) name pw (sv_db s) = (res, d)" for name pw res d r
    using CreateUser_tenant [OF cache_okD(2) [OF assms(1)] that] quiet_writes(5) [OF that]
    by (intro agrees_db [OF assms]) (auto simp: user_step_def)
  with agrees_same [OF assms] show ?thesis
    by (auto simp: handleRegister_def same_world(2) [OF assms(2)] split: option.splits prod.splits sum.splits)
qed


lemma requireSession_agrees:
  assumes "cache_ok B s" "same_but_pools s s0" "\<And>u. agrees B (k u s) (k u s0)"
  shows "agrees B (requireSession rq k s) (requireSession rq k s0)"
  using assms(3) agrees_same [OF assms(1,2)] by (simp add: requireSession_def split: option.split)

lemma registerSPA_agrees: "cache_ok B s \<Longrightarrow> same_but_pools s s0 \<Longrightarrow> agrees B (registerSPA B rq s) (registerSPA B rq s0)"
  by (simp add: registerSPA_def Let_def agrees_same split: option.split)

lemma handleLogout_agrees: "cache_ok B s \<Longrightarrow> same_but_pools s s0 \<Longrightarrow> agrees B (handleLogout s) (handleLogout s0)"
    "cache_ok B s \<Longrightarrow> same_but_pools s s0 \<Longrightarrow> agrees B (handleHealthz s) (handleHealthz s0)"
  by (simp_all add: handleLogout_def handleHealthz_def agrees_same)

lemmas handler_agrees = handleMe_agrees handleReadyz_agrees handleLogin_agrees handleRegister_agrees handleListAccounts_agrees
  handleListFiles_agrees handleDownloadFile_agrees handleDeleteFile_agrees handleUploadFile_agrees handleRemoveAccount_agrees
  handleConnectAccount_agrees handleOAuthCallback_agrees handleLogout_agrees registerSPA_agrees requireSession_agrees

lemma newRouter_agrees:
  assumes "cache_ok B s" "same_but_pools s s0" "sv_pools s0 = []" "json_ok (e_mcfg (be_penv B))" "inj (pe_order (re_put R))"
  shows "agrees B (newRouter B R rq s) (newRouter B R rq s0)"
  unfolding newRouter_def Let_def using assms by (simp add: handler_agrees agrees_same split: option.split)

subsection \<open>Runs of the portal\<close>

text \<open>The answers of the portal to a sequence of events, and its state afterwards.\<close>
fun portal_run :: "'d benv \<Rightarrow> serve_event list \<Rightarrow> 'd server \<Rightarrow> response list \<times> 'd server" where
  "portal_run B [] s = ([], s)"
| "portal_run B (Request R rq # es) s =
     (let (r, s1) = newRouter B R rq s; (rs, s2) = portal_run B es s1 in (r # rs, s2))"
| "portal_run B (Tick now # es) s = portal_run B es (evict_tick now s)"

text \<open>The reference: nothing is cached, every request opens the pool it needs.\<close>
fun uncached_run :: "'d benv \<Rightarrow> serve_event list \<Rightarrow> 'd server \<Rightarrow> response list \<times> 'd server" where
  "uncached_run B [] s = ([], s)"
| "uncached_run B (Request R rq # es) s =
     (let (r, s1) = newRouter B R rq (closeAll s); (rs, s2) = uncached_run B es s1 in (r # rs, s2))"
| "uncached_run B (Tick now # es) s = uncached_run B es (sweepExpiredOAuthState now s)"

lemma evict_tick_ok:
  assumes "cache_ok B s"
  shows "cache_ok B (evict_tick now s)"
proof -
  have d: "distinct (map fst (sv_pools s))" by (rule cache_okD(4) [OF assms])
  have "sv_pools (evict_tick now s) = sv_pools (evictIdle idlePoolTimeout now s)" "sv_db (evict_tick now s) = sv_db s"
    by (simp_all add: evict_tick_def evictIdle_def sweepExpiredOAuthState_def)
  then show ?thesis
    unfolding cache_ok_def using cache_okD [OF assms] pool_cache.sweep_wf [OF d] pool_cache.swept_fresh [OF d] by metis
qed

lemma portal_run_agrees:
  assumes "cache_ok B s" "same_but_pools s s0" "json_ok (e_mcfg (be_penv B))"
    and "\<forall>R rq. Request R rq \<in> set es \<longrightarrow> inj (pe_order (re_put R))"
  shows "fst (portal_run B es s) = fst (uncached_run B es s0) \<and> same_but_pools (snd (portal_run B es s)) (snd (uncached_run B es s0))
    \<and> cache_ok B (snd (portal_run B es s))"
  using assms
proof (induction es arbitrary: s s0)
  case (Cons e es)
  have rest: "\<forall>R rq. Request R rq \<in> set es \<longrightarrow> inj (pe_order (re_put R))" using Cons.prems(4) by simp
  show ?case
  proof (cases e)
    case (Request R rq)
    obtain r s1 where r: "newRouter B R rq s = (r, s1)" by (metis surj_pair)
    obtain r0 s2 where r0: "newRouter B R rq (closeAll s0) = (r0, s2)" by (metis surj_pair)
    have "same_but_pools s (closeAll s0)" "sv_pools (closeAll s0) = []" "inj (pe_order (re_put R))"
      using Cons.prems(2,4) Request by (auto simp: same_but_pools_def closeAll_def)
    from newRouter_agrees [OF Cons.prems(1) this(1,2) Cons.prems(3) this(3), of rq] r r0
    have "r = r0" "same_but_pools s1 s2" "cache_ok B s1" by (simp_all add: agrees_def same_but_pools_def)
    with Cons.IH [OF _ _ Cons.prems(3) rest, of s1 s2] Request r r0 show ?thesis by (simp add: split_def Let_def)
  next
    case (Tick now)
    have "same_but_pools (evict_tick now s) (sweepExpiredOAuthState now s0)"
      using Cons.prems(2) by (simp add: same_but_pools_def evict_tick_def evictIdle_def sweepExpiredOAuthState_def)
    with Cons.IH [OF evict_tick_ok [OF Cons.prems(1)] _ Cons.prems(3) rest] Tick show ?thesis by simp
  qed
qed simp

text \<open>
  C17. The cache of pools is invisible: on a database whose statements do not fail, a portal that was
  started with an empty memory gives to every sequence of requests and eviction ticks the answers of
  one that keeps no pools and opens the pool of the user anew for each request, and leaves the same
  database, drives and pending flows; and each pool it holds is the one \<open>Open\<close> would build now.
\<close>
theorem cache_transparent:
  assumes "tenant_ok (w_db w)" "db_faults (w_db w) = []" "json_ok (e_mcfg (be_penv B))"
    and "\<forall>R rq. Request R rq \<in> set es \<longrightarrow> inj (pe_order (re_put R))"
    and run: "portal_run B es \<lparr>sv_world = w, sv_pools = [], sv_pending = []\<rparr> = (rs, s)"
  shows "\<exists>s0. uncached_run B es \<lparr>sv_world = w, sv_pools = [], sv_pending = []\<rparr> = (rs, s0)
      \<and> sv_world s0 = sv_world s \<and> sv_pending s0 = sv_pending s
    \<and> (\<forall>u p t. map_of (sv_pools s) u = Some (p, t) \<longrightarrow>
        (\<exists>q. Open (be_penv B) u (sv_db s) = (Inr q, sv_db s) \<and> map_of (p_accounts q) = map_of (p_accounts p)
          \<and> q = p\<lparr>p_accounts := p_accounts q\<rparr>))"
proof -
  let ?s = "\<lparr>sv_world = w, sv_pools = [], sv_pending = []\<rparr>"
  have "cache_ok B ?s" "same_but_pools ?s ?s" using assms(1,2) by (simp_all add: cache_ok_def same_but_pools_def sv_db_def)
  from portal_run_agrees [OF this assms(3,4)] run
  have a: "fst (uncached_run B es ?s) = rs" "same_but_pools s (snd (uncached_run B es ?s))" and ok: "cache_ok B s" by simp_all
  have "\<exists>q. Open (be_penv B) u (sv_db s) = (Inr q, sv_db s) \<and> map_of (p_accounts q) = map_of (p_accounts p)
      \<and> q = p\<lparr>p_accounts := p_accounts q\<rparr>" if p: "map_of (sv_pools s) u = Some (p, t)" for u p t
  proof -
    note c = cache_okD(5) [OF ok p]
    obtain q where "Open (be_penv B) u (sv_db s) = (Inr q, sv_db s)" "pool_current (be_penv B) q (sv_db s)" "p_userID q = u"
      by (rule Open_current [OF cache_okD(1,3) [OF ok], of u "be_penv B"]) (use c in auto)
    with c show ?thesis by (intro exI [of _ q]) (simp add: pool_current_def)
  qed
  with a show ?thesis by (intro exI [of _ "snd (uncached_run B es ?s)"]) (auto simp: same_but_pools_def prod_eq_iff)
qed


subsection \<open>Two processes\<close>

text \<open>A successful \<open>rhino account add\<close> appends one row of the invoking user, under a new identifier.\<close>
lemma cli_add_row:
  assumes "tenant_ok (w_db (mc_world m))" "db_faults (w_db (mc_world m)) = []"
    and user: "user \<in> set (db_users (w_db (mc_world m)))" "u_Username user = cli_flag (ce_environ C) (ce_userFlag C) ''RHINO_USER''"
    and add: "newAccountAddCmd C label m = (Inr out, m')"
  obtains row where "db_accounts (w_db (mc_world m')) = db_accounts (w_db (mc_world m)) @ [row]" "a_UserID row = u_ID user"
    "a_ID row = GenerateID (ce_id C)" "db_faults (w_db (mc_world m')) = []" "tenant_ok (w_db (mc_world m'))"
proof -
  let ?d = "w_db (mc_world m)" and ?flow = "RunConsentFlow (ce_listen C) (ce_exchange C) (ce_state C) (ce_event C)"
  have ok: "db_ok ?d" using assms(1) by (simp add: tenant_ok_def)
  obtain E p m1 a p1 w where o: "openPool C m = (Inr (E, p), m1)"
    and a: "AddAccount E (ce_id C) (ce_iv C) (ce_now C) ?flow label p (mc_world m1) = (Inr a, p1, w)" "m' = m1\<lparr>mc_world := w\<rparr>"
    using add by (auto simp: newAccountAddCmd_def with_pool_def split: if_splits sum.splits prod.splits)
  obtain user' d d' where g: "GetOrCreateCLIUser (ce_bcrypt C) (ce_salt C) (ce_uid C) (ce_pw C) (ce_now C)
       (cli_flag (ce_environ C) (ce_userFlag C) ''RHINO_USER'') ?d = (Inr user', d)"
    and op: "Open E (u_ID user') d = (Inr p, d')" and m1: "m1 = m\<lparr>mc_world := (mc_world m)\<lparr>w_db := d'\<rparr>\<rparr>"
    by (rule openPool_success [OF o])
  have "user' = user" "d = ?d" using g GetByUsername_found [OF ok assms(2) user] by (simp_all add: GetOrCreateCLIUser_def)
  with op Open_again [OF op] assms(2) have d: "d' = ?d" by simp
  have p: "p_userID p = u_ID user" "p_userID p \<noteq> []" using Open_owned [OF op] \<open>user' = user\<close> \<open>d = ?d\<close> assms(1) by auto
  obtain c d2 where chk: "checkLabelAvailable E p label ?d = (c, d2)" by (metis surj_pair)
  then have "quiet ?d d2" by (auto simp: checkLabelAvailable_def split: sum.splits prod.splits dest!: quiet_reads)
  then have d2: "db_accounts d2 = db_accounts ?d" "db_faults d2 = []" using assms(2) by (simp_all add: quiet_def)
  have ok2: "tenant_ok d2"
    using chk read_users(1) [of "p_userID p" "{}" ?d "e_mcfg E" "p_userID p" label] assms(1)
    by (auto simp: checkLabelAvailable_def user_step_def split: prod.splits sum.splits)
  obtain tok where fin: "finishAddAccount E (ce_id C) (ce_iv C) (ce_now C) label tok p ((mc_world m1)\<lparr>w_db := d2\<rparr>) = (Inr a, p1, w)"
    using a(1) chk by (auto simp: AddAccount_def m1 d split: option.splits sum.splits)
  obtain row where "db_accounts (w_db w) = db_accounts d2 @ [row]" "a_UserID row = p_userID p" "a_ID row = GenerateID (ce_id C)"
    using finishAddAccount_cases [OF fin] d2(2) p(2) by auto
  moreover have "tenant_ok (w_db w)" using finishAddAccount_user(1) [OF fin] ok2 by (simp add: user_step_def)
  moreover have "db_faults (w_db w) = []"
    using fin d2(2) by (auto simp: finishAddAccount_def m_AddAccount_def sql_insert_account_def m_UpdateAccountQuota_def
        scoped_def sql_update_accounts_def Let_def split: if_splits sum.splits)
  ultimately show thesis using d2(1) p(1) a(2) by (intro that [of row]) simp_all
qed

text \<open>
  C37. The cache is not safe against a second process: when a user connects an account from the command
  line while a running portal holds the user's pool, the portal's listing of the accounts panics and is
  answered 500 as long as the pool stays cached, although the same portal without its cache would
  answer 200.
\<close>
theorem cli_add_breaks_cached_pool:
  assumes "tenant_ok (w_db w)" "server_reach B w s" "db_faults (sv_db s) = []"
    and "map_of (sv_pools s) (u_ID user) = Some (p, t)" "map_of (p_accounts p) (GenerateID (ce_id C)) = None" "loads B"
    and "user \<in> set (db_users (sv_db s))" "u_Username user = cli_flag (ce_environ C) (ce_userFlag C) ''RHINO_USER''"
    and add: "mc_world m = sv_world s" "newAccountAddCmd C label m = (Inr out, m')"
    and rq: "rq_Method rq = ''GET''" "rq_Path rq = ''/api/accounts''" "rq_session rq = Some (u_ID user)"
  shows "fst (newRouter B R rq (s\<lparr>sv_world := mc_world m'\<rparr>)) = reply 500 NoBody
    \<and> resp_Status (fst (newRouter B R rq (closeAll (s\<lparr>sv_world := mc_world m'\<rparr>)))) = 200"
proof -
  let ?u = "u_ID user" and ?w = "mc_world m'" and ?E = "be_penv B"
  have inv: "server_inv s" using assms(1,2) by (blast intro: server_reach_inv)
  have u: "?u \<noteq> []" "p_userID p = ?u" using server_invD(1) [OF inv assms(4)] by auto
  obtain row where row: "db_accounts (w_db ?w) = db_accounts (sv_db s) @ [row]" "a_UserID row = ?u" "a_ID row = GenerateID (ce_id C)"
      "db_faults (w_db ?w) = []" "tenant_ok (w_db ?w)"
    by (rule cli_add_row [OF _ _ _ assms(8) add(2)]) (use server_invD(2) [OF inv] assms(3,7) in \<open>simp_all add: add(1) sv_db_def\<close>)
  have route: "newRouter B R rq = handleListAccounts B R ?u" using rq u(1) by (simp add: newRouter_def requireSession_def fun_eq_iff)
  have "ListAccountStatus ?E p ?w = (Inl (PPanic ''nil pointer dereference''), ?w)"
    by (rule unknown_row_panics [of row]) (use row u assms(5) in simp_all)
  then have "fst (newRouter B R rq (s\<lparr>sv_world := ?w\<rparr>)) = reply 500 NoBody"
    using assms(4) by (simp add: route handleListAccounts_def s_pool_def cache_get_def fail_reply_def is_panic_def)
  moreover have "resp_Status (fst (newRouter B R rq (closeAll (s\<lparr>sv_world := ?w\<rparr>)))) = 200"
  proof -
    have okd: "db_ok (w_db ?w)" using row(5) by (simp add: tenant_ok_def)
    show ?thesis using okd row(4)
    proof (cases rule: portal_open_current [where B = B and u = ?u])
      case (opens q)
      have "\<exists>sts. ListAccountStatus ?E q ?w = (Inr sts, ?w)"
        using list_account_status [of q ?w ?E] pool_current_sync [OF opens(2) okd] row(4) u opens(3) by auto
      with opens(1) show ?thesis
        by (auto simp: route handleListAccounts_def s_pool_def cache_get_def closeAll_def sv_db_def with_db_def reply_def)
    qed (use assms(6) u in auto)
  qed
  ultimately show ?thesis by simp
qed


subsection \<open>Witnesses\<close>

definition exact_penv :: "mem_drive penv" where
  "exact_penv = toy_penv\<lparr>e_mcfg := toy_mcfg\<lparr>m_marshal := (\<lambda>t. if t = Some toy_token then Inr [123, 125] else Inl ''unsupported'')\<rparr>\<rparr>"

definition exact_benv :: "mem_drive benv" where
  "exact_benv = toy_benv\<lparr>be_penv := exact_penv\<rparr>"

definition ordered_renv :: "int \<Rightarrow> renv" where
  "ordered_renv now = (toy_renv now)\<lparr>re_put := toy_pe\<lparr>pe_order := to_nat\<rparr>\<rparr>"

lemma exact_json: "json_ok (e_mcfg (be_penv exact_benv))"
  by (simp add: json_ok_def exact_benv_def exact_penv_def toy_mcfg_def)

theorem cache_transparent_witness:
  "\<exists>rs s s0. portal_run exact_benv [Request (ordered_renv 7) (toy_request ''GET'' ''/api/accounts'' (Some ''u'')), Tick 8,
        Request (ordered_renv 9) (toy_request ''POST'' ''/api/files'' (Some ''u''))] toy_boot = (rs, s)
     \<and> uncached_run exact_benv [Request (ordered_renv 7) (toy_request ''GET'' ''/api/accounts'' (Some ''u'')), Tick 8,
        Request (ordered_renv 9) (toy_request ''POST'' ''/api/files'' (Some ''u''))] toy_boot = (rs, s0)
     \<and> length rs = 2 \<and> sv_world s0 = sv_world s"
proof -
  let ?es = "[Request (ordered_renv 7) (toy_request ''GET'' ''/api/accounts'' (Some ''u'')), Tick 8,
    Request (ordered_renv 9) (toy_request ''POST'' ''/api/files'' (Some ''u''))]"
  obtain rs s where run: "portal_run exact_benv ?es toy_boot = (rs, s)" by (metis surj_pair)
  have "\<forall>R rq. Request R rq \<in> set ?es \<longrightarrow> inj (pe_order (re_put R))" by (auto simp: ordered_renv_def)
  from cache_transparent [OF toy_tenant_ok2 _ exact_json this run [unfolded toy_boot_def]] run
  show ?thesis by (auto simp: toy_boot_def split_def Let_def)
qed

lemma toy_cli_add: "\<exists>out m'. newAccountAddCmd toy_cli ''home'' toy_machine = (Inr out, m')"
proof -
  have i: "length (GenerateID toy_rnd) \<noteq> length ''A''" by (simp add: GenerateID_def)
  then have id_ne: "GenerateID toy_rnd \<noteq> ''A''" "''A'' \<noteq> GenerateID toy_rnd" by metis+
  have q: "\<exists>q. rs_Quota toy_rs (toy_drives 0) = Inr q"
    using toy_live_quota(1) [of "''A''" 0] unfolding live_quota_def by (auto simp: toy_acc_def split: sum.splits)
  have l: "checkLabelAvailable toy_penv (toy_pool\<lparr>p_ChunkSize := 0\<rparr>) ''home'' toy_db2 = (None, toy_db2)"
    by (simp add: checkLabelAvailable_def m_GetAccount_eq) (simp add: toy_db2_def toy_row_def toy_account_def sql_first_def)
  have f: "RunConsentFlow (ce_listen toy_cli) (ce_exchange toy_cli) (ce_state toy_cli) (ce_event toy_cli) = Inr toy_token"
    by (simp add: RunConsentFlow_def toy_cli_def randomState_def)
  have "\<exists>a p' w'. finishAddAccount toy_penv toy_rnd toy_rnd 5 ''home'' toy_token (toy_pool\<lparr>p_ChunkSize := 0\<rparr>) toy_world = (Inr a, p', w')"
    using q id_ne
    by (auto simp: finishAddAccount_def toy_penv_def toy_token_def m_AddAccount_def encryptToken_def toy_mcfg_def
        encrypt_buffer_eq aes_key_ok_def query_def sql_insert_account_def toy_db2_def toy_row_def toy_account_def
        toy_user_def m_UpdateAccountQuota_def scoped_def sql_update_accounts_def Let_def m_err_def toy_world_def toy_pool_def)
  moreover have "ce_id toy_cli = toy_rnd" "ce_iv toy_cli = toy_rnd" "ce_now toy_cli = 5" "mc_world toy_machine = toy_world"
    by (simp_all add: toy_cli_def toy_machine_def)
  moreover have w: "toy_world\<lparr>w_db := toy_db2\<rparr> = toy_world" by (simp add: toy_world_def)
  ultimately show ?thesis using l f by (auto simp: w newAccountAddCmd_def with_pool_def toy_openPool AddAccount_def)
qed

theorem cli_add_breaks_cached_pool_witness:
  "\<exists>out m'. newAccountAddCmd toy_cli ''home'' toy_machine = (Inr out, m')
     \<and> fst (newRouter toy_benv (toy_renv 9) (toy_request ''GET'' ''/api/accounts'' (Some ''u''))
          (toy_served\<lparr>sv_world := mc_world m'\<rparr>)) = reply 500 NoBody"
proof -
  obtain out m' where add: "newAccountAddCmd toy_cli ''home'' toy_machine = (Inr out, m')" using toy_cli_add by blast
  have u: "u_ID (toy_user ''u'') = ''u''" "u_Username (toy_user ''u'') = cli_flag (ce_environ toy_cli) (ce_userFlag toy_cli) ''RHINO_USER''"
    "toy_user ''u'' \<in> set (db_users (sv_db toy_served))" "db_faults (sv_db toy_served) = []" "mc_world toy_machine = sv_world toy_served"
    by (simp_all add: toy_user_def toy_cli_def cli_flag_def toy_served_def toy_boot_def sv_db_def toy_machine_def)
      (simp add: toy_db2_def toy_user_def)
  have "GenerateID (ce_id toy_cli) \<noteq> ''A''" by (simp add: GenerateID_other)
  then have p: "map_of (sv_pools toy_served) (u_ID (toy_user ''u'')) = Some (toy_pool\<lparr>p_ChunkSize := 0\<rparr>, 7)"
    "map_of (p_accounts (toy_pool\<lparr>p_ChunkSize := 0\<rparr>)) (GenerateID (ce_id toy_cli)) = None"
    by (simp_all add: toy_served_def u(1) toy_pool_def)
  have "loads toy_benv"
    by (simp add: loads_def toy_benv_def LoadClientConfig_def os_ReadFile_def os_Stat_def path_of_def push_comp_def)
  from cli_add_breaks_cached_pool [OF toy_tenant_ok2 toy_served_reach u(4) p this u(3,2,5) add,
      of "toy_request ''GET'' ''/api/accounts'' (Some ''u'')" "toy_renv 9"] add
  show ?thesis by (auto simp: toy_request_def u(1))
qed

end
