(* ===== verification/Test_Support.thy ===== *)
theory Test_Support
  imports Serve
begin

text \<open>
  The helpers the repository keeps outside its test files because tests of several packages share
  them: \<open>db/dbtest\<close>, one connection for a test binary and one transaction per test, and the two
  constructors of \<open>drivepool/testing.go\<close> and \<open>backend/testing.go\<close> that take their parts ready-made.
\<close>

subsection \<open>db/dbtest\<close>

text \<open>The package variables; \<open>ts_once\<close> tells whether \<open>connOnce\<close> has fired.\<close>
record test_state =
  ts_once :: bool
  ts_conn :: "gorm_conn option"
  ts_connErr :: "string option"

definition ts_init :: test_state where
  "ts_init = \<lparr>ts_once = False, ts_conn = None, ts_connErr = None\<rparr>"

text \<open>\<open>Inl\<close> is \<open>t.Fatalf\<close>.\<close>
definition sharedConn :: "dbms \<Rightarrow> environ \<Rightarrow> string \<Rightarrow> test_state \<Rightarrow> (string, gorm_conn option) result \<times> test_state" where
  "sharedConn D env dsn st =
     (let st1 = (if ts_once st then st
                 else (case Migrate D dsn of
                     Some e \<Rightarrow> st\<lparr>ts_once := True, ts_connErr := Some e\<rparr>
                   | None \<Rightarrow> (case db_Open D env dsn of
                       Inl e \<Rightarrow> st\<lparr>ts_once := True, ts_conn := None, ts_connErr := Some e\<rparr>
                     | Inr c \<Rightarrow> st\<lparr>ts_once := True, ts_conn := Some c, ts_connErr := None\<rparr>)))
      in (case ts_connErr st1 of Some e \<Rightarrow> Inl e | None \<Rightarrow> Inr (ts_conn st1), st1))"

datatype 'r outcome = Skipped | Fatal string | Ran 'r

text \<open>
  A test that asks for a transaction. What it writes is rolled back when it ends; the sequences that
  number rows are not, because a Postgres sequence is outside of every transaction.
\<close>
definition OpenTx :: "dbms \<Rightarrow> environ \<Rightarrow> (db \<Rightarrow> 'r \<times> db) \<Rightarrow> db \<Rightarrow> test_state \<Rightarrow> 'r outcome \<times> db \<times> test_state" where
  "OpenTx D env test d st = (let dsn = env ''DATABASE_URL'' in
     if dsn = [] then (Skipped, d, st)
     else (case sharedConn D env dsn st of
         (Inl e, st1) \<Rightarrow> (Fatal e, d, st1)
       | (Inr tx, st1) \<Rightarrow> (case test d of (r, d1) \<Rightarrow>
           (Ran r, d\<lparr>db_vfseq := db_vfseq d1, db_chunkseq := db_chunkseq d1, db_faults := db_faults d1\<rparr>, st1))))"

definition TokenKey :: bytes where
  "TokenKey = replicate 32 0"

subsection \<open>drivepool/testing.go and backend/testing.go\<close>

definition NewPoolForTesting :: "string \<Rightarrow> (string \<times> account) list \<Rightarrow> pool" where
  "NewPoolForTesting userID accounts =
     \<lparr>p_userID = userID, p_accounts = accounts, p_ChunkSize = 0, p_MaxParallelUploads = 0\<rparr>"

text \<open>The configuration and the state of the server; \<open>now\<close> is the time of the call.\<close>
definition NewTestServer :: "int \<Rightarrow> string \<Rightarrow> pool \<Rightarrow> bytes \<Rightarrow> 'd world \<Rightarrow> config \<times> 'd server" where
  "NewTestServer now userID p sessionSecret w =
     (\<lparr>cf_DatabaseURL = [], cf_TokenEncryptionKey = [], cf_ClientSecretPath = [], cf_SessionSecret = sessionSecret,
       cf_SessionSecure = False, cf_PublicURL = ''http://localhost:8080''\<rparr>,
      \<lparr>sv_world = w, sv_pools = [(userID, p, now)], sv_pending = []\<rparr>)"

subsection \<open>What the tests can rely on\<close>

lemma sharedConn_once: "sharedConn D env dsn st = (r, st1) \<Longrightarrow> sharedConn D' env' dsn' st1 = (r, st1)"
  by (auto simp: sharedConn_def Let_def split: option.splits sum.splits if_splits)

lemma TokenKey_ok: "aes_key_ok TokenKey"
  by (simp add: TokenKey_def aes_key_ok_def)

text \<open>The pool a test server is built around is the one its user's requests act on, and it is never opened.\<close>
lemma test_server_pool:
  "cache_get B t userID (snd (NewTestServer now userID p secret w)) = (Inr p, (snd (NewTestServer now userID p secret w))\<lparr>sv_pools := [(userID, p, t)]\<rparr>)"
  by (simp add: cache_get_def NewTestServer_def)

fun run_tests :: "dbms \<Rightarrow> environ \<Rightarrow> (db \<Rightarrow> 'r \<times> db) list \<Rightarrow> db \<Rightarrow> test_state \<Rightarrow> 'r outcome list \<times> db \<times> test_state" where
  "run_tests D env [] d st = ([], d, st)"
| "run_tests D env (t # ts) d st = (case OpenTx D env t d st of (r, d1, st1) \<Rightarrow>
     (case run_tests D env ts d1 st1 of (rs, d2, st2) \<Rightarrow> (r # rs, d2, st2)))"

text \<open>
  Whatever tests run before, a test starts on the tables the database had at the beginning, and the
  tables are the same after the last one; only the sequences show that tests have run.
\<close>
lemma run_tests_isolated:
  assumes "run_tests D env ts d st = (rs, d', st')"
  shows "db_users d' = db_users d \<and> db_accounts d' = db_accounts d \<and> db_vfiles d' = db_vfiles d \<and> db_chunks d' = db_chunks d"
  using assms
proof (induction ts arbitrary: d st rs d' st')
  case (Cons t ts)
  obtain r d1 st1 where o: "OpenTx D env t d st = (r, d1, st1)" by (metis prod_cases3)
  obtain rs2 d2 st2 where rest: "run_tests D env ts d1 st1 = (rs2, d2, st2)" by (metis prod_cases3)
  have "db_users d1 = db_users d \<and> db_accounts d1 = db_accounts d \<and> db_vfiles d1 = db_vfiles d \<and> db_chunks d1 = db_chunks d"
    using o by (auto simp: OpenTx_def Let_def split: if_splits prod.splits sum.splits)
  with Cons.IH [OF rest] Cons.prems o rest show ?case by simp
qed simp

end
