(* ===== verification/P2P.thy ===== *)
theory P2P
  imports Storage_Store "HOL-Library.AList"
begin

text \<open>
  The peer-to-peer nodes: the TCP transport of \<open>p2p/\<close> (decoder, peers, read loop) and the file server
  of \<open>server.go\<close>. A node is its store, its peers and the channel of received messages. A peer is a
  connection: the segments that have arrived and were not read yet, the bytes sent, and the
  \<open>WaitGroup\<close> with which the read loop waits for a stream to be consumed. What the network does
  (when bytes arrive and how they are cut into segments) is left to the environment; the encoding
  of messages by \<open>encoding/gob\<close> is a parameter.
\<close>

subsection \<open>p2p/message.go and p2p/encoding.go\<close>

definition IncomingMessage :: byte where
  "IncomingMessage = 1"

definition IncomingStream :: byte where
  "IncomingStream = 2"

record rpc =
  rpc_From :: string
  rpc_Payload :: bytes
  rpc_Stream :: bool

definition empty_rpc :: rpc where
  "empty_rpc = \<lparr>rpc_From = [], rpc_Payload = [], rpc_Stream = False\<rparr>"

text \<open>\<open>DefaultDecoder.Decode\<close>: an error of the first read is swallowed, and the message is what one read returns.\<close>
definition DefaultDecoder_Decode :: "reader \<Rightarrow> rpc \<Rightarrow> (ioerr option \<times> rpc) \<times> reader" where
  "DefaultDecoder_Decode r msg = (case rd_read 1 r of
     ((b, Some e), r1) \<Rightarrow> ((None, msg), r1)
   | ((b, None), r1) \<Rightarrow>
      (if b = [IncomingStream] then ((None, msg\<lparr>rpc_Stream := True\<rparr>), r1)
       else (case rd_read 1028 r1 of
           ((p, Some e), r2) \<Rightarrow> ((Some e, msg), r2)
         | ((p, None), r2) \<Rightarrow> ((None, msg\<lparr>rpc_Payload := p\<rparr>), r2))))"

subsection \<open>p2p/tcp\_transport.go\<close>

datatype phase = ReadLoop | Sending rpc | WaitStream | Dropped

record peer =
  pr_outbound :: bool
  pr_conn :: reader  \<comment> \<open>what has arrived and was not read\<close>
  pr_eof :: bool  \<comment> \<open>the other side has closed the connection\<close>
  pr_up :: bool  \<comment> \<open>writes are accepted\<close>
  pr_out :: bytes  \<comment> \<open>what was sent\<close>
  pr_wg :: int
  pr_phase :: phase  \<comment> \<open>where the read loop of the connection is\<close>

definition NewTCPPeer :: "reader \<Rightarrow> bool \<Rightarrow> peer" where
  "NewTCPPeer conn outbound = \<lparr>pr_outbound = outbound, pr_conn = conn, pr_eof = False, pr_up = True, pr_out = [],
     pr_wg = 0, pr_phase = ReadLoop\<rparr>"

text \<open>\<open>WaitGroup.Done\<close> panics below zero: \<open>None\<close>.\<close>
definition CloseStream :: "peer \<Rightarrow> peer option" where
  "CloseStream p = (if pr_wg p - 1 < 0 then None else Some (p\<lparr>pr_wg := pr_wg p - 1\<rparr>))"

definition Send :: "bytes \<Rightarrow> peer \<Rightarrow> ioerr option \<times> peer" where
  "Send b p = (if pr_up p then (None, p\<lparr>pr_out := pr_out p @ b\<rparr>) else (Some (ErrIO ''use of closed network connection''), p))"

subsection \<open>server.go: state\<close>

datatype payload = MessageStoreFile string string int | MessageGetFile string string

record gob =
  gob_Encode :: "payload \<Rightarrow> bytes"
  gob_Decode :: "bytes \<Rightarrow> payload option"

text \<open>What the program relies on of gob: a message decodes to what was encoded, and it fits into one read.\<close>
definition gob_carries :: "gob \<Rightarrow> payload \<Rightarrow> bool" where
  "gob_carries G m \<longleftrightarrow> gob_Decode G (gob_Encode G m) = Some m \<and> gob_Encode G m \<noteq> [] \<and> length (gob_Encode G m) \<le> 1028"

record file_server =
  nd_ID :: string
  nd_EncKey :: bytes
  nd_store :: store
  nd_fs :: fs
  nd_peers :: "(string \<times> peer) list"  \<comment> \<open>keyed by the remote address\<close>
  nd_rpcch :: "rpc list"

definition NewFileServer :: "entropy \<Rightarrow> string \<Rightarrow> bytes \<Rightarrow> string \<Rightarrow> (string \<Rightarrow> path_key) option \<Rightarrow> fs \<Rightarrow> file_server" where
  "NewFileServer rnd i encKey root ptf F =
     \<lparr>nd_ID = (if length i = 0 then GenerateID rnd else i), nd_EncKey = encKey, nd_store = NewStore root ptf, nd_fs = F,
      nd_peers = [], nd_rpcch = []\<rparr>"

datatype nerr =
    NStore oserr | NSend ioerr | NCrypt crypt_err | NCopy ioerr
  | NMissing string | NNoPeer string
  | NPanic string
  | NBlocked  \<comment> \<open>the call waits for bytes that have not arrived\<close>

definition set_peer :: "string \<Rightarrow> peer \<Rightarrow> file_server \<Rightarrow> file_server" where
  "set_peer addr p n = n\<lparr>nd_peers := AList.update addr p (nd_peers n)\<rparr>"

definition OnPeer :: "string \<Rightarrow> peer \<Rightarrow> file_server \<Rightarrow> file_server" where
  "OnPeer addr p n = set_peer addr p n"

text \<open>\<open>handleConn\<close> up to its read loop: the handshake may refuse the connection.\<close>
definition handleConn_start :: "ioerr option \<Rightarrow> string \<Rightarrow> bool \<Rightarrow> file_server \<Rightarrow> file_server" where
  "handleConn_start handshake addr outbound n = (case handshake of
     Some e \<Rightarrow> n
   | None \<Rightarrow> OnPeer addr (NewTCPPeer (mk_reader []) outbound) n)"

text \<open>The connection delivers segments.\<close>
definition deliver :: "string \<Rightarrow> bytes list \<Rightarrow> file_server \<Rightarrow> file_server" where
  "deliver addr segs n = (case map_of (nd_peers n) addr of
     None \<Rightarrow> n
   | Some p \<Rightarrow> set_peer addr (p\<lparr>pr_conn := (pr_conn p)\<lparr>rsegs := rsegs (pr_conn p) @ segs\<rparr>\<rparr>) n)"

text \<open>Whether \<open>Decode\<close> returns with what has arrived.\<close>
definition decode_ready :: "peer \<Rightarrow> bool" where
  "decode_ready p \<longleftrightarrow> pr_eof p \<or> (rsegs (pr_conn p) \<noteq> []
     \<and> (case rd_read 1 (pr_conn p) of ((b, e), r1) \<Rightarrow> b = [IncomingStream] \<or> rsegs r1 \<noteq> []))"

text \<open>
  One step of the read loop of \<open>handleConn\<close>: decode, then queue the message or wait for the stream
  to be consumed. The channel holds 1024 messages: when it is full the loop holds the message it has
  decoded until there is room. A waiting loop resumes when the counter of the peer is zero.
\<close>
definition read_loop :: "string \<Rightarrow> file_server \<Rightarrow> file_server" where
  "read_loop addr n = (case map_of (nd_peers n) addr of
     None \<Rightarrow> n
   | Some p \<Rightarrow>
      (case pr_phase p of
         Dropped \<Rightarrow> n
       | WaitStream \<Rightarrow> if pr_wg p = 0 then set_peer addr (p\<lparr>pr_phase := ReadLoop\<rparr>) n else n
       | Sending m \<Rightarrow> if 1024 \<le> length (nd_rpcch n) then n
           else (set_peer addr (p\<lparr>pr_phase := ReadLoop\<rparr>) n)\<lparr>nd_rpcch := nd_rpcch n @ [m]\<rparr>
       | ReadLoop \<Rightarrow>
          (if \<not> decode_ready p then n
           else (case DefaultDecoder_Decode (pr_conn p) empty_rpc of
               ((Some e, m), r) \<Rightarrow> set_peer addr (p\<lparr>pr_conn := r, pr_up := False, pr_phase := Dropped\<rparr>) n
             | ((None, m), r) \<Rightarrow>
                (if rpc_Stream m then set_peer addr (p\<lparr>pr_conn := r, pr_wg := pr_wg p + 1, pr_phase := WaitStream\<rparr>) n
                 else if 1024 \<le> length (nd_rpcch n) then set_peer addr (p\<lparr>pr_conn := r, pr_phase := Sending (m\<lparr>rpc_From := addr\<rparr>)\<rparr>) n
                 else (set_peer addr (p\<lparr>pr_conn := r\<rparr>) n)\<lparr>nd_rpcch := nd_rpcch n @ [m\<lparr>rpc_From := addr\<rparr>]\<rparr>)))))"

subsection \<open>io.LimitReader and binary\<close>

fun limit_segs :: "nat \<Rightarrow> bytes list \<Rightarrow> bytes list \<times> bytes list" where
  "limit_segs n [] = ([], [])"
| "limit_segs n (s # ss) =
     (if n = 0 then ([], s # ss)
      else if length s \<le> n then (let (a, b) = limit_segs (n - length s) ss in (s # a, b))
      else ([take n s], drop n s # ss))"

text \<open>\<open>io.LimitReader(r, n)\<close> and what is left of \<open>r\<close> once it is exhausted.\<close>
definition limit_reader :: "int \<Rightarrow> reader \<Rightarrow> reader \<times> reader" where
  "limit_reader n r = (let (a, b) = limit_segs (nat n) (rsegs r) in
     (\<lparr>rsegs = a, rfail = (if length (concat a) < nat n then rfail r else None)\<rparr>, r\<lparr>rsegs := b\<rparr>))"

definition le64 :: "int \<Rightarrow> bytes" where
  "le64 n = map (\<lambda>i. word_of_int (n div 2 ^ (8 * i))) [0..<8]"

definition un_le64 :: "bytes \<Rightarrow> int" where
  "un_le64 b = i64 (\<Sum>i < 8. uint (b ! i) * 2 ^ (8 * i))"

text \<open>Whether a read of so many bytes returns.\<close>
definition arrived :: "int \<Rightarrow> peer \<Rightarrow> bool" where
  "arrived n p \<longleftrightarrow> pr_eof p \<or> nat n \<le> length (content (pr_conn p))"

subsection \<open>server.go: sending\<close>

text \<open>The loop of \<open>broadcast\<close>: the error of the marker byte is ignored, that of the message is not.\<close>
fun broadcast_to :: "bytes \<Rightarrow> string list \<Rightarrow> file_server \<Rightarrow> ioerr option \<times> file_server" where
  "broadcast_to buf [] n = (None, n)"
| "broadcast_to buf (addr # addrs) n = (case map_of (nd_peers n) addr of
     None \<Rightarrow> broadcast_to buf addrs n
   | Some p \<Rightarrow> (case Send buf (snd (Send [IncomingMessage] p)) of
       (Some e, p') \<Rightarrow> (Some e, set_peer addr p' n)
     | (None, p') \<Rightarrow> broadcast_to buf addrs (set_peer addr p' n)))"

definition broadcast :: "gob \<Rightarrow> map_order \<Rightarrow> payload \<Rightarrow> file_server \<Rightarrow> ioerr option \<times> file_server" where
  "broadcast G rank msg n = broadcast_to (gob_Encode G msg) (map_iter rank (map fst (nd_peers n))) n"

text \<open>A write to \<open>io.MultiWriter\<close> stops at the first peer that fails.\<close>
fun mw_Write :: "bytes \<Rightarrow> string list \<Rightarrow> file_server \<Rightarrow> ioerr option \<times> file_server" where
  "mw_Write b [] n = (None, n)"
| "mw_Write b (addr # addrs) n = (case map_of (nd_peers n) addr of
     None \<Rightarrow> mw_Write b addrs n
   | Some p \<Rightarrow> (case Send b p of
       (Some e, p') \<Rightarrow> (Some e, set_peer addr p' n)
     | (None, p') \<Rightarrow> mw_Write b addrs (set_peer addr p' n)))"

text \<open>\<open>CopyEncrypt\<close> into the peers: the IV is the first write, after which a connection that was up stays up.\<close>
definition encrypt_to_peers :: "prims \<Rightarrow> entropy \<Rightarrow> bytes \<Rightarrow> string list \<Rightarrow> file_server \<Rightarrow> nerr option \<times> file_server" where
  "encrypt_to_peers P rnd buf addrs n = (case CopyEncrypt P rnd (nd_EncKey n) (bytes_reader buf) empty_buffer of
     (Inl e, r, w) \<Rightarrow> (Some (NCrypt e), n)
   | (Inr k, r, w) \<Rightarrow> (case mw_Write (take aes_block_size (wout w)) addrs n of
       (Some e, n1) \<Rightarrow> (Some (NCrypt (CryptIO e)), n1)
     | (None, n1) \<Rightarrow> (case mw_Write (drop aes_block_size (wout w)) addrs n1 of
         (Some e, n2) \<Rightarrow> (Some (NCrypt (CryptIO e)), n2) | (None, n2) \<Rightarrow> (None, n2))))"

text \<open>\<open>nap\<close> is what happens to the node while \<open>Store\<close> or \<open>Get\<close> sleeps.\<close>
definition server_Store ::
  "prims \<Rightarrow> gob \<Rightarrow> map_order \<Rightarrow> map_order \<Rightarrow> entropy \<Rightarrow> (file_server \<Rightarrow> file_server) \<Rightarrow> string \<Rightarrow> reader \<Rightarrow> file_server
     \<Rightarrow> nerr option \<times> file_server"
where
  "server_Store P G rank rank' rnd nap key r n = (case store_Write (nd_store n) (nd_ID n) key r (nd_fs n) of
     (Inl e, F) \<Rightarrow> (Some (NStore e), n\<lparr>nd_fs := F\<rparr>)
   | (Inr sz, F) \<Rightarrow>
      (case broadcast G rank (MessageStoreFile (nd_ID n) (HashKey P key) (i64 (sz + 16))) (n\<lparr>nd_fs := F\<rparr>) of
         (Some e, n1) \<Rightarrow> (Some (NSend e), n1)
       | (None, n1) \<Rightarrow>
          (let n2 = nap n1; addrs = map_iter rank' (map fst (nd_peers n2)) in
           encrypt_to_peers P rnd (content r) addrs (snd (mw_Write [IncomingStream] addrs n2)))))"

subsection \<open>server.go: receiving\<close>

text \<open>\<open>got\<close> is how much of the stream a copy that failed half-way had read.\<close>
definition consume :: "int \<Rightarrow> peer \<Rightarrow> peer" where
  "consume k p = p\<lparr>pr_conn := snd (limit_reader k (pr_conn p))\<rparr>"

definition close_stream :: "string \<Rightarrow> peer \<Rightarrow> file_server \<Rightarrow> nerr option \<times> file_server" where
  "close_stream addr p n = (case CloseStream p of
     None \<Rightarrow> (Some (NPanic ''sync: negative WaitGroup counter''), set_peer addr p n)
   | Some p' \<Rightarrow> (None, set_peer addr p' n))"

definition handleMessageStoreFile :: "int \<Rightarrow> string \<Rightarrow> string \<Rightarrow> string \<Rightarrow> int \<Rightarrow> file_server \<Rightarrow> nerr option \<times> file_server" where
  "handleMessageStoreFile got from i key sz n = (case map_of (nd_peers n) from of
     None \<Rightarrow> (Some (NNoPeer from), n)
   | Some p \<Rightarrow>
      (if \<not> arrived sz p then (Some NBlocked, n)
       else (case store_Write (nd_store n) i key (fst (limit_reader sz (pr_conn p))) (nd_fs n) of
           (Inl e, F) \<Rightarrow> (Some (NStore e), set_peer from (consume (min got sz) p) (n\<lparr>nd_fs := F\<rparr>))
         | (Inr k, F) \<Rightarrow> close_stream from (consume sz p) (n\<lparr>nd_fs := F\<rparr>))))"

definition handleMessageGetFile :: "string \<Rightarrow> string \<Rightarrow> string \<Rightarrow> file_server \<Rightarrow> nerr option \<times> file_server" where
  "handleMessageGetFile from i key n =
     (if \<not> store_Has (nd_store n) i key (nd_fs n) then (Some (NMissing key), n)
      else (case store_Read (nd_store n) i key (nd_fs n) of
          Inl e \<Rightarrow> (Some (NStore e), n)
        | Inr (fileSize, r) \<Rightarrow> (case map_of (nd_peers n) from of
            None \<Rightarrow> (Some (NNoPeer from), n)
          | Some p \<Rightarrow>
             (let p1 = snd (Send (le64 fileSize) (snd (Send [IncomingStream] p))) in
              if content r = [] then (if end_err r = EOF then None else Some (NCopy (end_err r)), set_peer from p1 n)
              else (case Send (content r) p1 of
                  (Some e, p2) \<Rightarrow> (Some (NCopy e), set_peer from p2 n)
                | (None, p2) \<Rightarrow> (if end_err r = EOF then None else Some (NCopy (end_err r)), set_peer from p2 n))))))"

definition handleMessage :: "int \<Rightarrow> string \<Rightarrow> payload option \<Rightarrow> file_server \<Rightarrow> nerr option \<times> file_server" where
  "handleMessage got from msg n = (case msg of
     None \<Rightarrow> (None, n)
   | Some (MessageStoreFile i key sz) \<Rightarrow> handleMessageStoreFile got from i key sz n
   | Some (MessageGetFile i key) \<Rightarrow> handleMessageGetFile from i key n)"

text \<open>One round of \<open>loop\<close>: an undecodable message is handled as an empty one, errors are logged.\<close>
definition server_loop :: "gob \<Rightarrow> int \<Rightarrow> file_server \<Rightarrow> nerr option \<times> file_server" where
  "server_loop G got n = (case nd_rpcch n of
     [] \<Rightarrow> (None, n)
   | rpc # rest \<Rightarrow> handleMessage got (rpc_From rpc) (gob_Decode G (rpc_Payload rpc)) (n\<lparr>nd_rpcch := rest\<rparr>))"

subsection \<open>server.go: fetching\<close>

text \<open>The loop of \<open>Get\<close> over the peers; \<open>binary.Read\<close> leaves the size at zero when it fails.\<close>
fun fetch_from :: "prims \<Rightarrow> int \<Rightarrow> string \<Rightarrow> string list \<Rightarrow> file_server \<Rightarrow> nerr option \<times> file_server" where
  "fetch_from P got key [] n = (None, n)"
| "fetch_from P got key (addr # addrs) n = (case map_of (nd_peers n) addr of
     None \<Rightarrow> fetch_from P got key addrs n
   | Some p \<Rightarrow>
      (let (b, r) = io_ReadFull 8 (pr_conn p); p1 = p\<lparr>pr_conn := r\<rparr>;
           fileSize = (case b of Inl e \<Rightarrow> 0 | Inr bs \<Rightarrow> un_le64 bs) in
       if \<not> arrived 8 p \<or> \<not> arrived fileSize p1 then (Some NBlocked, n)
       else (case store_WriteDecrypt P (nd_EncKey n) (nd_store n) (nd_ID n) key (fst (limit_reader fileSize r)) (nd_fs n) of
           ((Inl e, r'), F) \<Rightarrow> (Some (NStore e), set_peer addr (consume (min got fileSize) p1) (n\<lparr>nd_fs := F\<rparr>))
         | ((Inr k, r'), F) \<Rightarrow> (case close_stream addr (consume fileSize p1) (n\<lparr>nd_fs := F\<rparr>) of
             (Some e, n1) \<Rightarrow> (Some e, n1) | (None, n1) \<Rightarrow> fetch_from P got key addrs n1))))"

definition local_read :: "string \<Rightarrow> file_server \<Rightarrow> (nerr, reader) result" where
  "local_read key n = (case store_Read (nd_store n) (nd_ID n) key (nd_fs n) of Inl e \<Rightarrow> Inl (NStore e) | Inr (k, r) \<Rightarrow> Inr r)"

definition server_Get ::
  "prims \<Rightarrow> gob \<Rightarrow> map_order \<Rightarrow> map_order \<Rightarrow> int \<Rightarrow> (file_server \<Rightarrow> file_server) \<Rightarrow> string \<Rightarrow> file_server
     \<Rightarrow> (nerr, reader) result \<times> file_server"
where
  "server_Get P G rank rank' got nap key n =
     (if store_Has (nd_store n) (nd_ID n) key (nd_fs n) then (local_read key n, n)
      else (case broadcast G rank (MessageGetFile (nd_ID n) (HashKey P key)) n of
          (Some e, n1) \<Rightarrow> (Inl (NSend e), n1)
        | (None, n1) \<Rightarrow>
           (let n2 = nap n1 in
            case fetch_from P got key (map_iter rank' (map fst (nd_peers n2))) n2 of
              (Some e, n3) \<Rightarrow> (Inl e, n3) | (None, n3) \<Rightarrow> (local_read key n3, n3))))"

end
