(* ===== verification/P2P_Replication.thy ===== *)
theory P2P_Replication
  imports P2P
begin

text \<open>
  What the peer-to-peer nodes guarantee: a stored file reaches every peer encrypted, and a node that
  lost it gets it back, provided the read loops and the handlers of a connection alternate as the
  sleeps in the code intend; and what happens when they do not, when a peer does not have the
  file, and when a connection is closed.
\<close>

subsection \<open>Limits and lengths\<close>

lemma limit_segs_content: "concat (fst (limit_segs n ss)) = take n (concat ss)" "concat (snd (limit_segs n ss)) = drop n (concat ss)"
  by (induction n ss rule: limit_segs.induct) (auto simp: Let_def case_prod_beta)

lemma limit_segs_all: "[] \<notin> set ss \<Longrightarrow> limit_segs (length (concat ss)) ss = (ss, [])"
  by (induction ss) auto

lemma limit_reader_content:
  "content (fst (limit_reader n r)) = take (nat n) (content r)" "content (snd (limit_reader n r)) = drop (nat n) (content r)"
  using limit_segs_content [of "nat n" "rsegs r"] by (simp_all add: limit_reader_def content_def Let_def case_prod_beta)

lemma limit_reader_all:
  assumes "[] \<notin> set (rsegs r)" "n = int (length (content r))"
  shows "limit_reader n r = (\<lparr>rsegs = rsegs r, rfail = None\<rparr>, r\<lparr>rsegs := []\<rparr>)"
  using limit_segs_all [OF assms(1)] assms(2) by (simp add: limit_reader_def content_def)

lemma read_full_exact: "[] \<notin> set ss \<Longrightarrow> read_full (length (concat ss)) (ss @ body) = (concat ss, body)"
proof (induction ss)
  case Nil
  then show ?case by (cases body) simp_all
qed auto

lemma le64_digits: "(\<Sum>i < k. (n div 2 ^ (8 * i)) mod 256 * 2 ^ (8 * i)) = (n::int) mod 2 ^ (8 * k)"
proof (induction k)
  case (Suc k)
  have "n mod 2 ^ (8 * Suc k) = n mod (2 ^ (8 * k) * 256)" by (simp add: power_add mult.commute)
  also have "\<dots> = 2 ^ (8 * k) * (n div 2 ^ (8 * k) mod 256) + n mod 2 ^ (8 * k)" by (rule zmod_zmult2_eq) simp
  finally show ?case using Suc by (simp add: mult.commute)
qed simp

lemma length_le64 [simp]: "length (le64 n) = 8"
  by (simp add: le64_def)

lemma un_le64_le64: "0 \<le> n \<Longrightarrow> n \<le> max_i64 \<Longrightarrow> un_le64 (le64 n) = n"
proof -
  assume n: "0 \<le> n" "n \<le> max_i64"
  have "(\<Sum>i < 8. uint (le64 n ! i) * 2 ^ (8 * i)) = (\<Sum>i < 8. (n div 2 ^ (8 * i)) mod 256 * 2 ^ (8 * i))"
    by (rule sum.cong) (simp_all add: le64_def uint_word_of_int)
  also have "\<dots> = n mod 2 ^ 64" using le64_digits [where k = 8] by simp
  also have "\<dots> = n" using n by (simp add: max_i64_def)
  finally show ?thesis using n by (simp add: un_le64_def i64_id in_i64_def)
qed

subsection \<open>Sending to every peer\<close>

definition all_up :: "file_server \<Rightarrow> bool" where
  "all_up n \<longleftrightarrow> distinct (map fst (nd_peers n)) \<and> (\<forall>(a, p) \<in> set (nd_peers n). pr_up p)"

lemma all_up_fs [simp]: "all_up (n\<lparr>nd_fs := F\<rparr>) = all_up n"
  by (simp add: all_up_def)

text \<open>A node all of whose peers have been sent the same bytes.\<close>
definition sent :: "bytes \<Rightarrow> file_server \<Rightarrow> file_server" where
  "sent b n = n\<lparr>nd_peers := map (\<lambda>(a, p). (a, p\<lparr>pr_out := pr_out p @ b\<rparr>)) (nd_peers n)\<rparr>"

lemma sent_sent [simp]: "sent b (sent a n) = sent (a @ b) n"
  by (simp add: sent_def comp_def case_prod_beta)

lemma sent_sel [simp]:
  "nd_ID (sent b n) = nd_ID n" "nd_EncKey (sent b n) = nd_EncKey n" "nd_store (sent b n) = nd_store n" "nd_fs (sent b n) = nd_fs n"
  "nd_rpcch (sent b n) = nd_rpcch n" "map fst (nd_peers (sent b n)) = map fst (nd_peers n)" "all_up (sent b n) = all_up n"
  "sent b (n\<lparr>nd_fs := F\<rparr>) = (sent b n)\<lparr>nd_fs := F\<rparr>"
  by (auto simp: sent_def all_up_def comp_def case_prod_beta)

lemma sent_lookup: "map_of (nd_peers (sent b n)) a = map_option (\<lambda>p. p\<lparr>pr_out := pr_out p @ b\<rparr>) (map_of (nd_peers n) a)"
proof -
  have "map_of (map (\<lambda>(a, p). (a, p\<lparr>pr_out := pr_out p @ b\<rparr>)) m) a = map_option (\<lambda>p. p\<lparr>pr_out := pr_out p @ b\<rparr>) (map_of m a)"
    for m :: "(string \<times> peer) list" by (induction m) auto
  then show ?thesis by (simp add: sent_def)
qed

lemma update_map_if:
  assumes "distinct (map fst m)" "map_of m a = Some p"
  shows "AList.update a (f p) m = map (\<lambda>(k, q). (k, if k = a then f p else q)) m"
  using assms
proof (induction m)
  case (Cons x m)
  have "map (\<lambda>(k, q). (k, if k = a then f p else q)) m = m" if "a \<notin> fst ` set m"
    using that by (induction m) auto
  with Cons show ?case by (cases x) (auto simp: rev_image_eqI)
qed simp

text \<open>Writing to the peers one after the other gives each of the remaining ones the bytes.\<close>
lemma mw_Write_peers:
  assumes "all_up n" "distinct addrs" "set addrs \<subseteq> set (map fst (nd_peers n))"
  shows "mw_Write b addrs n = (None, n\<lparr>nd_peers := map (\<lambda>(a, p). (a, if a \<in> set addrs then p\<lparr>pr_out := pr_out p @ b\<rparr> else p)) (nd_peers n)\<rparr>)"
  using assms
proof (induction addrs arbitrary: n)
  case Nil
  then show ?case by (simp add: case_prod_beta)
next
  case (Cons a addrs)
  have d: "distinct (map fst (nd_peers n))" using Cons.prems(1) by (simp add: all_up_def)
  from Cons.prems(3) obtain p where "(a, p) \<in> set (nd_peers n)" by auto
  then have p: "map_of (nd_peers n) a = Some p" "pr_up p" using d Cons.prems(1) by (auto simp: all_up_def)
  let ?f = "\<lambda>p. p\<lparr>pr_out := pr_out p @ b\<rparr>"
  let ?n = "n\<lparr>nd_peers := map (\<lambda>(k, q). (k, if k = a then ?f q else q)) (nd_peers n)\<rparr>"
  have eq: "map (\<lambda>(k, q). (k, if k = a then ?f p else q)) (nd_peers n) = map (\<lambda>(k, q). (k, if k = a then ?f q else q)) (nd_peers n)"
    using p(1) map_of_is_SomeI [OF d] by fastforce
  have s: "set_peer a (?f p) n = ?n" using update_map_if [OF d p(1), of ?f] eq by (simp add: set_peer_def)
  have "all_up ?n" "set addrs \<subseteq> set (map fst (nd_peers ?n))"
    using Cons.prems by (auto simp: all_up_def comp_def case_prod_beta split: if_splits)
  from Cons.IH [OF this(1) _ this(2)] Cons.prems(2) p s show ?case
    by (auto simp: Send_def comp_def case_prod_beta)
qed

lemma mw_Write_all:
  assumes "all_up n"
  shows "mw_Write b (map_iter rank (map fst (nd_peers n))) n = (None, sent b n)"
proof -
  have "distinct (map_iter rank (map fst (nd_peers n)))" using assms by (simp add: map_iter_def all_up_def distinct_sort)
  moreover have "map (\<lambda>(a, p). (a, if a \<in> set (map fst (nd_peers n)) then p\<lparr>pr_out := pr_out p @ b\<rparr> else p)) (nd_peers n)
      = map (\<lambda>(a, p). (a, p\<lparr>pr_out := pr_out p @ b\<rparr>)) (nd_peers n)" by (rule map_cong) force+
  ultimately show ?thesis using mw_Write_peers [OF assms, of "map_iter rank (map fst (nd_peers n))" b] by (simp add: sent_def)
qed

lemma broadcast_to_eq: "all_up n \<Longrightarrow> broadcast_to buf addrs n = mw_Write (IncomingMessage # buf) addrs n"
proof (induction addrs arbitrary: n)
  case (Cons a addrs)
  show ?case
  proof (cases "map_of (nd_peers n) a")
    case (Some p)
    then have up: "pr_up p" using Cons.prems by (auto simp: all_up_def dest: map_of_SomeD)
    have "all_up (set_peer a (p\<lparr>pr_out := pr_out p @ IncomingMessage # buf\<rparr>) n)"
      using Cons.prems up Some update_map_if [of "nd_peers n" a p "\<lambda>p. p\<lparr>pr_out := pr_out p @ IncomingMessage # buf\<rparr>"]
      by (auto simp: all_up_def set_peer_def comp_def case_prod_beta)
    from Cons.IH [OF this] Some up show ?thesis by (simp add: Send_def)
  qed (use Cons in simp)
qed simp

lemma broadcast_all: "all_up n \<Longrightarrow> broadcast G rank msg n = (None, sent (IncomingMessage # gob_Encode G msg) n)"
  by (simp add: broadcast_def broadcast_to_eq mw_Write_all)

subsection \<open>Blobs on disk\<close>

lemma cas_put:
  assumes "cas_good P S sid F" "end_err r = EOF"
  obtains F' where "store_Write S sid key r F = (Inr (int (length (content r))), F')" "cas_good P S sid F'"
    "get_blob S sid key F' = Some (content r)"
proof -
  have g: "is_cas P S" "cas_state (node_dir S sid) (fs_nodes F)" "fs_cap F = None" using assms(1) by (auto simp: cas_good_def)
  obtain F' where F': "store_Write S sid key r F = (Inr (int (length (content r))), F')" "cas_state (node_dir S sid) (fs_nodes F')"
    "fs_cap F' = None" "fs_nodes F' (path_of (full_path S sid key)) = Some (File (content r))"
    using cas_write [OF g assms(2)] by blast
  moreover have "get_blob S sid key F' = Some (content r)" using get_blob_tree [OF cas_state_tree [OF F'(2)]] F'(4) by simp
  ultimately show thesis using that g by (simp add: cas_good_def)
qed

lemma blob_read:
  assumes "get_blob S sid key F = Some b"
  shows "store_Read S sid key F = Inr (int (length b), bytes_reader b)" "store_Has S sid key F"
  using assms by (auto simp: get_blob_def store_Read_def readStream_def store_Has_def end_err_def split: sum.splits node.splits)

text \<open>A successful decryption into a file leaves what writing the plaintext would have left.\<close>
lemma cas_put_decrypt:
  assumes "cas_good P S sid F" "decrypt_buffer P k r = Inr b"
  obtains x r' F' where "store_WriteDecrypt P k S sid key r F = ((Inr x, r'), F')" "cas_good P S sid F'" "get_blob S sid key F' = Some b"
proof -
  obtain m r' w where c: "CopyDecrypt P k r empty_buffer = (Inr m, r', w)" "wout w = b"
    using assms(2) by (auto simp: decrypt_buffer_def split: sum.splits prod.splits)
  have cap: "fs_cap F = None" using assms(1) by (simp add: cas_good_def)
  obtain F' where F': "store_Write S sid key (bytes_reader b) F = (Inr (int (length b)), F')" "cas_good P S sid F'" "get_blob S sid key F' = Some b"
    using cas_put [OF assms(1), of "bytes_reader b" key] by auto
  then have "store_WriteDecrypt P k S sid key r F = ((Inr (int m), r'), F')"
    using c cap by (auto simp: store_WriteDecrypt_def store_Write_def writeStream_def io_Copy_def empty_buffer_def
        split: prod.splits sum.splits)
  with F' that show thesis by blast
qed

subsection \<open>Store\<close>

lemma CopyEncrypt_sealed:
  "encrypt_buffer P k rnd b = Inr c \<Longrightarrow> \<exists>x r w. CopyEncrypt P rnd k (bytes_reader b) empty_buffer = (Inr x, r, w) \<and> wout w = c"
  by (auto simp: encrypt_buffer_def split: sum.splits prod.splits)

lemma server_Store_sends:
  assumes "cas_good P (nd_store n) (nd_ID n) (nd_fs n)" "end_err r = EOF" "all_up n"
    and enc: "encrypt_buffer P (nd_EncKey n) rnd (content r) = Inr sealed" and len: "int (length (content r)) + 16 \<le> max_i64"
  obtains F' where "server_Store P G rank rank' rnd (\<lambda>n. n) key r n =
      (None, (sent (IncomingMessage # gob_Encode G (MessageStoreFile (nd_ID n) (HashKey P key) (int (length sealed))) @ IncomingStream # sealed) n)\<lparr>nd_fs := F'\<rparr>)"
    "cas_good P (nd_store n) (nd_ID n) F'" "get_blob (nd_store n) (nd_ID n) key F' = Some (content r)"
proof -
  obtain F' where F': "store_Write (nd_store n) (nd_ID n) key r (nd_fs n) = (Inr (int (length (content r))), F')"
    "cas_good P (nd_store n) (nd_ID n) F'" "get_blob (nd_store n) (nd_ID n) key F' = Some (content r)"
    by (rule cas_put [OF assms(1,2)])
  have l: "int (length sealed) = int (length (content r)) + 16" using aes_ctr.enc_length [OF enc] by simp
  then have i: "i64 (int (length (content r)) + 16) = int (length sealed)" using len by (simp add: i64_id in_i64_def)
  obtain x q w where c: "CopyEncrypt P rnd (nd_EncKey n) (bytes_reader (content r)) empty_buffer = (Inr x, q, w)" "wout w = sealed"
    using CopyEncrypt_sealed [OF enc] by blast
  let ?g = "gob_Encode G (MessageStoreFile (nd_ID n) (HashKey P key) (int (length sealed)))"
  define n1 where "n1 = (sent (IncomingMessage # ?g) n)\<lparr>nd_fs := F'\<rparr>"
  have up: "all_up (n\<lparr>nd_fs := F'\<rparr>)" using assms(3) by simp
  have b: "broadcast G rank (MessageStoreFile (nd_ID n) (HashKey P key) (int (length sealed))) (n\<lparr>nd_fs := F'\<rparr>) = (None, n1)"
    using broadcast_all [OF up] by (simp add: n1_def)
  have up1: "all_up n1" using assms(3) by (simp add: n1_def)
  have w1: "mw_Write [IncomingStream] (map_iter rank' (map fst (nd_peers n1))) n1 = (None, sent [IncomingStream] n1)"
    by (rule mw_Write_all [OF up1])
  have "encrypt_to_peers P rnd (content r) (map_iter rank' (map fst (nd_peers n1))) (sent [IncomingStream] n1) = (None, sent (IncomingStream # sealed) n1)"
    using c up1 mw_Write_all [of "sent [IncomingStream] n1" _ rank'] mw_Write_all [of "sent (IncomingStream # take aes_block_size sealed) n1" _ rank']
    by (simp add: encrypt_to_peers_def n1_def)
  with F' b w1 i have "server_Store P G rank rank' rnd (\<lambda>n. n) key r n = (None, sent (IncomingStream # sealed) n1)"
    by (simp add: server_Store_def)
  also have "\<dots> = (None, (sent (IncomingMessage # ?g @ IncomingStream # sealed) n)\<lparr>nd_fs := F'\<rparr>)"
    by (simp add: n1_def sent_def comp_def case_prod_beta)
  finally show thesis using that F' by blast
qed

subsection \<open>Receiving\<close>

text \<open>How the two writes of a message may arrive: together or one after the other.\<close>
definition framed :: "bytes \<Rightarrow> bytes list \<Rightarrow> bool" where
  "framed g fr \<longleftrightarrow> fr = [IncomingMessage # g] \<or> fr = [[IncomingMessage], g]"

lemma marker_ne [simp]: "IncomingMessage \<noteq> IncomingStream" "IncomingStream \<noteq> IncomingMessage"
  by (simp_all add: IncomingMessage_def IncomingStream_def)

lemma set_peer_sel [simp]:
  "nd_ID (set_peer a p n) = nd_ID n" "nd_EncKey (set_peer a p n) = nd_EncKey n" "nd_store (set_peer a p n) = nd_store n"
  "nd_fs (set_peer a p n) = nd_fs n" "nd_rpcch (set_peer a p n) = nd_rpcch n"
  "map_of (nd_peers (set_peer a p n)) = (map_of (nd_peers n))(a \<mapsto> p)"
  "set_peer a p' (set_peer a p n) = set_peer a p' n"
  by (simp_all add: set_peer_def update_conv')

lemma read_message:
  assumes "map_of (nd_peers n) a = Some p" "pr_phase p = ReadLoop" "rsegs (pr_conn p) = fr @ rest" "framed g fr" "g \<noteq> []"
    and "length g \<le> 1028" "length (nd_rpcch n) < 1024"
  shows "read_loop a n = (set_peer a (p\<lparr>pr_conn := (pr_conn p)\<lparr>rsegs := rest\<rparr>\<rparr>) n)
    \<lparr>nd_rpcch := nd_rpcch n @ [\<lparr>rpc_From = a, rpc_Payload = g, rpc_Stream = False\<rparr>]\<rparr>"
proof -
  have "rd_read 1 (pr_conn p) = (([IncomingMessage], None), (pr_conn p)\<lparr>rsegs := g # rest\<rparr>)"
    using assms(3-5) by (auto simp: framed_def rd_read_def)
  moreover have "rd_read 1028 ((pr_conn p)\<lparr>rsegs := g # rest\<rparr>) = ((g, None), (pr_conn p)\<lparr>rsegs := rest\<rparr>)"
    using assms(6) by (simp add: rd_read_def)
  moreover have "fr @ rest \<noteq> []" using assms(4) by (auto simp: framed_def)
  ultimately show ?thesis
    using assms(1-3,7) by (simp add: read_loop_def DefaultDecoder_Decode_def decode_ready_def empty_rpc_def)
qed

lemma read_marker:
  assumes "map_of (nd_peers n) a = Some p" "pr_phase p = ReadLoop" "rsegs (pr_conn p) = (IncomingStream # t) # us" "length (nd_rpcch n) < 1024"
  shows "read_loop a n = set_peer a (p\<lparr>pr_conn := (pr_conn p)\<lparr>rsegs := if t = [] then us else t # us\<rparr>,
    pr_wg := pr_wg p + 1, pr_phase := WaitStream\<rparr>) n"
proof -
  have "rd_read 1 (pr_conn p) = (([IncomingStream], None), (pr_conn p)\<lparr>rsegs := if t = [] then us else t # us\<rparr>)"
    using assms(3) by (simp add: rd_read_def)
  then show ?thesis using assms by (simp add: read_loop_def DefaultDecoder_Decode_def decode_ready_def empty_rpc_def)
qed

lemma read_stream:
  assumes "map_of (nd_peers n) a = Some p" "pr_phase p = ReadLoop" "concat (rsegs (pr_conn p)) = IncomingStream # x"
    and "[] \<notin> set (rsegs (pr_conn p))" "length (nd_rpcch n) < 1024"
  obtains ss where "[] \<notin> set ss" "concat ss = x"
    "read_loop a n = set_peer a (p\<lparr>pr_conn := (pr_conn p)\<lparr>rsegs := ss\<rparr>, pr_wg := pr_wg p + 1, pr_phase := WaitStream\<rparr>) n"
proof -
  obtain t us where segs: "rsegs (pr_conn p) = (IncomingStream # t) # us"
    using assms(3,4) by (cases "rsegs (pr_conn p)") (auto simp: append_eq_Cons_conv)
  have "[] \<notin> set (if t = [] then us else t # us)" "concat (if t = [] then us else t # us) = x" using assms(3,4) segs by auto
  with read_marker [OF assms(1,2) segs assms(5)] that show thesis by blast
qed

text \<open>A connection on which nothing is pending and no stream is open.\<close>
definition quiet :: "peer \<Rightarrow> bool" where
  "quiet p \<longleftrightarrow> pr_phase p = ReadLoop \<and> pr_wg p = 0 \<and> rsegs (pr_conn p) = [] \<and> rfail (pr_conn p) = None \<and> pr_up p"

lemma deliver_quiet:
  "map_of (nd_peers n) a = Some p \<Longrightarrow> quiet p \<Longrightarrow>
    deliver a segs n = set_peer a (p\<lparr>pr_conn := (pr_conn p)\<lparr>rsegs := segs\<rparr>\<rparr>) n"
  by (simp add: deliver_def quiet_def)

text \<open>
  A peer that receives a store message and the stream that follows it, decodes both before it
  handles the message, and ends with the stream on disk and a quiet connection.
\<close>
lemma peer_stores:
  assumes p: "map_of (nd_peers n) a = Some p" "quiet p" "nd_rpcch n = []"
    and m: "m = MessageStoreFile i k (int (length x))" "gob_carries G m" "framed (gob_Encode G m) fr"
    and body: "concat body = IncomingStream # x" "[] \<notin> set body" and cas: "cas_good P (nd_store n) i (nd_fs n)"
  obtains F' where "server_loop G got (read_loop a (read_loop a (deliver a (fr @ body) n))) =
      (None, set_peer a (p\<lparr>pr_phase := WaitStream\<rparr>) (n\<lparr>nd_fs := F'\<rparr>))"
    "cas_good P (nd_store n) i F'" "get_blob (nd_store n) i k F' = Some x"
proof -
  let ?g = "gob_Encode G m" and ?c = "\<lambda>segs. (pr_conn p)\<lparr>rsegs := segs\<rparr>"
  have g: "?g \<noteq> []" "length ?g \<le> 1028" "gob_Decode G ?g = Some m" using m(2) by (simp_all add: gob_carries_def)
  have q: "pr_phase p = ReadLoop" "pr_wg p = 0" "rsegs (pr_conn p) = []" "rfail (pr_conn p) = None" using p(2) by (simp_all add: quiet_def)
  define n1 where "n1 = (set_peer a (p\<lparr>pr_conn := ?c body\<rparr>) n)\<lparr>nd_rpcch := [\<lparr>rpc_From = a, rpc_Payload = ?g, rpc_Stream = False\<rparr>]\<rparr>"
  have r1: "read_loop a (deliver a (fr @ body) n) = n1"
    unfolding deliver_quiet [OF p(1,2)] n1_def
    using read_message [of "set_peer a (p\<lparr>pr_conn := ?c (fr @ body)\<rparr>) n" a "p\<lparr>pr_conn := ?c (fr @ body)\<rparr>" fr body ?g] m(3) g q p(3) by simp
  obtain ss where ss: "[] \<notin> set ss" "concat ss = x"
    "read_loop a n1 = set_peer a (p\<lparr>pr_conn := ?c ss, pr_wg := 1, pr_phase := WaitStream\<rparr>) n1"
    by (rule read_stream [of n1 a "p\<lparr>pr_conn := ?c body\<rparr>" x]) (use body q in \<open>simp_all add: n1_def\<close>)
  let ?p = "p\<lparr>pr_conn := ?c ss, pr_wg := 1, pr_phase := WaitStream\<rparr>"
  have lim: "limit_reader (int (length x)) (?c ss) = (\<lparr>rsegs = ss, rfail = None\<rparr>, ?c [])"
    using limit_reader_all [of "?c ss" "int (length x)"] ss by (simp add: content_def)
  have ct: "content \<lparr>rsegs = ss, rfail = None\<rparr> = x" "end_err \<lparr>rsegs = ss, rfail = None\<rparr> = EOF"
    using ss(2) by (simp_all add: content_def end_err_def)
  obtain F' where F': "store_Write (nd_store n) i k \<lparr>rsegs = ss, rfail = None\<rparr> (nd_fs n) = (Inr (int (length x)), F')"
    "cas_good P (nd_store n) i F'" "get_blob (nd_store n) i k F' = Some x"
    using cas_put [OF cas ct(2), of k] unfolding ct(1) by blast
  have "?c [] = pr_conn p" using q(3) by (cases "pr_conn p") simp
  then have p': "p\<lparr>pr_phase := WaitStream, pr_conn := ?c [], pr_wg := 0\<rparr> = p\<lparr>pr_phase := WaitStream\<rparr>" using q by (cases p) simp
  define n2 where "n2 = (set_peer a ?p n1)\<lparr>nd_rpcch := []\<rparr>"
  have sel: "map_of (nd_peers n2) a = Some ?p" "nd_store n2 = nd_store n" "nd_fs n2 = nd_fs n" by (simp_all add: n2_def n1_def)
  have "handleMessageStoreFile got a i k (int (length x)) n2 = close_stream a (consume (int (length x)) ?p) (n2\<lparr>nd_fs := F'\<rparr>)"
    using F'(1) lim ss(2) by (simp add: handleMessageStoreFile_def sel arrived_def content_def)
  also have "\<dots> = (None, set_peer a (p\<lparr>pr_phase := WaitStream\<rparr>) (n2\<lparr>nd_fs := F'\<rparr>))"
    using lim p' by (simp add: close_stream_def CloseStream_def consume_def)
  also have "set_peer a (p\<lparr>pr_phase := WaitStream\<rparr>) (n2\<lparr>nd_fs := F'\<rparr>) = set_peer a (p\<lparr>pr_phase := WaitStream\<rparr>) (n\<lparr>nd_fs := F'\<rparr>)"
    using p(3) by (cases n) (simp add: n2_def n1_def set_peer_def)
  finally have "server_loop G got (read_loop a n1) = (None, set_peer a (p\<lparr>pr_phase := WaitStream\<rparr>) (n\<lparr>nd_fs := F'\<rparr>))"
    unfolding ss(3) using g(3) by (simp add: server_loop_def n1_def n2_def handleMessage_def m(1))
  with r1 F' that show thesis by simp
qed

lemma resume: "map_of (nd_peers n) a = Some p \<Longrightarrow> pr_phase p = WaitStream \<Longrightarrow> pr_wg p = 0 \<Longrightarrow>
    read_loop a n = set_peer a (p\<lparr>pr_phase := ReadLoop\<rparr>) n"
  by (simp add: read_loop_def)

text \<open>A peer that has the file answers a get message with the marker, the size and the file.\<close>
lemma peer_serves:
  assumes p: "map_of (nd_peers n) a = Some p" "quiet p" "nd_rpcch n = []"
    and m: "m = MessageGetFile i k" "gob_carries G m" "framed (gob_Encode G m) fr"
    and blob: "get_blob (nd_store n) i k (nd_fs n) = Some x"
  shows "server_loop G got (read_loop a (deliver a fr n)) =
    (None, set_peer a (p\<lparr>pr_out := pr_out p @ IncomingStream # le64 (int (length x)) @ x\<rparr>) n)"
proof -
  let ?g = "gob_Encode G m" and ?c = "\<lambda>segs. (pr_conn p)\<lparr>rsegs := segs\<rparr>"
  have g: "?g \<noteq> []" "length ?g \<le> 1028" "gob_Decode G ?g = Some m" using m(2) by (simp_all add: gob_carries_def)
  have q: "pr_phase p = ReadLoop" "rsegs (pr_conn p) = []" "pr_up p" using p(2) by (simp_all add: quiet_def)
  have c: "p\<lparr>pr_conn := ?c []\<rparr> = p" using q(2) by (cases p; cases "pr_conn p") simp
  define n1 where "n1 = set_peer a p n"
  have r1: "read_loop a (deliver a fr n) = n1\<lparr>nd_rpcch := [\<lparr>rpc_From = a, rpc_Payload = ?g, rpc_Stream = False\<rparr>]\<rparr>"
    unfolding deliver_quiet [OF p(1,2)] n1_def
    using read_message [of "set_peer a (p\<lparr>pr_conn := ?c fr\<rparr>) n" a "p\<lparr>pr_conn := ?c fr\<rparr>" fr "[]" ?g] m(3) g q p(3) c by simp
  define n2 where "n2 = n1\<lparr>nd_rpcch := []\<rparr>"
  have sel: "map_of (nd_peers n2) a = Some p" "nd_store n2 = nd_store n" "nd_fs n2 = nd_fs n" by (simp_all add: n2_def n1_def)
  have "handleMessageGetFile a i k n2 = (None, set_peer a (p\<lparr>pr_out := pr_out p @ IncomingStream # le64 (int (length x)) @ x\<rparr>) n2)"
    using blob_read [OF blob] q(3) by (simp add: handleMessageGetFile_def sel Send_def Let_def)
  also have "set_peer a q n2 = set_peer a q n" for q
    using p(3) by (cases n) (simp add: n2_def n1_def set_peer_def)
  finally show ?thesis unfolding r1 using g(3) by (simp add: server_loop_def n2_def handleMessage_def m(1))
qed

subsection \<open>Get\<close>

text \<open>How the answer of a peer may arrive: header and body, the IV in one piece.\<close>
definition answered :: "bytes \<Rightarrow> bytes list \<Rightarrow> bool" where
  "answered x segs \<longleftrightarrow> (\<exists>hdr body. segs = hdr @ body \<and> concat hdr = IncomingStream # le64 (int (length x)) \<and> concat body = x
     \<and> [] \<notin> set segs \<and> body \<noteq> [] \<and> 16 \<le> length (hd body))"

lemma server_Get_restores:
  assumes A: "nd_peers n = [(b, p)]" "quiet p" "nd_rpcch n = []" "cas_good P (nd_store n) (nd_ID n) (nd_fs n)"
      "\<not> store_Has (nd_store n) (nd_ID n) key (nd_fs n)"
    and enc: "encrypt_buffer P (nd_EncKey n) rnd d = Inr x" "int (length x) \<le> max_i64" and ans: "answered x segs"
    and nap: "nap = (\<lambda>n. read_loop b (deliver b segs n))"
  obtains F' where "server_Get P G rank rank' got nap key n = (Inr (bytes_reader d),
      (sent (IncomingMessage # gob_Encode G (MessageGetFile (nd_ID n) (HashKey P key))) (set_peer b (p\<lparr>pr_phase := WaitStream\<rparr>) n))\<lparr>nd_fs := F'\<rparr>)"
    "get_blob (nd_store n) (nd_ID n) key F' = Some d"
proof -
  let ?w = "IncomingMessage # gob_Encode G (MessageGetFile (nd_ID n) (HashKey P key))"
  obtain hdr body where segs: "segs = hdr @ body" "concat hdr = IncomingStream # le64 (int (length x))" "concat body = x"
    "[] \<notin> set (hdr @ body)" "body \<noteq> []" "16 \<le> length (hd body)" using ans by (auto simp: answered_def)
  have q: "pr_phase p = ReadLoop" "pr_wg p = 0" "rsegs (pr_conn p) = []" "rfail (pr_conn p) = None" "pr_up p"
    using A(2) by (simp_all add: quiet_def)
  have up: "all_up n" using A(1) q(5) by (simp add: all_up_def)
  define p1 where "p1 = p\<lparr>pr_out := pr_out p @ ?w\<rparr>"
  have n1: "sent ?w n = n\<lparr>nd_peers := [(b, p1)]\<rparr>" using A(1) by (simp add: sent_def p1_def)
  have q1: "quiet p1" "map_of (nd_peers (n\<lparr>nd_peers := [(b, p1)]\<rparr>)) b = Some p1" using A(2) by (simp_all add: p1_def quiet_def)
  let ?c = "\<lambda>segs. (pr_conn p)\<lparr>rsegs := segs\<rparr>"
  have "[] \<notin> set hdr" using segs(4) by simp
  then obtain t us where hdr: "hdr = (IncomingStream # t) # us" using segs(2) by (cases hdr) (auto simp: append_eq_Cons_conv)
  define hdr' where "hdr' = (if t = [] then us else t # us)"
  have h': "concat hdr' = le64 (int (length x))" "[] \<notin> set hdr'" using segs(2,4) hdr by (auto simp: hdr'_def)
  define p2 where "p2 = p1\<lparr>pr_conn := ?c (hdr' @ body), pr_wg := 1, pr_phase := WaitStream\<rparr>"
  define n2 where "n2 = set_peer b p2 (n\<lparr>nd_peers := [(b, p1)]\<rparr>)"
  have napped: "nap (n\<lparr>nd_peers := [(b, p1)]\<rparr>) = n2"
    unfolding nap deliver_quiet [OF q1(2,1)] n2_def p2_def
    using read_marker [of "set_peer b (p1\<lparr>pr_conn := (pr_conn p1)\<lparr>rsegs := segs\<rparr>\<rparr>) (n\<lparr>nd_peers := [(b, p1)]\<rparr>)" b
        "p1\<lparr>pr_conn := (pr_conn p1)\<lparr>rsegs := segs\<rparr>\<rparr>" t "us @ body"] q A(3) segs(1) hdr
    by (simp add: p1_def hdr'_def)
  have n2: "nd_peers n2 = [(b, p2)]" "nd_store n2 = nd_store n" "nd_fs n2 = nd_fs n" "nd_ID n2 = nd_ID n" "nd_EncKey n2 = nd_EncKey n"
    by (simp_all add: n2_def set_peer_def)
  have rf: "io_ReadFull 8 (pr_conn p2) = (Inr (le64 (int (length x))), ?c body)"
    using read_full_exact [OF h'(2), of body] h'(1) by (simp add: io_ReadFull_def p2_def)
  have sz: "un_le64 (le64 (int (length x))) = int (length x)" using enc(2) by (simp add: un_le64_le64)
  have bx: "content (?c body) = x" using segs(3) by (simp add: content_def)
  have arr: "arrived 8 p2" "arrived (int (length x)) (p2\<lparr>pr_conn := ?c body\<rparr>)"
    using h'(1) bx by (simp_all add: arrived_def p2_def content_def)
  have lim: "limit_reader (int (length x)) (?c body) = (\<lparr>rsegs = body, rfail = None\<rparr>, ?c [])"
    using limit_reader_all [of "?c body" "int (length x)"] segs(4) bx by simp
  have "decrypt_buffer P (nd_EncKey n) \<lparr>rsegs = body, rfail = None\<rparr> = Inr d"
    using aes_ctr.dec_enc [OF enc(1), of "\<lparr>rsegs = body, rfail = None\<rparr>" "hd body" "tl body"] segs(3,5,6)
    by (simp add: content_def end_err_def)
  then obtain k r' F' where F': "store_WriteDecrypt P (nd_EncKey n) (nd_store n) (nd_ID n) key \<lparr>rsegs = body, rfail = None\<rparr> (nd_fs n) = ((Inr k, r'), F')"
    "cas_good P (nd_store n) (nd_ID n) F'" "get_blob (nd_store n) (nd_ID n) key F' = Some d"
    by (rule cas_put_decrypt [OF A(4)])
  define n3 where "n3 = (sent ?w (set_peer b (p\<lparr>pr_phase := WaitStream\<rparr>) n))\<lparr>nd_fs := F'\<rparr>"
  have "?c [] = pr_conn p" using q(3) by (cases "pr_conn p") simp
  then have "set_peer b (p2\<lparr>pr_conn := ?c [], pr_wg := 0\<rparr>) (n2\<lparr>nd_fs := F'\<rparr>) = n3"
    using q A(1) by (cases p; cases n) (simp add: n3_def n2_def p2_def p1_def set_peer_def sent_def)
  then have cs: "close_stream b (consume (int (length x)) (p2\<lparr>pr_conn := ?c body\<rparr>)) (n2\<lparr>nd_fs := F'\<rparr>) = (None, n3)"
    using lim by (simp add: close_stream_def CloseStream_def consume_def p2_def)
  have "fetch_from P got key [b] n2 = (None, n3)"
    using F'(1) rf sz arr lim cs by (simp add: n2)
  moreover have "local_read key n3 = Inr (bytes_reader d)"
    using blob_read(1) [OF F'(3)] by (simp add: local_read_def n3_def)
  moreover have "map_iter rank' [b] = [b]" by (simp add: map_iter_def)
  ultimately have "server_Get P G rank rank' got nap key n = (Inr (bytes_reader d), n3)"
    using A(5) broadcast_all [OF up] n1 napped n2(1) by (simp add: server_Get_def)
  with that F'(3) n3_def show thesis by blast
qed

subsection \<open>Properties\<close>

lemma quiet_out [simp]: "quiet (p\<lparr>pr_out := x\<rparr>) = quiet p"
  by (simp add: quiet_def)


text \<open>
  C40. The sleeps are load-bearing: if the message is handled before the read loop of its connection
  has taken the marker of the stream, the file is stored shifted by that byte and the handler
  closes a stream that was never opened, which panics.
\<close>
theorem handler_before_marker:
  assumes p: "map_of (nd_peers n) a = Some p" "quiet p" "nd_rpcch n = []"
    and m: "m = MessageStoreFile i k (int (length x))" "gob_carries G m" "framed (gob_Encode G m) fr"
    and body: "concat body = IncomingStream # x" and cas: "cas_good P (nd_store n) i (nd_fs n)"
  shows "\<exists>n'. server_loop G got (read_loop a (deliver a (fr @ body) n)) = (Some (NPanic ''sync: negative WaitGroup counter''), n')
    \<and> get_blob (nd_store n) i k (nd_fs n') = Some (take (length x) (IncomingStream # x))"
proof -
  let ?g = "gob_Encode G m" and ?c = "\<lambda>segs. (pr_conn p)\<lparr>rsegs := segs\<rparr>"
  have g: "?g \<noteq> []" "length ?g \<le> 1028" "gob_Decode G ?g = Some m" using m(2) by (simp_all add: gob_carries_def)
  have q: "pr_phase p = ReadLoop" "pr_wg p = 0" "rsegs (pr_conn p) = []" "rfail (pr_conn p) = None" using p(2) by (simp_all add: quiet_def)
  define n1 where "n1 = set_peer a (p\<lparr>pr_conn := ?c body\<rparr>) n"
  have r1: "read_loop a (deliver a (fr @ body) n) = n1\<lparr>nd_rpcch := [\<lparr>rpc_From = a, rpc_Payload = ?g, rpc_Stream = False\<rparr>]\<rparr>"
    unfolding deliver_quiet [OF p(1,2)] n1_def
    using read_message [of "set_peer a (p\<lparr>pr_conn := ?c (fr @ body)\<rparr>) n" a "p\<lparr>pr_conn := ?c (fr @ body)\<rparr>" fr body ?g] m(3) g q p(3) by simp
  let ?lim = "fst (limit_reader (int (length x)) (?c body))"
  have ct: "content ?lim = take (length x) (IncomingStream # x)" "end_err ?lim = EOF"
    using limit_reader_content(1) [of "int (length x)" "?c body"] body q(4)
    by (auto simp: content_def end_err_def limit_reader_def Let_def case_prod_beta)
  obtain F' where F': "store_Write (nd_store n) i k ?lim (nd_fs n) = (Inr (int (length (content ?lim))), F')"
    "get_blob (nd_store n) i k F' = Some (content ?lim)"
    by (rule cas_put [OF cas ct(2)])
  define n2 where "n2 = n1\<lparr>nd_rpcch := []\<rparr>"
  have sel: "map_of (nd_peers n2) a = Some (p\<lparr>pr_conn := ?c body\<rparr>)" "nd_store n2 = nd_store n" "nd_fs n2 = nd_fs n" by (simp_all add: n2_def n1_def)
  have "handleMessageStoreFile got a i k (int (length x)) n2 =
      close_stream a (consume (int (length x)) (p\<lparr>pr_conn := ?c body\<rparr>)) (n2\<lparr>nd_fs := F'\<rparr>)"
    using F'(1) body by (simp add: handleMessageStoreFile_def sel arrived_def content_def)
  also have "\<dots> = (Some (NPanic ''sync: negative WaitGroup counter''), set_peer a (consume (int (length x)) (p\<lparr>pr_conn := ?c body\<rparr>)) (n2\<lparr>nd_fs := F'\<rparr>))"
    using q(2) by (simp add: close_stream_def CloseStream_def consume_def)
  finally show ?thesis unfolding r1 using g(3) F'(2) ct(1) by (simp add: server_loop_def n2_def handleMessage_def m(1))
qed

text \<open>
  A request for a file a connected peer does not have never returns: the peer answers nothing,
  and \<open>Get\<close> waits for the size of a file that will not come.
\<close>
theorem get_waits_for_missing:
  assumes A: "nd_peers A = [(b, pA)]" "quiet pA" "\<not> pr_eof pA" "\<not> store_Has (nd_store A) (nd_ID A) key (nd_fs A)"
    and B: "map_of (nd_peers B) a = Some pB" "quiet pB" "nd_rpcch B = []" "\<not> store_Has (nd_store B) (nd_ID A) (HashKey P key) (nd_fs B)"
    and mg: "mg = MessageGetFile (nd_ID A) (HashKey P key)" "gob_carries G mg" "framed (gob_Encode G mg) fr"
  shows "server_loop G got (read_loop a (deliver a fr B)) = (Some (NMissing (HashKey P key)), set_peer a pB B)
    \<and> fst (server_Get P G rank rank' got (\<lambda>n. n) key A) = Inl NBlocked"
proof
  let ?g = "gob_Encode G mg" and ?c = "\<lambda>segs. (pr_conn pB)\<lparr>rsegs := segs\<rparr>"
  have g: "?g \<noteq> []" "length ?g \<le> 1028" "gob_Decode G ?g = Some mg" using mg(2) by (simp_all add: gob_carries_def)
  have q: "pr_phase pB = ReadLoop" "rsegs (pr_conn pB) = []" using B(2) by (simp_all add: quiet_def)
  have c: "pB\<lparr>pr_conn := ?c []\<rparr> = pB" using q(2) by (cases pB; cases "pr_conn pB") simp
  have r1: "read_loop a (deliver a fr B) = (set_peer a pB B)\<lparr>nd_rpcch := [\<lparr>rpc_From = a, rpc_Payload = ?g, rpc_Stream = False\<rparr>]\<rparr>"
    unfolding deliver_quiet [OF B(1,2)]
    using read_message [of "set_peer a (pB\<lparr>pr_conn := ?c fr\<rparr>) B" a "pB\<lparr>pr_conn := ?c fr\<rparr>" fr "[]" ?g] mg(3) g q B(3) c by simp
  have "(set_peer a pB B)\<lparr>nd_rpcch := []\<rparr> = set_peer a pB B" using B(3) by (cases B) (simp add: set_peer_def)
  then show "server_loop G got (read_loop a (deliver a fr B)) = (Some (NMissing (HashKey P key)), set_peer a pB B)"
    unfolding r1 using g(3) B(4) by (simp add: server_loop_def handleMessage_def mg(1) handleMessageGetFile_def)
next
  have up: "all_up A" using A(1,2) by (simp add: all_up_def quiet_def)
  let ?w = "IncomingMessage # gob_Encode G (MessageGetFile (nd_ID A) (HashKey P key))"
  have n: "nd_peers (sent ?w A) = [(b, pA\<lparr>pr_out := pr_out pA @ ?w\<rparr>)]" using A(1) by (simp add: sent_def)
  have "\<not> arrived 8 (pA\<lparr>pr_out := pr_out pA @ ?w\<rparr>)" using A(2,3) by (simp add: arrived_def quiet_def content_def)
  then show "fst (server_Get P G rank rank' got (\<lambda>n. n) key A) = Inl NBlocked"
    using A(4) broadcast_all [OF up] n by (simp add: server_Get_def map_iter_def case_prod_beta Let_def)
qed

lemma read_closed:
  assumes "map_of (nd_peers n) a = Some p" "pr_phase p = ReadLoop" "pr_eof p" "rsegs (pr_conn p) = []" "length (nd_rpcch n) < 1024"
  shows "read_loop a n = (set_peer a p n)\<lparr>nd_rpcch := nd_rpcch n @ [empty_rpc\<lparr>rpc_From := a\<rparr>]\<rparr>"
proof -
  have "DefaultDecoder_Decode (pr_conn p) empty_rpc = ((None, empty_rpc), pr_conn p)"
    using assms(4) by (simp add: DefaultDecoder_Decode_def rd_read_def)
  with assms show ?thesis unfolding read_loop_def by (simp add: decode_ready_def empty_rpc_def)
qed

text \<open>
  A closed connection is never noticed: the decoder swallows the error of its first read, so the
  read loop goes on and queues empty messages as fast as they are taken out.
\<close>
theorem closed_connection_spins:
  assumes "map_of (nd_peers n) a = Some p" "pr_phase p = ReadLoop" "pr_eof p" "rsegs (pr_conn p) = []" "length (nd_rpcch n) + k \<le> 1024"
  shows "nd_rpcch ((read_loop a ^^ k) n) = nd_rpcch n @ replicate k (empty_rpc\<lparr>rpc_From := a\<rparr>)
    \<and> map_of (nd_peers ((read_loop a ^^ k) n)) a = Some p"
  using assms(5)
proof (induction k)
  case (Suc k)
  then have IH: "nd_rpcch ((read_loop a ^^ k) n) = nd_rpcch n @ replicate k (empty_rpc\<lparr>rpc_From := a\<rparr>)"
    "map_of (nd_peers ((read_loop a ^^ k) n)) a = Some p" by simp_all
  with assms(2-4) Suc.prems have "read_loop a ((read_loop a ^^ k) n) = (set_peer a p ((read_loop a ^^ k) n))
      \<lparr>nd_rpcch := nd_rpcch ((read_loop a ^^ k) n) @ [empty_rpc\<lparr>rpc_From := a\<rparr>]\<rparr>" by (intro read_closed) simp_all
  with IH show ?case by (simp add: replicate_append_same)
qed (use assms in simp)

subsection \<open>Witnesses\<close>

definition toy_gob :: gob where
  "toy_gob = \<lparr>gob_Encode = (\<lambda>m. case m of MessageStoreFile i k sz \<Rightarrow> [7] | MessageGetFile i k \<Rightarrow> [8]),
     gob_Decode = (\<lambda>b. if b = [7] then Some (MessageStoreFile ''n1'' (HashKey toy_prims ''k'') 19)
       else if b = [8] then Some (MessageGetFile ''n1'' (HashKey toy_prims ''k'')) else None)\<rparr>"

definition toy_node :: "string \<Rightarrow> string \<Rightarrow> file_server" where
  "toy_node i addr = \<lparr>nd_ID = i, nd_EncKey = replicate 32 5, nd_store = toy_store, nd_fs = empty_fs,
     nd_peers = [(addr, NewTCPPeer (mk_reader []) True)], nd_rpcch = []\<rparr>"

lemma toy_node_sel [simp]:
  "nd_ID (toy_node i addr) = i" "nd_EncKey (toy_node i addr) = replicate 32 5" "nd_store (toy_node i addr) = toy_store"
  "nd_fs (toy_node i addr) = empty_fs" "nd_peers (toy_node i addr) = [(addr, NewTCPPeer (mk_reader []) True)]" "nd_rpcch (toy_node i addr) = []"
  by (simp_all add: toy_node_def)

lemma toy_quiet: "quiet (NewTCPPeer (mk_reader []) True)"
  by (simp add: NewTCPPeer_def quiet_def)

lemma toy_missing: "\<not> store_Has toy_store i k empty_fs"
proof -
  have "path_of (full_path toy_store i k) \<noteq> []" using cas_paths(1) [OF is_cas_toy, of i k] by simp
  then obtain c cs where "path_of (full_path toy_store i k) = c # cs" by (meson neq_Nil_conv)
  then show ?thesis by (cases cs) (simp_all add: store_Has_def os_Stat_def empty_fs_def)
qed

lemma toy_carries:
  "gob_carries toy_gob (MessageStoreFile ''n1'' (HashKey toy_prims ''k'') 19)"
  "gob_carries toy_gob (MessageGetFile ''n1'' (HashKey toy_prims ''k''))"
  "framed (gob_Encode toy_gob (MessageStoreFile i k sz)) [[IncomingMessage, 7]]"
  "framed (gob_Encode toy_gob (MessageGetFile i k)) [[IncomingMessage], [8]]"
  by (simp_all add: gob_carries_def toy_gob_def framed_def)

lemma toy_sealed: "\<exists>x. encrypt_buffer toy_prims (replicate 32 5) toy_rnd [1, 2, 3] = Inr x \<and> length x = 19"
  using aes_ctr.roundtrip [of "replicate 32 5" toy_prims toy_rnd "[1, 2, 3]"] by (auto simp: aes_key_ok_def)


theorem handler_before_marker_witness:
  "\<exists>x n'. length x = 19 \<and> server_loop toy_gob 0 (read_loop ''a'' (deliver ''a'' [[IncomingMessage, 7], [IncomingStream], x] (toy_node ''n2'' ''a'')))
     = (Some (NPanic ''sync: negative WaitGroup counter''), n')"
proof -
  obtain x :: bytes where x: "length x = 19" using toy_sealed by blast
  have "\<exists>n'. server_loop toy_gob 0 (read_loop ''a'' (deliver ''a'' ([[IncomingMessage, 7]] @ [[IncomingStream], x]) (toy_node ''n2'' ''a'')))
      = (Some (NPanic ''sync: negative WaitGroup counter''), n')
    \<and> get_blob (nd_store (toy_node ''n2'' ''a'')) ''n1'' (HashKey toy_prims ''k'') (nd_fs n') = Some (take (length x) (IncomingStream # x))"
    by (rule handler_before_marker [where P = toy_prims and m = "MessageStoreFile ''n1'' (HashKey toy_prims ''k'') 19"])
      (use x toy_carries cas_good_toy toy_quiet in simp_all)
  with x show ?thesis by auto
qed

theorem get_waits_for_missing_witness:
  "fst (server_Get toy_prims toy_gob length length 0 (\<lambda>n. n) ''k'' (toy_node ''n1'' ''b'')) = Inl NBlocked"
proof -
  have "server_loop toy_gob 0 (read_loop ''a'' (deliver ''a'' [[IncomingMessage], [8]] (toy_node ''n2'' ''a''))) =
      (Some (NMissing (HashKey toy_prims ''k'')), set_peer ''a'' (NewTCPPeer (mk_reader []) True) (toy_node ''n2'' ''a''))
    \<and> fst (server_Get toy_prims toy_gob length length 0 (\<lambda>n. n) ''k'' (toy_node ''n1'' ''b'')) = Inl NBlocked"
    by (rule get_waits_for_missing [where mg = "MessageGetFile ''n1'' (HashKey toy_prims ''k'')"
          and pA = "NewTCPPeer (mk_reader []) True"])
      (use toy_missing toy_carries toy_quiet in \<open>simp_all add: NewTCPPeer_def\<close>)
  then show ?thesis by blast
qed

theorem closed_connection_spins_witness:
  "nd_rpcch ((read_loop ''a'' ^^ 1000) ((toy_node ''n2'' ''a'')\<lparr>nd_peers := [(''a'', (NewTCPPeer (mk_reader []) True)\<lparr>pr_eof := True\<rparr>)]\<rparr>))
    = replicate 1000 (empty_rpc\<lparr>rpc_From := ''a''\<rparr>)"
  using closed_connection_spins [of "(toy_node ''n2'' ''a'')\<lparr>nd_peers := [(''a'', (NewTCPPeer (mk_reader []) True)\<lparr>pr_eof := True\<rparr>)]\<rparr>" "''a''"
      "(NewTCPPeer (mk_reader []) True)\<lparr>pr_eof := True\<rparr>" 1000]
  by (simp add: NewTCPPeer_def)

end
