(* ===== verification/P2P_Node.thy ===== *)
theory P2P_Node
  imports P2P_Replication
begin

text \<open>
  The life of a peer-to-peer node: listening, dialling and accepting of \<open>p2p/tcp_transport.go\<close>, \<open>Start\<close>,
  \<open>Stop\<close>, \<open>bootstrapNetwork\<close> and \<open>loop\<close> of \<open>server.go\<close>, and the demo of \<open>main.go\<close>. The goroutines of a node
  (accept loop, one dial per bootstrap node, one read loop per connection, the loop of the server)
  take their steps in any order. A message handler is taken up in one step and finished in another,
  when the bytes it waits for have arrived; its reads of the connection are not cut further.
\<close>

subsection \<open>p2p/tcp\_transport.go and p2p/handshake.go\<close>

datatype listener = NoListener | Listening | ListenerClosed

datatype loop_pc = NotStarted | Looping | Ended

record p2p_node =
  no_srv :: file_server
  no_listener :: listener
  no_accepting :: bool  \<comment> \<open>\<open>startAcceptLoop\<close> is running\<close>
  no_dialing :: "string list"  \<comment> \<open>goroutines of \<open>bootstrapNetwork\<close> that have not dialled yet\<close>
  no_loop :: loop_pc
  no_busy :: "rpc option"  \<comment> \<open>the message \<open>loop\<close> is handling\<close>
  no_quit :: bool  \<comment> \<open>\<open>quitch\<close> is closed\<close>
  no_panic :: "string option"

definition NOPHandshakeFunc :: "ioerr option" where
  "NOPHandshakeFunc = None"

text \<open>A transport that has been made, not started.\<close>
definition NewTCPTransport :: "file_server \<Rightarrow> p2p_node" where
  "NewTCPTransport srv = \<lparr>no_srv = srv, no_listener = NoListener, no_accepting = False, no_dialing = [], no_loop = NotStarted,
     no_busy = None, no_quit = False, no_panic = None\<rparr>"

text \<open>\<open>Close\<close> closes the listener; connections stay open.\<close>
definition transport_Close :: "p2p_node \<Rightarrow> p2p_node" where
  "transport_Close n = n\<lparr>no_listener := ListenerClosed\<rparr>"

definition ListenAndAccept :: "string option \<Rightarrow> p2p_node \<Rightarrow> string option \<times> p2p_node" where
  "ListenAndAccept err n = (case err of
     Some e \<Rightarrow> (Some e, n) | None \<Rightarrow> (None, n\<lparr>no_listener := Listening, no_accepting := True\<rparr>))"

text \<open>\<open>conn\<close> is the error or the remote address of the connection.\<close>
definition Dial :: "(string, string) result \<Rightarrow> ioerr option \<Rightarrow> p2p_node \<Rightarrow> string option \<times> p2p_node" where
  "Dial conn handshake n = (case conn of
     Inl e \<Rightarrow> (Some e, n)
   | Inr remote \<Rightarrow> (None, n\<lparr>no_srv := handleConn_start handshake remote True (no_srv n)\<rparr>))"

text \<open>
  One round of \<open>startAcceptLoop\<close>. After an error that is not \<open>ErrClosed\<close> the loop goes on with a nil
  connection, which \<open>handleConn\<close> dereferences.
\<close>
definition startAcceptLoop :: "(string, string) result \<Rightarrow> ioerr option \<Rightarrow> p2p_node \<Rightarrow> p2p_node" where
  "startAcceptLoop conn handshake n =
     (if no_listener n = ListenerClosed then n\<lparr>no_accepting := False\<rparr>
      else (case conn of
          Inl e \<Rightarrow> n\<lparr>no_panic := Some ''nil pointer dereference''\<rparr>
        | Inr remote \<Rightarrow> n\<lparr>no_srv := handleConn_start handshake remote False (no_srv n)\<rparr>))"

subsection \<open>server.go: Start, Stop, loop\<close>

definition bootstrapNetwork :: "string list \<Rightarrow> p2p_node \<Rightarrow> p2p_node" where
  "bootstrapNetwork addrs n = n\<lparr>no_dialing := no_dialing n @ filter (\<lambda>a. length a \<noteq> 0) addrs\<rparr>"

text \<open>\<open>Start\<close> up to its \<open>loop\<close>.\<close>
definition Start :: "string option \<Rightarrow> string list \<Rightarrow> p2p_node \<Rightarrow> string option \<times> p2p_node" where
  "Start err addrs n = (case ListenAndAccept err n of
     (Some e, n1) \<Rightarrow> (Some e, n1)
   | (None, n1) \<Rightarrow> (None, (bootstrapNetwork addrs n1)\<lparr>no_loop := Looping\<rparr>))"

text \<open>Closing a closed channel panics.\<close>
definition Stop :: "p2p_node \<Rightarrow> p2p_node" where
  "Stop n = (if no_quit n then n\<lparr>no_panic := Some ''close of closed channel''\<rparr> else n\<lparr>no_quit := True\<rparr>)"

text \<open>\<open>loop\<close>: taking a message, finishing its handler, and leaving when \<open>quitch\<close> is closed.\<close>
definition loop_take :: "p2p_node \<Rightarrow> p2p_node option" where
  "loop_take n = (case nd_rpcch (no_srv n) of
     m # rest \<Rightarrow> if no_loop n = Looping \<and> no_busy n = None
       then Some (n\<lparr>no_busy := Some m, no_srv := (no_srv n)\<lparr>nd_rpcch := rest\<rparr>\<rparr>) else None
   | [] \<Rightarrow> None)"

definition loop_finish :: "gob \<Rightarrow> int \<Rightarrow> p2p_node \<Rightarrow> p2p_node option" where
  "loop_finish G got n = (case no_busy n of
     None \<Rightarrow> None
   | Some m \<Rightarrow> (case handleMessage got (rpc_From m) (gob_Decode G (rpc_Payload m)) (no_srv n) of
       (Some NBlocked, s) \<Rightarrow> None
     | (Some (NPanic e), s) \<Rightarrow> Some (n\<lparr>no_busy := None, no_srv := s, no_panic := Some e\<rparr>)
     | (r, s) \<Rightarrow> Some (n\<lparr>no_busy := None, no_srv := s\<rparr>)))"

definition loop_quit :: "p2p_node \<Rightarrow> p2p_node option" where
  "loop_quit n = (if no_loop n = Looping \<and> no_busy n = None \<and> no_quit n
     then Some ((transport_Close n)\<lparr>no_loop := Ended\<rparr>) else None)"

text \<open>The other side closes its end.\<close>
definition hang_up :: "string \<Rightarrow> file_server \<Rightarrow> file_server" where
  "hang_up addr s = (case map_of (nd_peers s) addr of None \<Rightarrow> s | Some p \<Rightarrow> set_peer addr (p\<lparr>pr_eof := True\<rparr>) s)"

inductive node_step :: "gob \<Rightarrow> p2p_node \<Rightarrow> p2p_node \<Rightarrow> bool" for G :: gob where
  accept: "no_panic n = None \<Longrightarrow> no_accepting n \<Longrightarrow> node_step G n (startAcceptLoop conn hs n)"
| dial: "no_panic n = None \<Longrightarrow> addr \<in> set (no_dialing n) \<Longrightarrow>
    node_step G n (snd (Dial conn hs (n\<lparr>no_dialing := remove1 addr (no_dialing n)\<rparr>)))"
| arrive: "no_panic n = None \<Longrightarrow> node_step G n (n\<lparr>no_srv := deliver addr segs (no_srv n)\<rparr>)"
| close: "no_panic n = None \<Longrightarrow> node_step G n (n\<lparr>no_srv := hang_up addr (no_srv n)\<rparr>)"
| read: "no_panic n = None \<Longrightarrow> node_step G n (n\<lparr>no_srv := read_loop addr (no_srv n)\<rparr>)"
| take: "no_panic n = None \<Longrightarrow> loop_take n = Some n' \<Longrightarrow> node_step G n n'"
| finish: "no_panic n = None \<Longrightarrow> loop_finish G got n = Some n' \<Longrightarrow> node_step G n n'"
| quit: "no_panic n = None \<Longrightarrow> loop_quit n = Some n' \<Longrightarrow> node_step G n n'"
| stop: "no_panic n = None \<Longrightarrow> node_step G n (Stop n)"

subsection \<open>The invariant\<close>

text \<open>At most one stream of a connection is open, and its read loop waits for it.\<close>
definition peer_ok :: "peer \<Rightarrow> bool" where
  "peer_ok p \<longleftrightarrow> (pr_wg p = 0 \<or> pr_wg p = 1 \<and> pr_phase p = WaitStream)"

definition server_ok :: "file_server \<Rightarrow> bool" where
  "server_ok s \<longleftrightarrow> distinct (map fst (nd_peers s)) \<and> length (nd_rpcch s) \<le> 1024
     \<and> (\<forall>a p. map_of (nd_peers s) a = Some p \<longrightarrow> peer_ok p \<and> (\<forall>m. pr_phase p = Sending m \<longrightarrow> rpc_From m = a))
     \<and> (\<forall>m \<in> set (nd_rpcch s). map_of (nd_peers s) (rpc_From m) \<noteq> None)"

definition node_inv :: "p2p_node \<Rightarrow> bool" where
  "node_inv n \<longleftrightarrow> server_ok (no_srv n)
     \<and> (\<forall>m. no_busy n = Some m \<longrightarrow> no_loop n = Looping \<and> map_of (nd_peers (no_srv n)) (rpc_From m) \<noteq> None)
     \<and> (no_loop n = Ended \<longrightarrow> no_listener n = ListenerClosed \<and> no_quit n)"

lemma set_peer_ok:
  assumes "server_ok s" "peer_ok p" "\<And>m. pr_phase p = Sending m \<Longrightarrow> rpc_From m = a"
  shows "server_ok (set_peer a p s)"
  using assms by (auto simp: server_ok_def set_peer_def update_conv' distinct_update)

lemma server_ok_queue:
  "server_ok s \<Longrightarrow> length ms \<le> 1024 \<Longrightarrow> (\<forall>m \<in> set ms. map_of (nd_peers s) (rpc_From m) \<noteq> None) \<Longrightarrow> server_ok (s\<lparr>nd_rpcch := ms\<rparr>)"
  by (simp add: server_ok_def)

lemma server_ok_fs [simp]: "server_ok (s\<lparr>nd_fs := F\<rparr>) = server_ok s"
  by (simp add: server_ok_def)

lemma server_okD: "server_ok s \<Longrightarrow> map_of (nd_peers s) a = Some p \<Longrightarrow> peer_ok p \<and> (\<forall>m. pr_phase p = Sending m \<longrightarrow> rpc_From m = a)"
  by (simp add: server_ok_def)

lemma handleConn_ok: "server_ok s \<Longrightarrow> server_ok (handleConn_start hs remote out s)"
  by (auto simp: handleConn_start_def OnPeer_def NewTCPPeer_def peer_ok_def intro!: set_peer_ok split: option.splits)

lemma deliver_ok: "server_ok s \<Longrightarrow> server_ok (deliver a segs s)"
  by (auto simp: deliver_def peer_ok_def dest: server_okD intro!: set_peer_ok split: option.splits)

lemma hang_up_ok: "server_ok s \<Longrightarrow> server_ok (hang_up a s)"
  by (auto simp: hang_up_def peer_ok_def dest: server_okD intro!: set_peer_ok split: option.splits)

lemma read_loop_ok:
  assumes ok: "server_ok s"
  shows "server_ok (read_loop a s)"
proof (cases "map_of (nd_peers s) a")
  case (Some p)
  have p: "peer_ok p" "\<And>m. pr_phase p = Sending m \<Longrightarrow> rpc_From m = a" using server_okD [OF ok Some] by auto
  have q: "server_ok ((set_peer a p' s)\<lparr>nd_rpcch := nd_rpcch s @ [m]\<rparr>)"
    if "server_ok (set_peer a p' s)" "rpc_From m = a" "\<not> 1024 \<le> length (nd_rpcch s)" for p' m
    using that by (intro server_ok_queue) (auto simp: server_ok_def)
  show ?thesis
  proof (cases "pr_phase p")
    case ReadLoop
    then have "pr_wg p = 0" using p(1) by (simp add: peer_ok_def)
    with Some ReadLoop ok show ?thesis
      by (auto simp: read_loop_def peer_ok_def intro!: set_peer_ok q split: prod.splits option.splits)
  next
    case (Sending m)
    then have "pr_wg p = 0" "rpc_From m = a" using p by (simp_all add: peer_ok_def)
    moreover have "server_ok (set_peer a (p\<lparr>pr_phase := ReadLoop\<rparr>) s)" using ok \<open>pr_wg p = 0\<close> by (intro set_peer_ok) (simp_all add: peer_ok_def)
    ultimately show ?thesis using Some Sending ok by (simp add: read_loop_def q)
  qed (use Some ok in \<open>auto simp: read_loop_def peer_ok_def intro!: set_peer_ok\<close>)
qed (use ok in \<open>simp add: read_loop_def\<close>)

text \<open>A handler changes the store and the peer that sent the message, whose read loop stays where it is.\<close>
definition handled :: "string \<Rightarrow> file_server \<Rightarrow> file_server \<Rightarrow> bool" where
  "handled from s s' \<longleftrightarrow> s' = s \<or> (\<exists>p p' F. map_of (nd_peers s) from = Some p \<and> pr_phase p' = pr_phase p
     \<and> (pr_wg p' = pr_wg p \<or> pr_wg p' = pr_wg p - 1 \<and> 0 \<le> pr_wg p') \<and> s' = set_peer from p' (s\<lparr>nd_fs := F\<rparr>))"

lemma handled_peer:
  "map_of (nd_peers s) from = Some p \<Longrightarrow> pr_phase p' = pr_phase p \<Longrightarrow> pr_wg p' = pr_wg p \<or> pr_wg p' = pr_wg p - 1 \<and> 0 \<le> pr_wg p' \<Longrightarrow>
    handled from s (set_peer from p' (s\<lparr>nd_fs := F\<rparr>))"
  by (auto simp: handled_def)

lemma handled_peer': "map_of (nd_peers s) from = Some p \<Longrightarrow> pr_phase p' = pr_phase p \<Longrightarrow> pr_wg p' = pr_wg p \<Longrightarrow> handled from s (set_peer from p' s)"
  using handled_peer [of s "from" p p' "nd_fs s"] by simp

lemma Send_sel [simp]: "pr_phase (snd (Send b p)) = pr_phase p" "pr_wg (snd (Send b p)) = pr_wg p"
  by (simp_all add: Send_def)

lemma consume_sel [simp]: "pr_phase (consume k p) = pr_phase p" "pr_wg (consume k p) = pr_wg p"
  by (simp_all add: consume_def)

lemma handleMessageStoreFile_handled: "handled from s (snd (handleMessageStoreFile got from i key sz s))"
proof (cases "map_of (nd_peers s) from")
  case (Some p)
  obtain r F where w: "store_Write (nd_store s) i key (fst (limit_reader sz (pr_conn p))) (nd_fs s) = (r, F)" by (metis surj_pair)
  have "handled from s (snd (close_stream from (consume sz p) (s\<lparr>nd_fs := F\<rparr>)))"
    using Some by (auto simp: close_stream_def CloseStream_def intro: handled_peer split: option.splits if_splits)
  moreover have "handled from s (set_peer from (consume (min got sz) p) (s\<lparr>nd_fs := F\<rparr>))" using Some by (rule handled_peer) simp_all
  ultimately show ?thesis using Some w by (simp add: handleMessageStoreFile_def handled_def [of "from" s s] split: sum.splits)
qed (simp add: handleMessageStoreFile_def handled_def)

lemma handleMessageGetFile_handled: "handled from s (snd (handleMessageGetFile from i key s))"
proof (cases "map_of (nd_peers s) from")
  case (Some p)
  let ?p1 = "\<lambda>k. snd (Send (le64 k) (snd (Send [IncomingStream] p)))"
  have "handled from s (set_peer from (?p1 k) s)" "handled from s (set_peer from (snd (Send b (?p1 k))) s)" for k b
    using Some by (auto intro: handled_peer')
  with Some show ?thesis
    by (auto simp: handleMessageGetFile_def Let_def handled_def [of "from" s s] split: sum.splits prod.splits option.splits)
      (metis snd_conv)+
qed (auto simp: handleMessageGetFile_def handled_def split: sum.splits)

lemma handleMessage_handled: "handled from s (snd (handleMessage got from msg s))"
  using handleMessageStoreFile_handled handleMessageGetFile_handled
  by (auto simp: handleMessage_def handled_def [of "from" s s] split: option.splits payload.splits)

lemma handled_ok:
  assumes "server_ok s" "handled from s s'"
  shows "server_ok s' \<and> nd_rpcch s' = nd_rpcch s \<and> (\<forall>a. map_of (nd_peers s) a \<noteq> None \<longrightarrow> map_of (nd_peers s') a \<noteq> None)"
proof (cases "s' = s")
  case False
  with assms(2) obtain p p' F where p: "map_of (nd_peers s) from = Some p" "pr_phase p' = pr_phase p" "s' = set_peer from p' (s\<lparr>nd_fs := F\<rparr>)"
    and wg: "pr_wg p' = pr_wg p \<or> pr_wg p' = pr_wg p - 1 \<and> 0 \<le> pr_wg p'" unfolding handled_def by blast
  have "peer_ok p'" using server_okD [OF assms(1) p(1)] p(2) wg by (auto simp: peer_ok_def)
  moreover have "\<And>m. pr_phase p' = Sending m \<Longrightarrow> rpc_From m = from" using server_okD [OF assms(1) p(1)] p(2) by simp
  ultimately have "server_ok s'" unfolding p(3) using assms(1) by (intro set_peer_ok) simp_all
  with p(3) show ?thesis by simp
qed (use assms in simp)

text \<open>The peers a connection step leaves registered.\<close>
lemma keeps_peers:
  "map_of (nd_peers s) a \<noteq> None \<Longrightarrow> map_of (nd_peers (handleConn_start hs remote out s)) a \<noteq> None"
  "map_of (nd_peers s) a \<noteq> None \<Longrightarrow> map_of (nd_peers (deliver b segs s)) a \<noteq> None"
  "map_of (nd_peers s) a \<noteq> None \<Longrightarrow> map_of (nd_peers (hang_up b s)) a \<noteq> None"
  "map_of (nd_peers s) a \<noteq> None \<Longrightarrow> map_of (nd_peers (read_loop b s)) a \<noteq> None"
  by (auto simp: handleConn_start_def OnPeer_def deliver_def hang_up_def read_loop_def split: option.splits phase.splits prod.splits)

lemma node_inv_srv:
  assumes "node_inv n" "server_ok s" "\<And>a. map_of (nd_peers (no_srv n)) a \<noteq> None \<Longrightarrow> map_of (nd_peers s) a \<noteq> None"
  shows "node_inv (n\<lparr>no_srv := s\<rparr>)"
  using assms by (simp add: node_inv_def)

lemma node_inv_step: "node_step G n n' \<Longrightarrow> node_inv n \<Longrightarrow> node_inv n'"
proof (induction rule: node_step.induct)
  case (accept n conn hs)
  then have "node_inv (n\<lparr>no_srv := handleConn_start hs r False (no_srv n)\<rparr>)" for r
    by (intro node_inv_srv) (auto simp: node_inv_def handleConn_ok keeps_peers)
  with accept show ?case by (auto simp: startAcceptLoop_def node_inv_def split: sum.splits)
next
  case (dial n addr conn hs)
  then have "node_inv (n\<lparr>no_dialing := remove1 addr (no_dialing n)\<rparr>)" by (simp add: node_inv_def)
  moreover from this dial have "node_inv (n\<lparr>no_dialing := remove1 addr (no_dialing n), no_srv := handleConn_start hs r True (no_srv n)\<rparr>)" for r
    by (intro node_inv_srv) (auto simp: node_inv_def handleConn_ok keeps_peers)
  ultimately show ?case by (simp add: Dial_def split: sum.splits)
next
  case (take n n')
  then obtain m rest where "nd_rpcch (no_srv n) = m # rest" "no_loop n = Looping"
      "n' = n\<lparr>no_busy := Some m, no_srv := (no_srv n)\<lparr>nd_rpcch := rest\<rparr>\<rparr>"
    by (auto simp: loop_take_def split: list.splits if_splits)
  with take.prems show ?case unfolding node_inv_def server_ok_def by (auto simp del: not_None_eq)
next
  case (finish n got n')
  obtain m where m: "no_busy n = Some m" using finish.hyps by (auto simp: loop_finish_def split: option.splits)
  obtain r s where h: "handleMessage got (rpc_From m) (gob_Decode G (rpc_Payload m)) (no_srv n) = (r, s)" by (metis surj_pair)
  have "handled (rpc_From m) (no_srv n) s"
    using handleMessage_handled [of "rpc_From m" "no_srv n" got "gob_Decode G (rpc_Payload m)"] h by simp
  from handled_ok [OF _ this] finish.prems have "server_ok s" by (simp add: node_inv_def)
  with finish m h show ?case
    by (auto simp: loop_finish_def node_inv_def split: option.splits nerr.splits)
next
  case (stop n)
  then show ?case by (simp add: Stop_def node_inv_def)
qed (auto simp: node_inv_def deliver_ok hang_up_ok read_loop_ok keeps_peers loop_quit_def transport_Close_def split: if_splits intro!: node_inv_srv)

lemma node_inv_start:
  assumes "nd_peers srv = []" "nd_rpcch srv = []"
  shows "node_inv (snd (Start err addrs (NewTCPTransport srv)))"
  using assms
  by (auto simp: Start_def ListenAndAccept_def bootstrapNetwork_def NewTCPTransport_def node_inv_def server_ok_def split: option.splits)

lemma node_reach_inv: "(node_step G)\<^sup>*\<^sup>* n n' \<Longrightarrow> node_inv n \<Longrightarrow> node_inv n'"
  by (induction rule: rtranclp_induct) (auto intro: node_inv_step)

text \<open>
  C23. The state of a node, whatever its goroutines, its peers and the network do in any order: the
  channel never holds more than 1024 messages; the \<open>WaitGroup\<close> of a connection is 0 or 1, and 1 only
  while its read loop waits for the stream; every message queued or being handled comes from a peer
  in the map, so that no handler fails to find its peer; and a node whose loop has ended has closed
  its listener.
\<close>
theorem node_state_invariant:
  assumes "nd_peers srv = []" "nd_rpcch srv = []" "(node_step G)\<^sup>*\<^sup>* (snd (Start err addrs (NewTCPTransport srv))) n"
  shows "length (nd_rpcch (no_srv n)) \<le> 1024 \<and> distinct (map fst (nd_peers (no_srv n)))
    \<and> (\<forall>a p. map_of (nd_peers (no_srv n)) a = Some p \<longrightarrow> pr_wg p = 0 \<or> pr_wg p = 1 \<and> pr_phase p = WaitStream)
    \<and> (\<forall>m. m \<in> set (nd_rpcch (no_srv n)) \<or> no_busy n = Some m \<longrightarrow>
         fst (handleMessage got (rpc_From m) (gob_Decode G (rpc_Payload m)) (no_srv n)) \<notin> range (Some \<circ> NNoPeer))
    \<and> (no_loop n = Ended \<longrightarrow> no_listener n = ListenerClosed)"
proof -
  have inv: "node_inv n" using node_reach_inv [OF assms(3) node_inv_start [OF assms(1,2)]] .
  have "fst (handleMessage got (rpc_From m) (gob_Decode G (rpc_Payload m)) (no_srv n)) \<noteq> Some (NNoPeer e)"
    if m: "m \<in> set (nd_rpcch (no_srv n)) \<or> no_busy n = Some m" for m e
  proof -
    obtain p where "map_of (nd_peers (no_srv n)) (rpc_From m) = Some p" using inv m by (auto simp: node_inv_def server_ok_def)
    then show ?thesis
      by (auto simp: handleMessage_def handleMessageStoreFile_def handleMessageGetFile_def close_stream_def Let_def
          split: option.splits payload.splits prod.splits sum.splits if_splits)
  qed
  with inv show ?thesis by (auto simp: node_inv_def server_ok_def peer_ok_def)
qed

subsection \<open>Stopping\<close>

text \<open>What a node that has left its loop may still do: read on, dial, and notice that its listener is closed.\<close>
definition silent :: "file_server \<Rightarrow> file_server \<Rightarrow> bool" where
  "silent s s' \<longleftrightarrow> nd_fs s' = nd_fs s \<and> (\<forall>a p'. map_of (nd_peers s') a = Some p' \<longrightarrow>
     pr_outbound p' \<and> pr_out p' = [] \<or> (\<exists>p. map_of (nd_peers s) a = Some p \<and> pr_out p' = pr_out p \<and> pr_outbound p' = pr_outbound p))"

lemma silent_refl: "silent s s"
  by (simp add: silent_def)

lemma silent_trans: "silent s s' \<Longrightarrow> silent s' s'' \<Longrightarrow> silent s s''"
  unfolding silent_def by metis

lemma silent_steps:
  "silent s (handleConn_start hs remote True s)" "silent s (deliver a segs s)" "silent s (hang_up a s)" "silent s (read_loop a s)"
  by (auto simp: silent_def handleConn_start_def OnPeer_def NewTCPPeer_def deliver_def hang_up_def read_loop_def
      split: option.splits phase.splits prod.splits if_splits)

lemma ended_step:
  assumes "node_step G n n'" "node_inv n" "no_loop n = Ended"
  shows "no_loop n' = Ended \<and> silent (no_srv n) (no_srv n')"
  using assms
proof cases
  case (dial addr conn hs)
  with assms(3) silent_steps(1) [of "no_srv n"] show ?thesis by (auto simp: Dial_def silent_refl split: sum.splits)
qed (auto simp: node_inv_def startAcceptLoop_def silent_steps silent_refl loop_take_def loop_finish_def loop_quit_def Stop_def split: list.splits option.splits)

lemma ended_run:
  "(node_step G)\<^sup>*\<^sup>* n n' \<Longrightarrow> node_inv n \<Longrightarrow> no_loop n = Ended \<Longrightarrow> no_loop n' = Ended \<and> silent (no_srv n) (no_srv n')"
proof (induction rule: rtranclp_induct)
  case (step a b)
  then have "no_loop a = Ended" "silent (no_srv n) (no_srv a)" "node_inv a" using node_reach_inv by blast+
  with ended_step [OF step.hyps(2)] show ?case by (blast intro: silent_trans)
qed (simp add: silent_refl)


subsection \<open>main.go\<close>

text \<open>The demo's \<open>OnPeer\<close> closes every connection: reads and writes fail from then on.\<close>
definition main_OnPeer :: "string \<Rightarrow> peer \<Rightarrow> file_server \<Rightarrow> file_server" where
  "main_OnPeer addr p s = set_peer addr (p\<lparr>pr_eof := True, pr_up := False\<rparr>) s"

definition main_accept :: "string \<Rightarrow> file_server \<Rightarrow> file_server" where
  "main_accept addr s = (case NOPHandshakeFunc of
     Some e \<Rightarrow> s | None \<Rightarrow> main_OnPeer addr (NewTCPPeer (mk_reader []) False) s)"

text \<open>One message received and printed.\<close>
definition main_consume :: "rpc list \<times> file_server \<Rightarrow> rpc list \<times> file_server" where
  "main_consume ps = (case nd_rpcch (snd ps) of
     [] \<Rightarrow> ps | m # rest \<Rightarrow> (fst ps @ [m], (snd ps)\<lparr>nd_rpcch := rest\<rparr>))"

text \<open>\<open>main\<close>: without a listener \<open>log.Fatal\<close> ends the process, otherwise it waits for ever beside its goroutines.\<close>
definition demo_main :: "string option \<Rightarrow> file_server \<Rightarrow> (string, p2p_node) result" where
  "demo_main err srv = (case ListenAndAccept err (NewTCPTransport srv) of
     (Some e, n) \<Rightarrow> Inl e | (None, n) \<Rightarrow> Inr n)"

definition main_round :: "string \<Rightarrow> rpc list \<times> file_server \<Rightarrow> rpc list \<times> file_server" where
  "main_round addr ps = main_consume (fst ps, read_loop addr (snd ps))"

lemma main_round_closed:
  assumes "map_of (nd_peers s) a = Some p" "pr_phase p = ReadLoop" "pr_eof p" "rsegs (pr_conn p) = []" "nd_rpcch s = []"
  shows "main_round a (out, s) = (out @ [empty_rpc\<lparr>rpc_From := a\<rparr>], (set_peer a p s)\<lparr>nd_rpcch := []\<rparr>)"
  using read_closed [OF assms(1-4)] assms(5) by (simp add: main_round_def main_consume_def)

text \<open>One connection is enough to make the demo print empty messages without end.\<close>
lemma demo_prints_forever:
  assumes "nd_rpcch srv = []" "demo_main None srv = Inr n" "s = no_srv n"
  shows "no_accepting n \<and> fst ((main_round a ^^ k) ([], main_accept a s)) = replicate k (empty_rpc\<lparr>rpc_From := a\<rparr>)"
proof -
  have n: "no_accepting n" "nd_rpcch s = []" using assms by (auto simp: demo_main_def ListenAndAccept_def NewTCPTransport_def)
  define p where "p = (NewTCPPeer (mk_reader []) False)\<lparr>pr_eof := True, pr_up := False\<rparr>"
  have p: "pr_phase p = ReadLoop" "pr_eof p" "rsegs (pr_conn p) = []" by (simp_all add: p_def NewTCPPeer_def)
  have "\<exists>s'. (main_round a ^^ k) ([], main_accept a s) = (replicate k (empty_rpc\<lparr>rpc_From := a\<rparr>), s')
      \<and> map_of (nd_peers s') a = Some p \<and> nd_rpcch s' = []"
  proof (induction k)
    case 0
    show ?case using n by (simp add: main_accept_def main_OnPeer_def NOPHandshakeFunc_def p_def)
  next
    case (Suc k)
    then obtain s' where s': "(main_round a ^^ k) ([], main_accept a s) = (replicate k (empty_rpc\<lparr>rpc_From := a\<rparr>), s')"
        "map_of (nd_peers s') a = Some p" "nd_rpcch s' = []" by blast
    with main_round_closed [OF s'(2) p s'(3)] show ?case by (simp add: replicate_append_same)
  qed
  with n(1) show ?thesis by auto
qed

subsection \<open>Witnesses\<close>

definition toy_idle :: file_server where
  "toy_idle = (toy_node ''n'' ''a'')\<lparr>nd_peers := []\<rparr>"

theorem node_state_invariant_witness:
  "\<exists>n. (node_step toy_gob)\<^sup>*\<^sup>* (snd (Start None [''b'', []] (NewTCPTransport toy_idle))) n \<and> map_of (nd_peers (no_srv n)) ''b'' \<noteq> None
     \<and> length (nd_rpcch (no_srv n)) \<le> 1024"
proof -
  let ?start = "snd (Start None [''b'', []] (NewTCPTransport toy_idle))"
  let ?n = "snd (Dial (Inr ''b'') NOPHandshakeFunc (?start\<lparr>no_dialing := remove1 ''b'' (no_dialing ?start)\<rparr>))"
  have s: "no_panic ?start = None" "no_dialing ?start = [''b'']" "nd_peers toy_idle = []" "nd_rpcch toy_idle = []"
    by (simp_all add: Start_def ListenAndAccept_def bootstrapNetwork_def NewTCPTransport_def toy_idle_def toy_node_def)
  then have r: "(node_step toy_gob)\<^sup>*\<^sup>* ?start ?n" by (intro r_into_rtranclp node_step.dial) simp_all
  have "map_of (nd_peers (no_srv ?n)) ''b'' \<noteq> None"
    by (simp add: Dial_def NOPHandshakeFunc_def handleConn_start_def OnPeer_def set_peer_def update_conv')
  moreover have "length (nd_rpcch (no_srv ?n)) \<le> 1024" using node_state_invariant [OF s(3,4) r, of 0] by (simp only:)
  ultimately show ?thesis using r by blast
qed


end
