(* ===== verification/Spec2Isabelle.thy ===== *)
theory Spec2Isabelle
  imports Copydist Pool_Sequential Pool_Fetch Pool_Durability Portal_Cache Test_Support P2P_Node
begin

text \<open>
  \<^bold>\<open>Rhino: a verification library.\<close>

  Rhino pools the free space of several Google Drive accounts into one encrypted volume. A user's
  files are cut into chunks, each chunk is compressed, encrypted and uploaded to one of the user's
  accounts, and a Postgres database records what lies where. The volume is reached from a command
  line and from a multi-user web portal, which share the database. Beside it the repository has an
  older part, peer-to-peer nodes that replicate files over TCP. This library models both in HOL and
  proves what makes them correct. Every definition names the file it translates; code outside the
  repository (Google, bcrypt, gin, gob) and the primitives of Go's cryptography are parameters.

  \<^bold>\<open>Parts and theories.\<close>

  \<^item> \<open>Rhino_Prelude\<close>: \<open>int64\<close> with its wrap-around (\<open>i64\<close>), results as sums (\<open>Inl\<close> the error), bytes,
    hexadecimal, iteration orders of maps (\<open>map_iter\<close>), and the contract of a concurrent section that
    ends (\<open>terminating_system\<close>). \<open>Go_IO\<close>: readers as lists of segments with an error at the end,
    writers with a capacity, \<open>io.ReadFull\<close>, \<open>io.Copy\<close>.
  \<^item> \<open>Storage_Crypto\<close> (\<open>storage/crypto.go\<close>, \<open>compress.go\<close>): identifiers, AES in counter mode written out
    over a block function, \<open>CopyEncrypt\<close> and \<open>CopyDecrypt\<close> over arbitrarily segmented readers,
    compression. The locale \<open>sealer\<close> states what the pool relies on; \<open>aes_ctr\<close> interprets it.
  \<^item> \<open>Storage_Store\<close> (\<open>storage/store.go\<close>): the on-disk store over a file system with directories, files
    and errors. The locale \<open>blob_store\<close> is the contract of a content-addressed store.
  \<^item> \<open>GDrive\<close> (\<open>drivepool/gdrive\<close>): the Drive client over a parameter for the Drive service. The locales
    \<open>drive_api\<close> and \<open>remote_contract\<close> are the two sides of the client; a sublocale proves that the
    client turns the one into the other, and an in-memory service interprets the first.
  \<^item> \<open>Database\<close> (\<open>db/migrations\<close>, \<open>manifest/models.go\<close>): tables as lists of rows with their constraints and
    \<open>ON DELETE\<close> actions; \<open>db_faults\<close> is the list of statements that fail on the server's side.
    \<open>Manifest\<close> (\<open>drivepool/manifest\<close>): every query, scoped to a user. The locale \<open>tenant_store\<close> lifts
    the isolation of one statement to histories.
  \<^item> \<open>Placement\<close> (\<open>drivepool/placement.go\<close>), \<open>Pool_Accounts\<close>, \<open>Pool_Put\<close>, \<open>Pool_Get\<close>, \<open>Pool_Files\<close>
    (\<open>drivepool/pool.go\<close>): placement of chunks, opening a pool, accounts, \<open>PutStream\<close>, \<open>GetStream\<close>,
    listings and removal. \<open>Pool_Concurrency\<close> and \<open>Pool_Fetch\<close>: the goroutines of an upload and of a
    download as step relations, which refine the functions; \<open>Pool_Sequential\<close>: with one slot the uploads
    are a plain loop over \<open>uploadChunk\<close>. \<open>Pool_Tenancy\<close>: isolation of pools. \<open>Pool_Durability\<close>: histories of
    puts, hidings and downloads; the locale \<open>write_once_store\<close> is interpreted on the pools of all users.
  \<^item> \<open>Auth_DB\<close> (\<open>backend/authdb\<close>), \<open>Config\<close> (\<open>db/db.go\<close>, \<open>db/migrate.go\<close>, \<open>bootstrap.go\<close>, \<open>config.go\<close>), \<open>Backend\<close> (the portal: pool
    cache, OAuth flows, every handler and the router), \<open>Backend_Isolation\<close> (what the portal
    guarantees; the locale \<open>expiring_map\<close> is interpreted for both of its in-memory maps).
  \<^item> \<open>CLI\<close> (\<open>cmd/rhino/main.go\<close>, \<open>auth/consent.go\<close>): every command of the command line.
  \<^item> \<open>Serve\<close> (\<open>cmd/rhino/serve.go\<close>, \<open>backend/server.go\<close>): starting, running and stopping the portal.
  \<^item> \<open>P2P\<close> (\<open>p2p/\<close>, \<open>server.go\<close>) and \<open>P2P_Replication\<close>: decoder, peers, read loop, and the file server.
    \<open>P2P_Node\<close>: listening, dialling, accepting, \<open>Start\<close>, \<open>Stop\<close> and the loop of a node as a step relation
    over its goroutines, and the demo of \<open>main.go\<close>.
  \<^item> \<open>Portal_Cache\<close>: the portal with its cache of pools against a portal that opens a pool for every request.
  \<^item> \<open>Copydist\<close> (\<open>tools/copydist\<close>): the tool that copies the built front end. \<open>Test_Support\<close> (\<open>db/dbtest\<close> and the
    files \<open>testing.go\<close>): what tests of several packages share.
  \<^item> this theory: the property that spans command line and portal.

  \<^bold>\<open>State, effects and choice.\<close> A pool acts on a \<open>world\<close>: the database and the drives, one per account
  handle. Operations take the state and return it updated with a result; panics are values too.
  What the environment chooses is an argument: random bytes (\<open>entropy\<close>), times, the iteration order
  of Go maps, the segments a connection delivers, the statements that fail, and the order in which
  goroutines act (a schedule for uploads, a completion order for downloads). The theorems quantify
  over these choices. The names and shapes of \<open>put_env\<close>, \<open>renv\<close>, \<open>cli_env\<close> list them per operation.

  \<^bold>\<open>What is shown.\<close> Round trips: encryption, the store, accounts' tokens, put and get under every
  interleaving across command line, portal and a restart of it, replication over the network. Safety: a failed
  put leaves no file behind and a stored file survives every later history, removing an account
  loses no live file, a successful get delivered the
  recorded content, users are isolated in the database and in the portal whatever the order of
  requests, OAuth states work once, nothing is served without a session. Equivalence: the portal answers
  every sequence of requests as if it kept no pools in memory; uploads with one slot are a plain loop. Progress: puts into a
  healthy pool succeed, the goroutines of uploads and downloads are bounded, end and never get
  stuck. Functional behaviour and errors of the single operations; defects of the code where the
  expected property fails (\<open>decrypt_short_iv_read\<close>, \<open>handler_before_marker\<close>, \<open>cli_add_breaks_cached_pool\<close> and others).

  \<^bold>\<open>Bounds.\<close> Every loop is structural or has a measure, except the read loop of a connection and the
  loops of servers, which run for ever and are given as single steps, and the recursion of \<open>copydist\<close>
  over a tree it is changing, which has fuel: more than the length of the longest path is enough, and
  \<open>copydist_into_itself\<close> gives the case in which none is. Sizes are
  \<open>int\<close> with the \<open>int64\<close> operations written out; theorems about sizes carry the bound below which
  nothing wraps.

  \<^bold>\<open>Not modelled.\<close> The libraries behind the program (golang-migrate, gorm, cobra, gin's own routing beyond
  the routes the program registers, package net): their answers are arguments. Texts of log and
  error messages beyond what distinguishes them; \<open>GOBDecoder\<close> and the table \<open>chunk_replicas\<close>, which nothing
  uses; parsing of flags and of \<open>.env\<close>, test files and the front end. Purging is modelled and proved on its
  own, but is not an operation of the histories of \<open>Pool_Durability\<close>: it deletes folders, and two
  files share one when the random identifiers of their puts collide.
\<close>

text \<open>
  C19. The command line and the portal share one store: when \<open>rhino put\<close> has stored a file for a
  user name, a portal started afterwards on the same database, drives and token key answers the
  download of that file by the logged-in user of that name with exactly the bytes of the local file.
\<close>
theorem cli_put_portal_get:
  assumes "TokenEncryptionKeyFromEnv (ce_environ C) (fs_nodes (mc_fs m)) = Inr key" "be_penv B = ce_penv C key" "E = ce_penv C key"
    and "remote_contract (e_rs E) (md5_sum (m_prims (e_mcfg E)))" "flate_ok (m_prims (e_mcfg E))" "whole_iv (e_rs E) (w_drives (mc_world m'))"
    and "tenant_ok (w_db (mc_world m))" "db_faults (w_db (mc_world m)) = []"
    and "os_Stat (fs_nodes (mc_fs m)) path = Inr (File b)" "int (length b) + DefaultChunkSize - 1 \<le> max_i64"
    and put: "newPutCmd C path as m = (Inr out, m')"
    and secret: "cf_ClientSecretPath (be_cfg B) \<noteq> []" "LoadClientConfig (be_parse B) (be_nodes B) (cf_ClientSecretPath (be_cfg B)) = Inr cfg"
    and user: "user \<in> set (db_users (w_db (mc_world m')))" "u_Username user = cli_flag (ce_environ C) (ce_userFlag C) ''RHINO_USER''"
    and rq: "rq_Method rq = ''GET''" "rq_Path rq = ''/api/files/download''" "rq_session rq = Some (u_ID user)"
      "out = [StoredAs (rq_Query rq ''name'')]"
  shows "fst (newRouter B R rq \<lparr>sv_world = mc_world m', sv_pools = [], sv_pending = []\<rparr>) = reply 200 (Stream b)"
proof -
  obtain name p user' where st: "out = [StoredAs name]" "name \<noteq> []" "db_ok (w_db (mc_world m'))"
      "user' \<in> set (db_users (w_db (mc_world m')))" "u_Username user' = cli_flag (ce_environ C) (ce_userFlag C) ''RHINO_USER''"
    and u: "u_ID user' \<noteq> []" and op: "Open E (u_ID user') (w_db (mc_world m')) = (Inr p, w_db (mc_world m'))"
    and g: "\<forall>rank. GetStream E rank p name (mc_world m') empty_buffer = (Inr (), mc_world m', empty_buffer\<lparr>wout := b\<rparr>)"
    by (rule cli_put_stored [OF assms(1,3-11)])
  have "inj_on u_Username (set (db_users (w_db (mc_world m'))))" using st(3) by (simp add: db_ok_def uniq_on_def distinct_map)
  from inj_onD [OF this _ st(4) user(1)] st(5) user(2) have "user' = user" by simp
  with op secret have "cache_get B (re_now R) (u_ID user) \<lparr>sv_world = mc_world m', sv_pools = [], sv_pending = []\<rparr>
      = (Inr p, \<lparr>sv_world = mc_world m', sv_pools = [(u_ID user, p, re_now R)], sv_pending = []\<rparr>)"
    using assms(2,3) by (simp add: cache_get_def OpenWithUser_def sv_db_def with_db_def)
  with g rq st u \<open>user' = user\<close> assms(2,3) show ?thesis
    by (simp add: newRouter_def requireSession_def path_param_def handleDownloadFile_def s_pool_def empty_buffer_def)
qed

theorem cli_put_portal_get_witness:
  "\<exists>m' user. newPutCmd toy_cli ''new'' [] toy_machine = (Inr [StoredAs ''new''], m')
     \<and> user \<in> set (db_users (w_db (mc_world m'))) \<and> u_Username user = ''u''
     \<and> fst (newRouter toy_benv (toy_renv 9) (toy_request ''GET'' ''/api/files/download'' (Some (u_ID user)))
           \<lparr>sv_world = mc_world m', sv_pools = [], sv_pending = []\<rparr>) = reply 200 (Stream [1, 2, 3])"
proof -
  obtain m' where put: "newPutCmd toy_cli ''new'' [] toy_machine = (Inr [StoredAs ''new''], m')" using toy_cli_put by blast
  have E: "ce_penv toy_cli k = toy_penv" "ce_environ toy_cli = toy_environ" "be_penv toy_benv = toy_penv" for k
    by (simp_all add: toy_cli_def toy_benv_def)
  have f: "w_db (mc_world toy_machine) = toy_db2" "mc_fs toy_machine = toy_fs"
    by (simp_all add: toy_machine_def)
  have i: "TokenEncryptionKeyFromEnv (ce_environ toy_cli) (fs_nodes (mc_fs toy_machine)) = Inr (replicate 32 5)"
    "toy_penv = ce_penv toy_cli (replicate 32 5)" "remote_contract (e_rs toy_penv) (md5_sum (m_prims (e_mcfg toy_penv)))"
    "flate_ok (m_prims (e_mcfg toy_penv))" "whole_iv (e_rs toy_penv) (w_drives (mc_world m'))"
    "tenant_ok (w_db (mc_world toy_machine))" "db_faults (w_db (mc_world toy_machine)) = []"
    "os_Stat (fs_nodes (mc_fs toy_machine)) ''new'' = Inr (File [1, 2, 3])" "int (length [1, 2, 3 :: byte]) + DefaultChunkSize - 1 \<le> max_i64"
    using toy_key toy_db2_ok precise_remote.axioms(1) [OF toy_contract] toy_flate toy_whole_iv
    by (simp_all add: E f DefaultChunkSize_def max_i64_def)
      (simp_all add: os_Stat_def path_of_def push_comp_def toy_fs_def)
  have c: "LoadClientConfig (be_parse toy_benv) (be_nodes toy_benv) (cf_ClientSecretPath (be_cfg toy_benv)) = Inr ()"
    "cf_ClientSecretPath (be_cfg toy_benv) \<noteq> []" "be_penv toy_benv = ce_penv toy_cli (replicate 32 5)"
    by (simp_all add: LoadClientConfig_def os_ReadFile_def os_Stat_def path_of_def push_comp_def toy_benv_def toy_cli_def)
  obtain user where u: "user \<in> set (db_users (w_db (mc_world m')))"
    "u_Username user = cli_flag (ce_environ toy_cli) (ce_userFlag toy_cli) ''RHINO_USER''"
    by (rule cli_put_stored [OF i put])
  have "fst (newRouter toy_benv (toy_renv 9) (toy_request ''GET'' ''/api/files/download'' (Some (u_ID user)))
           \<lparr>sv_world = mc_world m', sv_pools = [], sv_pending = []\<rparr>) = reply 200 (Stream [1, 2, 3])"
    by (rule cli_put_portal_get [OF i(1) c(3) i(2-9) put c(2,1) u]) (simp_all add: toy_request_def)
  with put u show ?thesis by (auto simp: toy_cli_def cli_flag_def)
qed

end
